(* ===== verification/Prelude.thy ===== *)
theory Prelude
  imports Main "HOL-Library.Word"
begin

text \<open>
  Shared vocabulary of the development: the machine integer types, byte strings, the
  fixed-width little- and big-endian codecs behind \<open>to_le_bytes\<close>, \<open>to_be_bytes\<close>,
  \<open>from_le_bytes\<close> and \<open>from_be_bytes\<close>, slice writes (\<open>copy_from_slice\<close>), and the
  fallible fold that models a loop whose body may panic. The lemmas below are generic facts
  on lists, options and words; the components use them through the simplifier.
\<close>

unbundle bit_operations_syntax

type_synonym u8 = "8 word"
type_synonym u16 = "16 word"
type_synonym u32 = "32 word"
type_synonym u64 = "64 word"
type_synonym bytes = "u8 list"

text \<open>
  \<open>codec_simps\<close> collects the read-after-write laws of the byte codecs, \<open>frame_simps\<close>
  the read-after-write laws of panel frames.
\<close>

named_theorems codec_simps
named_theorems frame_simps

section \<open>Fixed-width integer codecs\<close>

text \<open>The \<open>n\<close> low bytes of a word, least significant first.\<close>

definition to_le :: "nat \<Rightarrow> 'a::len word \<Rightarrow> bytes" where
  "to_le n w = map (\<lambda>i. ucast (drop_bit (8 * i) w)) [0..<n]"

definition to_be :: "nat \<Rightarrow> 'a::len word \<Rightarrow> bytes" where
  "to_be n w = rev (to_le n w)"

primrec from_le :: "bytes \<Rightarrow> 'a::len word" where
  "from_le [] = 0"
| "from_le (b # bs) = ucast b OR push_bit 8 (from_le bs)"

definition from_be :: "bytes \<Rightarrow> 'a::len word" where
  "from_be bs = from_le (rev bs)"

section \<open>Slices\<close>

text \<open>\<open>xs[i..i+n]\<close>, where the range lies inside \<open>xs\<close>.\<close>

definition slice_of :: "nat \<Rightarrow> nat \<Rightarrow> 'a list \<Rightarrow> 'a list" where
  "slice_of i n xs = take n (drop i xs)"

text \<open>\<open>xs.get(i..j)\<close>: \<open>None\<close> when the range is reversed or leaves \<open>xs\<close>.\<close>

definition get_range :: "nat \<Rightarrow> nat \<Rightarrow> 'a list \<Rightarrow> 'a list option" where
  "get_range i j xs = (if i \<le> j \<and> j \<le> length xs then Some (take (j - i) (drop i xs)) else None)"

text \<open>\<open>xs[i..i+ys.len()].copy_from_slice(ys)\<close>, where the range lies inside \<open>xs\<close>.\<close>

definition put_at :: "nat \<Rightarrow> 'a list \<Rightarrow> 'a list \<Rightarrow> 'a list" where
  "put_at i ys xs = take i xs @ ys @ drop (i + length ys) xs"

section \<open>Loops whose body may fail\<close>

primrec foldM :: "('a \<Rightarrow> 's \<Rightarrow> 's option) \<Rightarrow> 'a list \<Rightarrow> 's \<Rightarrow> 's option" where
  "foldM f [] s = Some s"
| "foldM f (x # xs) s = Option.bind (f x s) (foldM f xs)"

text \<open>
  \<open>iter().map(f).collect::<Result<Vec<_>, _>>()\<close>: the first error ends the loop.
\<close>

primrec mapM_sum :: "('a \<Rightarrow> 'e + 'b) \<Rightarrow> 'a list \<Rightarrow> 'e + 'b list" where
  "mapM_sum f [] = Inr []"
| "mapM_sum f (x # xs) =
     (case f x of Inl e \<Rightarrow> Inl e
      | Inr y \<Rightarrow> (case mapM_sum f xs of Inl e \<Rightarrow> Inl e | Inr ys \<Rightarrow> Inr (y # ys)))"

primrec mapM_opt :: "('a \<Rightarrow> 'b option) \<Rightarrow> 'a list \<Rightarrow> 'b list option" where
  "mapM_opt f [] = Some []"
| "mapM_opt f (x # xs) =
     (case f x of None \<Rightarrow> None
      | Some y \<Rightarrow> (case mapM_opt f xs of None \<Rightarrow> None | Some ys \<Rightarrow> Some (y # ys)))"

text \<open>The \<open>?\<close> operator on a \<open>Result\<close>.\<close>

definition bindR :: "'e + 'a \<Rightarrow> ('a \<Rightarrow> 'e + 'b) \<Rightarrow> 'e + 'b" where
  "bindR r f = (case r of Inl e \<Rightarrow> Inl e | Inr x \<Rightarrow> f x)"

text \<open>\<open>ok_or\<close>.\<close>

definition ok_or :: "'e \<Rightarrow> 'a option \<Rightarrow> 'e + 'a" where
  "ok_or e m = (case m of None \<Rightarrow> Inl e | Some x \<Rightarrow> Inr x)"

text \<open>\<open>next_multiple_of(4)\<close> and \<open>div_ceil(4) * 4\<close>.\<close>

definition align4 :: "nat \<Rightarrow> nat" where
  "align4 n = (n + 3) div 4 * 4"

section \<open>Lemmas on the codecs\<close>

lemma length_to_le [simp, codec_simps]: "length (to_le n w) = n"
  by (simp add: to_le_def)

lemma length_to_be [simp, codec_simps]: "length (to_be n w) = n"
  by (simp add: to_be_def)

lemma nth_to_le: "i < n \<Longrightarrow> to_le n w ! i = ucast (drop_bit (8 * i) w)"
  by (simp add: to_le_def)

lemma bit_from_le:
  "bit (from_le bs :: 'a::len word) i \<longleftrightarrow>
     i < LENGTH('a) \<and> i div 8 < length bs \<and> bit (bs ! (i div 8)) (i mod 8)"
proof (induction bs arbitrary: i)
  case Nil
  then show ?case by simp
next
  case (Cons b bs)
  show ?case
  proof (cases "i < 8")
    case True
    then have "i div 8 = 0" and "i mod 8 = i" by simp_all
    with True show ?thesis
      by (auto simp: bit_simps dest: bit_imp_le_length)
  next
    case False
    then obtain j where j: "i = j + 8" by (metis add.commute le_Suc_ex not_less)
    then have "i div 8 = Suc (j div 8)" and "i mod 8 = j mod 8" by simp_all
    moreover have "\<not> bit b i" using False by (auto dest: bit_imp_le_length)
    ultimately show ?thesis using j Cons.IH [of j] by (auto simp: bit_simps)
  qed
qed

lemma from_le_to_le [simp, codec_simps]:
  assumes "LENGTH('a) = 8 * n"
  shows "from_le (to_le n (w :: 'a::len word)) = w"
proof (rule bit_word_eqI)
  fix i assume i: "i < LENGTH('a)"
  with assms have "i div 8 < n" by auto
  moreover have "8 * (i div 8) + i mod 8 = i" by simp
  ultimately show "bit (from_le (to_le n w) :: 'a word) i = bit w i"
    using i by (simp add: bit_from_le nth_to_le bit_simps)
qed

lemma from_be_to_be [simp, codec_simps]:
  "LENGTH('a) = 8 * n \<Longrightarrow> from_be (to_be n (w :: 'a::len word)) = w"
  by (simp add: from_be_def to_be_def)

lemma from_be_two: "(from_be [a, b] :: 'a::len word) = ucast b OR push_bit 8 (ucast a)"
  by (simp add: from_be_def)

lemma to_le_inject:
  assumes "to_le n (v :: 'a::len word) = to_le n w" and "LENGTH('a) = 8 * n"
  shows "v = w"
  using assms by (metis from_le_to_le)

lemma to_le_from_le:
  assumes "length bs = n" and "LENGTH('a) = 8 * n"
  shows "to_le n (from_le bs :: 'a::len word) = bs"
proof (rule nth_equalityI)
  show "length (to_le n (from_le bs :: 'a word)) = length bs" using assms by simp
next
  fix i assume "i < length (to_le n (from_le bs :: 'a word))"
  then have i: "i < n" by simp
  show "to_le n (from_le bs :: 'a word) ! i = bs ! i"
  proof (rule bit_word_eqI)
    fix k assume k: "k < LENGTH(8)"
    then have "(8 * i + k) div 8 = i" and "(8 * i + k) mod 8 = k" by simp_all
    moreover have "8 * i + k < LENGTH('a)" using i k assms by simp
    ultimately show "bit (to_le n (from_le bs :: 'a word) ! i) k = bit (bs ! i) k"
      using i k assms by (simp add: nth_to_le bit_simps bit_from_le)
  qed
qed

lemma word_xor_left_cancel [simp]: "a XOR b = a XOR c \<longleftrightarrow> b = (c :: 'a::len word)"
  by (metis xor.assoc xor.left_neutral xor_self_eq)

lemma word_xor_right_cancel [simp]: "b XOR a = c XOR a \<longleftrightarrow> b = (c :: 'a::len word)"
  by (metis word_xor_left_cancel xor.commute)

section \<open>Lemmas on slices\<close>

lemma length_slice_of [simp]: "i + n \<le> length xs \<Longrightarrow> length (slice_of i n xs) = n"
  by (simp add: slice_of_def)

lemma get_range_Some [simp]:
  "get_range i j xs = Some ys \<longleftrightarrow> i \<le> j \<and> j \<le> length xs \<and> ys = slice_of i (j - i) xs"
  by (auto simp: get_range_def slice_of_def)

lemma length_put_at [simp]: "i + length ys \<le> length xs \<Longrightarrow> length (put_at i ys xs) = length xs"
  by (simp add: put_at_def)

lemma nth_put_at:
  assumes "i + length ys \<le> length xs" and "k < length xs"
  shows "put_at i ys xs ! k = (if i \<le> k \<and> k < i + length ys then ys ! (k - i) else xs ! k)"
  using assms by (auto simp: put_at_def nth_append min_def)

lemma nth_put_at_other [simp]:
  "\<lbrakk>i + length ys \<le> length xs; k < length xs; k < i \<or> i + length ys \<le> k\<rbrakk>
   \<Longrightarrow> put_at i ys xs ! k = xs ! k"
  by (auto simp: nth_put_at)

lemma slice_put_at_same [simp]:
  "i + length ys \<le> length xs \<Longrightarrow> n = length ys \<Longrightarrow> slice_of i n (put_at i ys xs) = ys"
  by (simp add: slice_of_def put_at_def)

lemma nth_slice_of: "k < n \<Longrightarrow> i + n \<le> length xs \<Longrightarrow> slice_of i n xs ! k = xs ! (i + k)"
  by (simp add: slice_of_def)

lemma slice_of_cong:
  assumes "length xs = length ys" and "i + n \<le> length xs"
    and "\<And>k. i \<le> k \<Longrightarrow> k < i + n \<Longrightarrow> xs ! k = ys ! k"
  shows "slice_of i n xs = slice_of i n ys"
proof (rule nth_equalityI)
  show "length (slice_of i n xs) = length (slice_of i n ys)" using assms(1,2) by simp
next
  fix k assume "k < length (slice_of i n xs)"
  then have "k < n" using assms(2) by simp
  then show "slice_of i n xs ! k = slice_of i n ys ! k"
    using assms by (simp add: nth_slice_of)
qed

lemma slice_put_at_other [simp]:
  assumes "i + length ys \<le> length xs" and "j + n \<le> length xs"
    and "j + n \<le> i \<or> i + length ys \<le> j"
  shows "slice_of j n (put_at i ys xs) = slice_of j n xs"
  by (rule slice_of_cong) (use assms in auto)

lemma take_put_at [simp]:
  "n \<le> i \<Longrightarrow> i \<le> length xs \<Longrightarrow> take n (put_at i ys xs) = take n xs"
  by (simp add: put_at_def min_def)

section \<open>Lemmas on fallible loops and results\<close>

lemma foldM_append: "foldM f (xs @ ys) s = Option.bind (foldM f xs s) (foldM f ys)"
  by (induction xs arbitrary: s) (simp_all split: bind_split)

lemma foldM_invariant:
  assumes "P s" and "foldM f xs s = Some t"
    and "\<And>x s s'. \<lbrakk>x \<in> set xs; P s; f x s = Some s'\<rbrakk> \<Longrightarrow> P s'"
  shows "P t"
  using assms
proof (induction xs arbitrary: s)
  case Nil
  then show ?case by simp
next
  case (Cons x xs)
  from Cons.prems(2) obtain u where u: "f x s = Some u" "foldM f xs u = Some t"
    by (auto simp: bind_eq_Some_conv)
  have "P u" by (rule Cons.prems(3) [OF _ Cons.prems(1) u(1)]) simp
  then show ?case using u(2) Cons.prems(3) by (intro Cons.IH) auto
qed

lemma foldM_total:
  assumes "P s" and "\<And>x s. \<lbrakk>x \<in> set xs; P s\<rbrakk> \<Longrightarrow> \<exists>s'. f x s = Some s' \<and> P s'"
  shows "\<exists>t. foldM f xs s = Some t \<and> P t"
  using assms
proof (induction xs arbitrary: s)
  case Nil
  then show ?case by simp
next
  case (Cons x xs)
  from Cons.prems obtain u where u: "f x s = Some u" "P u" by force
  then obtain t where "foldM f xs u = Some t" "P t"
    using Cons.IH [of u] Cons.prems(2) by force
  with u show ?case by simp
qed

lemma bindR_Inr [simp]: "bindR (Inr x) f = f x"
  by (simp add: bindR_def)

lemma bindR_Inl [simp]: "bindR (Inl e) f = Inl e"
  by (simp add: bindR_def)

lemma bindR_eq_Inr: "bindR r f = Inr y \<longleftrightarrow> (\<exists>x. r = Inr x \<and> f x = Inr y)"
  by (auto simp: bindR_def split: sum.splits)

lemma bindR_eq_Inl: "bindR r f = Inl e \<longleftrightarrow> r = Inl e \<or> (\<exists>x. r = Inr x \<and> f x = Inl e)"
  by (auto simp: bindR_def split: sum.splits)

lemma ok_or_simps [simp]: "ok_or e None = Inl e" "ok_or e (Some x) = Inr x"
  by (simp_all add: ok_or_def)

lemma ok_or_eq_Inr [simp]: "ok_or e m = Inr x \<longleftrightarrow> m = Some x"
  by (auto simp: ok_or_def split: option.splits)

lemma mapM_sum_Inr_iff: "mapM_sum f xs = Inr ys \<longleftrightarrow> list_all2 (\<lambda>x y. f x = Inr y) xs ys"
proof (induction xs arbitrary: ys)
  case (Cons x xs)
  show ?case
    by (cases "f x"; cases "mapM_sum f xs") (auto simp: list_all2_Cons1 simp flip: Cons.IH)
qed auto

lemma mapM_opt_Some_iff: "mapM_opt f xs = Some ys \<longleftrightarrow> list_all2 (\<lambda>x y. f x = Some y) xs ys"
proof (induction xs arbitrary: ys)
  case (Cons x xs)
  show ?case
    by (cases "f x"; cases "mapM_opt f xs") (auto simp: list_all2_Cons1 simp flip: Cons.IH)
qed auto

lemma mapM_opt_map: "(\<And>x. x \<in> set xs \<Longrightarrow> f (g x) = Some x) \<Longrightarrow> mapM_opt f (map g xs) = Some xs"
  by (induction xs) auto

lemma align4_ge: "n \<le> align4 n"
  by (simp add: align4_def)

lemma align4_less: "align4 n < n + 4"
  by (simp add: align4_def)

lemma align4_dvd: "4 dvd align4 n"
  by (simp add: align4_def)

lemma align4_idem: "4 dvd n \<Longrightarrow> align4 n = n"
  by (auto simp: align4_def)

lemma align4_plus: "4 dvd a \<Longrightarrow> align4 (a + b) = a + align4 b"
  by (auto elim!: dvdE simp: align4_def add.assoc)

lemma find_Some_append: "find P xs = None \<Longrightarrow> find P (xs @ ys) = find P ys"
  by (induction xs) (auto split: if_splits)

lemma find_map_of: "map_option snd (find (\<lambda>(k, v). k = x) kvs) = map_of kvs x"
  by (induction kvs) auto

end
