(* ===== verification/Crc.thy ===== *)
theory Crc
  imports Prelude
begin

text \<open>
  CRC-16/X-25 of \<open>crates/cdj3k-emu-panel/src/crc.rs\<close>: the bit loop, the byte loop and the
  checksum that ends every MISO frame. The lemmas show that the register update is linear over
  XOR and injective; from these follow the residue a receiver can test for and the detection
  of every corruption confined to two neighbouring bytes.
\<close>

section \<open>The checksum\<close>

text \<open>One round of the inner loop.\<close>

definition crc_bit :: "u16 \<Rightarrow> u16" where
  "crc_bit crc = (if crc AND 1 \<noteq> 0 then drop_bit 1 crc XOR 0x8408 else drop_bit 1 crc)"

text \<open>One byte: mix it in, then eight rounds.\<close>

definition crc_byte :: "u8 \<Rightarrow> u16 \<Rightarrow> u16" where
  "crc_byte b crc = (crc_bit ^^ 8) (crc XOR ucast b)"

definition crc16_x25 :: "bytes \<Rightarrow> u16" where
  "crc16_x25 data = fold crc_byte data 0xFFFF XOR 0xFFFF"

section \<open>The register update\<close>

lemma and_one_ne_zero: "(c :: 'a::len word) AND 1 \<noteq> 0 \<longleftrightarrow> bit c 0"
  by (simp add: and_one_eq odd_iff_mod_2_eq_one bit_0)

lemma crc_bit_alt: "crc_bit c = drop_bit 1 c XOR (if bit c 0 then 0x8408 else 0)"
  by (simp add: crc_bit_def and_one_ne_zero)

lemma crc_bit_xor: "crc_bit (a XOR b) = crc_bit a XOR crc_bit b"
  by (rule bit_word_eqI) (auto simp: crc_bit_alt bit_simps)

lemma crc_bit_0 [simp]: "crc_bit 0 = 0"
  by (simp add: crc_bit_alt)

lemma bit_15_crc_bit: "bit (crc_bit c) 15 \<longleftrightarrow> bit c 0"
  by (auto simp: crc_bit_alt bit_simps dest: bit_imp_le_length)

lemma crc_bit_inject: "crc_bit a = crc_bit b \<longleftrightarrow> a = b"
proof
  assume eq: "crc_bit a = crc_bit b"
  then have b0: "bit a 0 = bit b 0" by (metis bit_15_crc_bit)
  then have d: "drop_bit 1 a = drop_bit 1 b"
    using eq by (simp add: crc_bit_alt split: if_splits)
  show "a = b"
  proof (rule bit_word_eqI)
    fix n assume "n < LENGTH(16)"
    show "bit a n = bit b n"
    proof (cases n)
      case 0
      then show ?thesis using b0 by simp
    next
      case (Suc m)
      then show ?thesis using d by (metis Suc_eq_plus1_left bit_drop_bit_eq comp_apply)
    qed
  qed
qed simp

lemma crc_bits_xor: "(crc_bit ^^ n) (a XOR b) = (crc_bit ^^ n) a XOR (crc_bit ^^ n) b"
  by (induction n) (simp_all add: crc_bit_xor)

lemma crc_bits_inject: "(crc_bit ^^ n) a = (crc_bit ^^ n) b \<longleftrightarrow> a = b"
  by (induction n) (simp_all add: crc_bit_inject)

text \<open>A register whose low byte is clear moves its high byte down unchanged.\<close>

lemma crc_bits_high:
  assumes "\<And>i. i < n \<Longrightarrow> \<not> bit a i"
  shows "(crc_bit ^^ n) a = drop_bit n a"
  using assms
proof (induction n)
  case 0
  then show ?case by simp
next
  case (Suc n)
  then have "(crc_bit ^^ n) a = drop_bit n a" by simp
  moreover have "\<not> bit (drop_bit n a) 0" using Suc.prems by (simp add: bit_simps)
  ultimately show ?case by (simp add: crc_bit_alt [of "drop_bit n a"])
qed

lemma crc_byte_high: "(crc_bit ^^ 8) (push_bit 8 (ucast (h :: u8))) = ucast h"
proof -
  have "(crc_bit ^^ 8) (push_bit 8 (ucast h)) = drop_bit 8 (push_bit 8 (ucast h) :: u16)"
    by (rule crc_bits_high) (simp add: bit_simps)
  also have "\<dots> = ucast h"
    by (rule bit_word_eqI) (auto simp: bit_simps dest: bit_imp_le_length)
  finally show ?thesis .
qed

lemma crc_byte_inject: "crc_byte b s = crc_byte b t \<longleftrightarrow> s = t"
  unfolding crc_byte_def crc_bits_inject by (metis xor.right_neutral xor.assoc xor_self_eq)

lemma crc_fold_inject: "fold crc_byte bs s = fold crc_byte bs t \<longleftrightarrow> s = t"
  by (induction bs arbitrary: s t) (simp_all add: crc_byte_inject)

lemma xor_swap:
  assumes "a XOR b = c XOR (d :: 'a::len word)"
  shows "a XOR c = b XOR d"
proof (rule bit_word_eqI)
  fix n assume "n < LENGTH('a)"
  moreover have "bit (a XOR b) n = bit (c XOR d) n" using assms by simp
  ultimately show "bit (a XOR c) n = bit (b XOR d) n" by (auto simp: bit_simps)
qed

lemma xor_eq_0: "a XOR b = 0 \<longleftrightarrow> a = (b :: 'a::len word)"
  by (metis word_xor_right_cancel xor_self_eq)

text \<open>Two bytes determine the register after them.\<close>

lemma crc_two_bytes:
  assumes "crc_byte b (crc_byte a s) = crc_byte b' (crc_byte a' s)"
  shows "a = a' \<and> b = b'"
proof -
  let ?F = "crc_bit ^^ 8"
  have "?F (s XOR ucast a) XOR ucast b = ?F (s XOR ucast a') XOR ucast b'"
    using assms unfolding crc_byte_def crc_bits_inject .
  then have "?F (ucast a) XOR ucast b = ?F (ucast a') XOR ucast b'"
    unfolding crc_bits_xor xor.assoc word_xor_left_cancel .
  then have "?F (ucast a) XOR ?F (ucast a') = ucast b XOR ucast b'"
    by (rule xor_swap)
  then have "?F (ucast (a XOR a')) = ucast (b XOR b')"
    unfolding crc_bits_xor [symmetric] unsigned_xor_eq .
  also have "\<dots> = ?F (push_bit 8 (ucast (b XOR b')))"
    by (rule crc_byte_high [symmetric])
  finally have eq: "(ucast (a XOR a') :: u16) = push_bit 8 (ucast (b XOR b'))"
    by (simp only: crc_bits_inject)
  have "a XOR a' = 0"
  proof (rule bit_word_eqI)
    fix n assume n: "n < LENGTH(8)"
    have "bit (ucast (a XOR a') :: u16) n = bit (push_bit 8 (ucast (b XOR b')) :: u16) n"
      using eq by simp
    then show "bit (a XOR a') n = bit (0 :: u8) n"
      using n by (simp add: bit_simps)
  qed
  moreover have "b XOR b' = 0"
  proof (rule bit_word_eqI)
    fix n assume n: "n < LENGTH(8)"
    have "bit (ucast (a XOR a') :: u16) (n + 8) = bit (push_bit 8 (ucast (b XOR b')) :: u16) (n + 8)"
      using eq by simp
    then show "bit (b XOR b') n = bit (0 :: u8) n"
      using n by (auto simp: bit_simps dest: bit_imp_le_length)
  qed
  ultimately show ?thesis by (simp add: xor_eq_0)
qed

lemma byte_mask: "(0xFF :: u16) = mask 8"
  by (simp add: mask_numeral)

lemma crc_residue_value: "(crc_bit ^^ 8) ((crc_bit ^^ 8) 0xFF XOR 0xFF) = 0xF0B8"
  by code_simp

text \<open>The two checksum bytes cancel the register, whatever it was.\<close>

lemma crc_residue_state:
  "crc_byte (ucast (drop_bit 8 (NOT s))) (crc_byte (ucast (NOT s)) s) = 0xF0B8"
proof -
  let ?F = "crc_bit ^^ 8"
  have "s XOR ucast (ucast (NOT s) :: u8) = 0xFF XOR push_bit 8 (ucast (ucast (drop_bit 8 s) :: u8))"
    unfolding byte_mask by (rule bit_word_eqI) (auto simp: bit_simps dest: bit_imp_le_length)
  then have one: "crc_byte (ucast (NOT s)) s = ?F 0xFF XOR ucast (ucast (drop_bit 8 s) :: u8)"
    by (simp only: crc_byte_def crc_bits_xor crc_byte_high)
  have "(ucast (ucast (drop_bit 8 s) :: u8) :: u16) XOR ucast (ucast (drop_bit 8 (NOT s)) :: u8) = 0xFF"
    unfolding byte_mask by (rule bit_word_eqI) (auto simp: bit_simps dest: bit_imp_le_length)
  then have "crc_byte (ucast (drop_bit 8 (NOT s))) (crc_byte (ucast (NOT s)) s) = ?F (?F 0xFF XOR 0xFF)"
    by (simp only: one crc_byte_def [of "ucast (drop_bit 8 (NOT s))"] xor.assoc)
  also have "\<dots> = 0xF0B8" by (rule crc_residue_value)
  finally show ?thesis .
qed

lemma crc16_x25_burst:
  assumes "crc16_x25 (p @ a # b # s) = crc16_x25 (p @ a' # b' # s)"
  shows "a = a' \<and> b = b'"
proof -
  have "crc_byte b (crc_byte a (fold crc_byte p 0xFFFF)) = crc_byte b' (crc_byte a' (fold crc_byte p 0xFFFF))"
    using assms by (simp add: crc16_x25_def crc_fold_inject)
  then show ?thesis by (rule crc_two_bytes)
qed

lemma crc16_x25_update:
  assumes "Suc k < length d" and "crc16_x25 (d[k := x, Suc k := y]) = crc16_x25 d"
  shows "x = d ! k \<and> y = d ! Suc k"
proof -
  have d: "d = take k d @ d ! k # d ! Suc k # drop (Suc (Suc k)) d"
    using assms(1) by (metis Cons_nth_drop_Suc Suc_lessD append_take_drop_id)
  have l: "length (take k d) = k" using assms(1) by simp
  have "d[k := x, Suc k := y] = (take k d @ d ! k # d ! Suc k # drop (Suc (Suc k)) d)[k := x, Suc k := y]"
    using d by simp
  also have "\<dots> = take k d @ x # y # drop (Suc (Suc k)) d"
    using l by (simp add: list_update_append)
  finally have "crc16_x25 (take k d @ x # y # drop (Suc (Suc k)) d) =
      crc16_x25 (take k d @ d ! k # d ! Suc k # drop (Suc (Suc k)) d)"
    using assms(2) d by simp
  then show ?thesis by (rule crc16_x25_burst)
qed

text \<open>A receiver that runs the checksum over a frame including its little-endian checksum word
  always ends at the same residue, whatever the frame holds.\<close>

theorem crc_residue: "crc16_x25 (d @ to_le 2 (crc16_x25 d)) = 0x0F47"
proof -
  let ?s = "fold crc_byte d 0xFFFF"
  have "(0xFFFF :: u16) = - 1" by simp
  then have c: "crc16_x25 d = NOT ?s" unfolding crc16_x25_def by (metis bit.xor_one_right)
  have "to_le 2 (crc16_x25 d) = [ucast (NOT ?s), ucast (drop_bit 8 (NOT ?s))]"
    by (simp add: to_le_def c numeral_2_eq_2)
  then show ?thesis by (simp add: crc16_x25_def crc_residue_state)
qed

end
