(* ===== verification/RustText.thy ===== *)
theory RustText
  imports Prelude
begin

text \<open>
  The string operations of the Rust standard library the sources call. A \<open>str\<close> is the list
  of its chars; a HOL \<open>char\<close> stands for the Unicode scalar value of the same code, so the
  model covers text over U+0000 to U+00FF, and \<open>is_ws\<close> is \<open>char::is_whitespace\<close> and
  \<open>is_control\<close> is \<open>char::is_control\<close> on that range. \<open>str_len\<close> is \<open>str::len\<close>, the
  length in UTF-8 bytes. Splitting and trimming are polymorphic in the element, so the byte
  string components use the same definitions.
\<close>

abbreviation code :: "char \<Rightarrow> nat" where
  "code c \<equiv> of_char c"

section \<open>Characters\<close>

definition is_ws :: "char \<Rightarrow> bool" where
  "is_ws c = (let n = code c in (9 \<le> n \<and> n \<le> 13) \<or> n = 32 \<or> n = 0x85 \<or> n = 0xA0)"

definition is_ascii_ws :: "char \<Rightarrow> bool" where
  "is_ascii_ws c = (let n = code c in n = 9 \<or> n = 10 \<or> n = 12 \<or> n = 13 \<or> n = 32)"

definition is_control :: "char \<Rightarrow> bool" where
  "is_control c = (let n = code c in n < 32 \<or> (127 \<le> n \<and> n < 160))"

definition is_digit :: "char \<Rightarrow> bool" where
  "is_digit c = (let n = code c in 48 \<le> n \<and> n \<le> 57)"

definition is_upper :: "char \<Rightarrow> bool" where
  "is_upper c = (let n = code c in 65 \<le> n \<and> n \<le> 90)"

definition is_lower :: "char \<Rightarrow> bool" where
  "is_lower c = (let n = code c in 97 \<le> n \<and> n \<le> 122)"

definition is_alpha :: "char \<Rightarrow> bool" where
  "is_alpha c = (is_upper c \<or> is_lower c)"

definition is_alnum :: "char \<Rightarrow> bool" where
  "is_alnum c = (is_alpha c \<or> is_digit c)"

definition lower :: "char \<Rightarrow> char" where
  "lower c = (if is_upper c then char_of (code c + 32) else c)"

definition upper :: "char \<Rightarrow> char" where
  "upper c = (if is_lower c then char_of (code c - 32) else c)"

section \<open>Strings\<close>

definition to_ascii_lowercase :: "string \<Rightarrow> string" where
  "to_ascii_lowercase s = map lower s"

definition to_ascii_uppercase :: "string \<Rightarrow> string" where
  "to_ascii_uppercase s = map upper s"

definition eq_ignore_ascii_case :: "string \<Rightarrow> string \<Rightarrow> bool" where
  "eq_ignore_ascii_case s t = (to_ascii_lowercase s = to_ascii_lowercase t)"

definition str_len :: "string \<Rightarrow> nat" where
  "str_len s = sum_list (map (\<lambda>c. if code c < 128 then 1 else 2) s)"

definition trim_start_by :: "('a \<Rightarrow> bool) \<Rightarrow> 'a list \<Rightarrow> 'a list" where
  "trim_start_by P s = dropWhile P s"

definition trim_end_by :: "('a \<Rightarrow> bool) \<Rightarrow> 'a list \<Rightarrow> 'a list" where
  "trim_end_by P s = rev (dropWhile P (rev s))"

definition trim_by :: "('a \<Rightarrow> bool) \<Rightarrow> 'a list \<Rightarrow> 'a list" where
  "trim_by P s = trim_end_by P (trim_start_by P s)"

definition trim :: "string \<Rightarrow> string" where
  "trim s = trim_by is_ws s"

text \<open>\<open>split_once\<close> and \<open>rsplit_once\<close> with a pattern that matches one element.\<close>

primrec split_once :: "('a \<Rightarrow> bool) \<Rightarrow> 'a list \<Rightarrow> ('a list \<times> 'a list) option" where
  "split_once P [] = None"
| "split_once P (x # xs) =
     (if P x then Some ([], xs) else map_option (\<lambda>(a, b). (x # a, b)) (split_once P xs))"

definition rsplit_once :: "('a \<Rightarrow> bool) \<Rightarrow> 'a list \<Rightarrow> ('a list \<times> 'a list) option" where
  "rsplit_once P xs = map_option (\<lambda>(a, b). (rev b, rev a)) (split_once P (rev xs))"

text \<open>\<open>split\<close>: the pieces between the matches, one more than there are matches.\<close>

primrec split_by :: "('a \<Rightarrow> bool) \<Rightarrow> 'a list \<Rightarrow> 'a list list" where
  "split_by P [] = [[]]"
| "split_by P (x # xs) =
     (if P x then [] # split_by P xs
      else (case split_by P xs of [] \<Rightarrow> [[x]] | p # ps \<Rightarrow> (x # p) # ps))"

definition split_whitespace :: "string \<Rightarrow> string list" where
  "split_whitespace s = filter (\<lambda>w. w \<noteq> []) (split_by is_ws s)"

text \<open>\<open>join\<close>.\<close>

fun join :: "'a list \<Rightarrow> 'a list list \<Rightarrow> 'a list" where
  "join sep [] = []"
| "join sep [p] = p"
| "join sep (p # ps) = p @ sep @ join sep ps"

text \<open>\<open>find_map\<close>.\<close>

fun find_some :: "('a \<Rightarrow> 'b option) \<Rightarrow> 'a list \<Rightarrow> 'b option" where
  "find_some f [] = None"
| "find_some f (x # xs) = (case f x of Some y \<Rightarrow> Some y | None \<Rightarrow> find_some f xs)"

fun strip_prefix :: "'a list \<Rightarrow> 'a list \<Rightarrow> 'a list option" where
  "strip_prefix [] s = Some s"
| "strip_prefix (p # ps) [] = None"
| "strip_prefix (p # ps) (c # cs) = (if p = c then strip_prefix ps cs else None)"

definition strip_suffix :: "'a list \<Rightarrow> 'a list \<Rightarrow> 'a list option" where
  "strip_suffix p s = map_option rev (strip_prefix (rev p) (rev s))"

definition starts_with :: "'a list \<Rightarrow> 'a list \<Rightarrow> bool" where
  "starts_with p s = (strip_prefix p s \<noteq> None)"

text \<open>
  \<open>lines()\<close>: each line without its newline and without a carriage return before it; text
  that ends with a newline has no empty last line.
\<close>

definition end_line :: "'a \<Rightarrow> 'a list \<Rightarrow> 'a list" where
  "end_line cr l = (case strip_suffix [cr] l of None \<Rightarrow> l | Some m \<Rightarrow> m)"

definition lines_by :: "'a \<Rightarrow> 'a \<Rightarrow> 'a list \<Rightarrow> 'a list list" where
  "lines_by nl cr s =
     (let ps = split_by (\<lambda>c. c = nl) s
      in map (end_line cr) (butlast ps) @ (if last ps = [] then [] else [last ps]))"

definition lines :: "string \<Rightarrow> string list" where
  "lines s = lines_by (CHR ''\<newline>'') (CHR 0x0D) s"

section \<open>Numbers\<close>

text \<open>\<open>char::to_digit\<close>, on a code point.\<close>

definition to_digit :: "nat \<Rightarrow> nat \<Rightarrow> nat option" where
  "to_digit radix n =
     (let d = (if 48 \<le> n \<and> n \<le> 57 then n - 48
               else if 97 \<le> n \<and> n \<le> 122 then n - 97 + 10
               else if 65 \<le> n \<and> n \<le> 90 then n - 65 + 10 else radix)
      in if d < radix then Some d else None)"

text \<open>The value of a digit string, most significant digit first.\<close>

definition digits_value :: "nat \<Rightarrow> nat list \<Rightarrow> nat" where
  "digits_value radix ds = foldl (\<lambda>acc d. acc * radix + d) 0 ds"

text \<open>
  \<open>from_str_radix\<close> on an unsigned type of \<open>w\<close> bits: an optional plus sign, at least one
  digit, and a value that fits.
\<close>

definition parse_radix :: "nat \<Rightarrow> nat \<Rightarrow> nat list \<Rightarrow> nat option" where
  "parse_radix radix w cs =
     (let ds = (case cs of [] \<Rightarrow> [] | c # rest \<Rightarrow> if c = 43 then rest else cs)
      in if ds = [] then None
         else (case mapM_opt (to_digit radix) ds of
                 None \<Rightarrow> None
               | Some vs \<Rightarrow> (let v = digits_value radix vs in if v < 2 ^ w then Some v else None)))"

definition parse_uint :: "nat \<Rightarrow> string \<Rightarrow> nat option" where
  "parse_uint w s = parse_radix 10 w (map code s)"

text \<open>\<open>str::parse\<close> for a signed type of \<open>w\<close> bits.\<close>

definition parse_sint :: "nat \<Rightarrow> string \<Rightarrow> int option" where
  "parse_sint w s =
     (case s of
        [] \<Rightarrow> None
      | c # rest \<Rightarrow>
          let neg = (c = CHR ''-'');
              ds = (if neg \<or> c = CHR ''+'' then rest else s)
          in if ds = [] then None
             else (case mapM_opt (to_digit 10) (map code ds) of
                     None \<Rightarrow> None
                   | Some vs \<Rightarrow>
                       let v = int (digits_value 10 vs)
                       in if neg then (if v \<le> 2 ^ (w - 1) then Some (- v) else None)
                          else (if v < 2 ^ (w - 1) then Some v else None)))"

text \<open>\<open>Display\<close> of an unsigned number.\<close>

fun show_nat :: "nat \<Rightarrow> string" where
  "show_nat n = (if n < 10 then [char_of (48 + n)] else show_nat (n div 10) @ [char_of (48 + n mod 10)])"

declare show_nat.simps [simp del]

section \<open>Lemmas on characters and case\<close>

lemma code_less_256 [simp]: "code c < 256"
  by simp

lemma lower_lower [simp]: "lower (lower c) = lower c"
  by (auto simp: lower_def is_upper_def Let_def)

lemma lower_upper [simp]: "lower (upper c) = lower c"
  by (auto simp: lower_def upper_def is_upper_def is_lower_def Let_def)

lemma upper_lower [simp]: "upper (lower c) = upper c"
  by (auto simp: lower_def upper_def is_upper_def is_lower_def Let_def)

lemma is_ws_lower [simp]: "is_ws (lower c) = is_ws c"
  by (auto simp: lower_def is_upper_def is_ws_def Let_def)

lemma is_ws_upper [simp]: "is_ws (upper c) = is_ws c"
  by (auto simp: upper_def is_lower_def is_ws_def Let_def)

lemma to_ascii_lowercase_idem [simp]: "to_ascii_lowercase (to_ascii_lowercase s) = to_ascii_lowercase s"
  by (simp add: to_ascii_lowercase_def)

lemma to_ascii_lowercase_upper [simp]: "to_ascii_lowercase (to_ascii_uppercase s) = to_ascii_lowercase s"
  by (simp add: to_ascii_lowercase_def to_ascii_uppercase_def)

lemma to_ascii_uppercase_lower [simp]: "to_ascii_uppercase (to_ascii_lowercase s) = to_ascii_uppercase s"
  by (simp add: to_ascii_lowercase_def to_ascii_uppercase_def)

lemma eq_ignore_ascii_case_refl [simp]: "eq_ignore_ascii_case s s"
  by (simp add: eq_ignore_ascii_case_def)

section \<open>Lemmas on trimming and splitting\<close>

lemma trim_end_by_snoc: "trim_end_by P (s @ [c]) = (if P c then trim_end_by P s else s @ [c])"
  by (simp add: trim_end_by_def)

lemma trim_end_by_id: "s = [] \<or> \<not> P (last s) \<Longrightarrow> trim_end_by P s = s"
  by (cases s rule: rev_cases) (auto simp: trim_end_by_def)

lemma trim_start_by_id: "s = [] \<or> \<not> P (hd s) \<Longrightarrow> trim_start_by P s = s"
  by (cases s) (auto simp: trim_start_by_def)

lemma trim_by_id: "s = [] \<or> (\<not> P (hd s) \<and> \<not> P (last s)) \<Longrightarrow> trim_by P s = s"
  by (auto simp: trim_by_def trim_start_by_id trim_end_by_id)

lemma trim_by_ends: "trim_by P s \<noteq> [] \<Longrightarrow> \<not> P (hd (trim_by P s)) \<and> \<not> P (last (trim_by P s))"
proof -
  let ?t = "trim_start_by P s"
  assume ne: "trim_by P s \<noteq> []"
  then have d: "dropWhile P (rev ?t) \<noteq> []" by (simp add: trim_by_def trim_end_by_def)
  then have "last (trim_by P s) = hd (dropWhile P (rev ?t))"
    by (simp add: trim_by_def trim_end_by_def last_rev)
  then have l: "\<not> P (last (trim_by P s))" using hd_dropWhile [of P "rev ?t"] d by (metis dropWhile_eq_Nil_conv)
  obtain n where n: "trim_by P s = take n ?t"
    unfolding trim_by_def trim_end_by_def by (metis dropWhile_eq_drop rev_drop rev_rev_ident)
  then have "hd (trim_by P s) = hd ?t" using ne by (cases ?t; cases n) auto
  moreover have "?t \<noteq> []" using ne n by auto
  ultimately have "\<not> P (hd (trim_by P s))"
    unfolding trim_start_by_def using hd_dropWhile by (metis dropWhile_eq_Nil_conv)
  with l show ?thesis by simp
qed

lemma trim_by_idem [simp]: "trim_by P (trim_by P s) = trim_by P s"
  using trim_by_ends by (intro trim_by_id) blast

lemma trim_idem [simp]: "trim (trim s) = trim s"
  by (simp add: trim_def)

lemma trim_Nil [simp]: "trim [] = []"
  by (simp add: trim_def trim_by_def trim_start_by_def trim_end_by_def)

lemma trim_by_map: "(\<And>c. P (f c) = P c) \<Longrightarrow> trim_by P (map f s) = map f (trim_by P s)"
  by (simp add: trim_by_def trim_start_by_def trim_end_by_def dropWhile_map comp_def rev_map)

lemma trim_map_lower: "trim (to_ascii_lowercase s) = to_ascii_lowercase (trim s)"
  by (simp add: trim_def to_ascii_lowercase_def trim_by_map)

lemma split_once_Some:
  "split_once P s = Some (a, b) \<longleftrightarrow> (\<exists>x. s = a @ x # b \<and> P x \<and> (\<forall>c \<in> set a. \<not> P c))"
proof (induction s arbitrary: a)
  case (Cons y s)
  show ?case
  proof (cases "P y")
    case True
    then show ?thesis by (cases a) auto
  next
    case False
    then have "split_once P (y # s) = Some (a, b) \<longleftrightarrow> (\<exists>a'. a = y # a' \<and> split_once P s = Some (a', b))"
      by auto
    with Cons.IH False show ?thesis by (cases a) auto
  qed
qed simp

lemma split_once_None: "split_once P s = None \<longleftrightarrow> (\<forall>c \<in> set s. \<not> P c)"
  by (induction s) auto

lemma split_once_append [simp]:
  "\<forall>c \<in> set a. \<not> P c \<Longrightarrow> P x \<Longrightarrow> split_once P (a @ x # b) = Some (a, b)"
  by (subst split_once_Some) blast

lemma find_some_Some: "find_some f xs = Some y \<Longrightarrow> \<exists>x \<in> set xs. f x = Some y"
  by (induction xs) (auto split: option.splits)

lemma split_by_nonempty [simp]: "split_by P s \<noteq> []"
  by (cases s) (auto split: list.splits)

lemma split_by_no_match: "\<forall>c \<in> set s. \<not> P c \<Longrightarrow> split_by P s = [s]"
  by (induction s) auto

lemma split_by_append:
  "\<forall>c \<in> set a. \<not> P c \<Longrightarrow> P x \<Longrightarrow> split_by P (a @ x # b) = a # split_by P b"
  by (induction a) auto

lemma split_by_at: "P x \<Longrightarrow> split_by P (a @ x # b) = split_by P a @ split_by P b"
  by (induction a) (auto split: list.splits)

lemma split_by_last: "P x \<Longrightarrow> last (split_by P (a @ x # b)) = last (split_by P b)"
  by (simp add: split_by_at)

lemma split_by_join:
  assumes "ps \<noteq> []" and "\<forall>p \<in> set ps. x \<notin> set p"
  shows "split_by (\<lambda>c. c = x) (join [x] ps) = ps"
  using assms
proof (induction "[x]" ps rule: join.induct)
  case (2 p)
  then show ?case by (simp, intro split_by_no_match) auto
next
  case (3 p q ps)
  then have "\<forall>c \<in> set p. \<not> c = x" by auto
  with 3 show ?case by (simp add: split_by_append)
qed simp

lemma set_split_by: "p \<in> set (split_by P s) \<Longrightarrow> c \<in> set p \<Longrightarrow> c \<in> set s \<and> \<not> P c"
proof (induction s arbitrary: p)
  case (Cons x s)
  obtain q qs where q: "split_by P s = q # qs" by (cases "split_by P s") auto
  show ?case
  proof (cases "P x")
    case True
    then show ?thesis using Cons by auto
  next
    case False
    then show ?thesis using Cons.prems Cons.IH [of q] Cons.IH [of p] by (auto simp: q)
  qed
qed simp

lemma concat_join_split: "join [x] (split_by (\<lambda>c. c = x) s) = s"
proof (induction s)
  case (Cons y s)
  obtain q qs where q: "split_by (\<lambda>c. c = x) s = q # qs"
    by (cases "split_by (\<lambda>c. c = x) s") auto
  then show ?case using Cons by (cases qs) auto
qed simp

lemma strip_prefix_Some: "strip_prefix p s = Some r \<longleftrightarrow> s = p @ r"
  by (induction p s rule: strip_prefix.induct) auto

lemma strip_prefix_append [simp]: "strip_prefix p (p @ r) = Some r"
  by (simp add: strip_prefix_Some)

lemma strip_prefix_None: "strip_prefix p s = None \<longleftrightarrow> (\<nexists>r. s = p @ r)"
  by (metis not_Some_eq strip_prefix_Some)

lemma strip_prefix_default:
  assumes "strip_prefix p a = None"
  shows "(case strip_prefix p s of None \<Rightarrow> s | Some r \<Rightarrow> r) = a \<longleftrightarrow> s = a \<or> s = p @ a"
proof (cases "strip_prefix p s")
  case None
  then have "s \<noteq> p @ a" by (simp add: strip_prefix_None)
  with None show ?thesis by simp
next
  case (Some r)
  then have "s = p @ r" by (simp add: strip_prefix_Some)
  moreover have "p @ r \<noteq> a" using assms by (auto simp: strip_prefix_None)
  ultimately show ?thesis by simp
qed

lemma strip_suffix_Some: "strip_suffix p s = Some r \<longleftrightarrow> s = r @ p"
proof
  assume "strip_suffix p s = Some r"
  then have "rev s = rev p @ rev r" by (auto simp: strip_suffix_def strip_prefix_Some)
  then show "s = r @ p" by (metis rev_append rev_rev_ident)
next
  assume "s = r @ p"
  then show "strip_suffix p s = Some r" by (simp add: strip_suffix_def)
qed

section \<open>Lemmas on numbers\<close>

lemma digits_value_snoc [simp]: "digits_value r (ds @ [d]) = digits_value r ds * r + d"
  by (simp add: digits_value_def)

lemma to_digit_bound: "to_digit r n = Some d \<Longrightarrow> d < r"
  by (auto simp: to_digit_def Let_def split: if_splits)

lemma to_digit_10_char: "d < 10 \<Longrightarrow> to_digit 10 (48 + d) = Some d"
  by (simp add: to_digit_def)

lemma code_digit: "d < 10 \<Longrightarrow> code (char_of (48 + d)) = 48 + d"
  by simp

lemma mapM_opt_snoc:
  "mapM_opt f (xs @ [x]) =
     (case mapM_opt f xs of None \<Rightarrow> None
      | Some ys \<Rightarrow> (case f x of None \<Rightarrow> None | Some y \<Rightarrow> Some (ys @ [y])))"
  by (induction xs) (auto split: option.splits)

lemma show_nat_digits:
  "\<exists>vs. mapM_opt (to_digit 10) (map code (show_nat n)) = Some vs \<and> digits_value 10 vs = n"
proof (induction n rule: show_nat.induct)
  case (1 n)
  show ?case
  proof (cases "n < 10")
    case True
    then show ?thesis
      by (simp add: show_nat.simps [of n] code_digit to_digit_10_char digits_value_def)
  next
    case False
    then obtain vs where vs: "mapM_opt (to_digit 10) (map code (show_nat (n div 10))) = Some vs"
      "digits_value 10 vs = n div 10"
      using 1 by blast
    have "map code (show_nat n) = map code (show_nat (n div 10)) @ [48 + n mod 10]"
      using False by (subst show_nat.simps) (simp add: code_digit)
    with vs show ?thesis by (simp add: mapM_opt_snoc to_digit_10_char)
  qed
qed

lemma show_nat_hd: "\<exists>d ds. show_nat n = d # ds \<and> is_digit d"
proof (induction n rule: show_nat.induct)
  case (1 n)
  show ?case
  proof (cases "n < 10")
    case True
    then show ?thesis by (simp add: show_nat.simps [of n] is_digit_def code_digit)
  next
    case False
    then obtain d ds where "show_nat (n div 10) = d # ds" "is_digit d" using 1 by blast
    with False show ?thesis by (simp add: show_nat.simps [of n])
  qed
qed

lemma show_nat_all_digits: "c \<in> set (show_nat n) \<Longrightarrow> is_digit c"
proof (induction n rule: show_nat.induct)
  case (1 n)
  then show ?case
    by (cases "n < 10") (auto simp: show_nat.simps [of n] is_digit_def code_digit)
qed

lemma is_digit_not_sign: "is_digit c \<Longrightarrow> c \<noteq> CHR ''+'' \<and> c \<noteq> CHR ''-''"
  by (auto simp: is_digit_def)

lemma parse_uint_show [simp]:
  assumes "n < 2 ^ w"
  shows "parse_uint w (show_nat n) = Some n"
proof -
  obtain vs where vs: "mapM_opt (to_digit 10) (map code (show_nat n)) = Some vs" "digits_value 10 vs = n"
    using show_nat_digits by blast
  obtain d ds where d: "show_nat n = d # ds" "is_digit d" using show_nat_hd by blast
  then have "code d \<noteq> 43" by (auto simp: is_digit_def)
  with vs d(1) assms show ?thesis by (simp add: parse_uint_def parse_radix_def Let_def)
qed

lemma parse_radix_bound: "parse_radix r w cs = Some v \<Longrightarrow> v < 2 ^ w"
  by (auto simp: parse_radix_def Let_def split: option.splits if_splits)

text \<open>The bound as an integer, which evaluates in binary.\<close>

lemma parse_radix_code [code]:
  "parse_radix radix w cs =
     (let ds = (case cs of [] \<Rightarrow> [] | c # rest \<Rightarrow> if c = 43 then rest else cs)
      in if ds = [] then None
         else (case mapM_opt (to_digit radix) ds of
                 None \<Rightarrow> None
               | Some vs \<Rightarrow> (let v = digits_value radix vs in if int v < 2 ^ w then Some v else None)))"
proof -
  have "(int v < 2 ^ w) = (v < 2 ^ w)" for v
    by (metis of_nat_less_iff of_nat_numeral of_nat_power)
  then show ?thesis by (simp only: parse_radix_def)
qed

end
