(* ===== verification/Floats.thy ===== *)
theory Floats
  imports Complex_Main Prelude
begin

text \<open>
  Rust's \<open>f32\<close> and \<open>f64\<close> for the arithmetic the panel does: a finite float is its exact
  rational value, and each operation is the exact operation followed by one rounding to the
  nearest representable number, ties to even, with gradual underflow (IEEE 754). Infinities and
  NaN have no value here; the definitions that could produce them write those cases out.
  The lemmas show that rounding is monotone and leaves representable numbers alone.
\<close>

type_synonym f32 = rat
type_synonym f64 = rat

section \<open>Rounding\<close>

fun flog2 :: "nat \<Rightarrow> nat" where
  "flog2 n = (if n < 2 then 0 else Suc (flog2 (n div 2)))"

declare flog2.simps [simp del]

text \<open>The exponent of the leading bit of a positive number.\<close>

definition ilog2 :: "rat \<Rightarrow> int" where
  "ilog2 x =
     (let (n, d) = quotient_of x; e = int (flog2 (nat n)) - int (flog2 (nat d))
      in if 2 powi e \<le> x then e else e - 1)"

definition round_half_even :: "rat \<Rightarrow> int" where
  "round_half_even x =
     (let f = \<lfloor>x\<rfloor>; r = x - of_int f
      in if r < 1 / 2 then f else if 1 / 2 < r then f + 1 else if even f then f else f + 1)"

text \<open>
  Rounding to \<open>p\<close> significant bits with the unit in the last place never below
  \<open>2 powi emin\<close>.
\<close>

definition rnd :: "nat \<Rightarrow> int \<Rightarrow> rat \<Rightarrow> rat" where
  "rnd p emin x =
     (if x = 0 then 0
      else let e = max (ilog2 \<bar>x\<bar> - (int p - 1)) emin
           in of_int (round_half_even (x / 2 powi e)) * 2 powi e)"

definition rnd32 :: "rat \<Rightarrow> f32" where
  "rnd32 x = rnd 24 (-149) x"

definition rnd64 :: "rat \<Rightarrow> f64" where
  "rnd64 x = rnd 53 (-1074) x"

text \<open>\<open>round()\<close> rounds halves away from zero; \<open>as u16\<close> truncates and saturates.\<close>

definition round_away :: "rat \<Rightarrow> int" where
  "round_away x = (if 0 \<le> x then \<lfloor>x + 1 / 2\<rfloor> else - \<lfloor>1 / 2 - x\<rfloor>)"

definition trunc :: "rat \<Rightarrow> int" where
  "trunc x = (if 0 \<le> x then \<lfloor>x\<rfloor> else - \<lfloor>- x\<rfloor>)"

definition as_u16 :: "rat \<Rightarrow> u16" where
  "as_u16 x = (if x \<le> 0 then 0 else if 65535 \<le> x then 65535 else word_of_int (trunc x))"

text \<open>\<open>f32::clamp(0.0, 1.0)\<close>.\<close>

definition clamp01 :: "f32 \<Rightarrow> f32" where
  "clamp01 x = (if x < 0 then 0 else if 1 < x then 1 else x)"

section \<open>The leading exponent\<close>

lemma flog2_bounds: "0 < n \<Longrightarrow> 2 ^ flog2 n \<le> n \<and> n < 2 ^ Suc (flog2 n)"
proof (induction n rule: flog2.induct)
  case (1 n)
  show ?case
  proof (cases "n < 2")
    case True
    with "1.prems" show ?thesis by (simp add: flog2.simps [of n])
  next
    case False
    then have "2 ^ flog2 (n div 2) \<le> n div 2 \<and> n div 2 < 2 ^ Suc (flog2 (n div 2))"
      by (intro "1.IH") auto
    with False show ?thesis by (auto simp: flog2.simps [of n])
  qed
qed

text \<open>The same on integers, for evaluation.\<close>

function flog2_int :: "int \<Rightarrow> int" where
  "flog2_int n = (if n < 2 then 0 else 1 + flog2_int (n div 2))"
  by auto
termination
  by (relation "measure nat") auto

declare flog2_int.simps [simp del]

lemma flog2_int_eq: "flog2_int n = int (flog2 (nat n))"
proof (induction n rule: flog2_int.induct)
  case (1 n)
  moreover have "nat n < 2 \<longleftrightarrow> n < 2" by auto
  ultimately show ?case
    by (simp add: flog2_int.simps [of n] flog2.simps [of "nat n"] nat_div_distrib)
qed

lemma ilog2_code [code]:
  "ilog2 x =
     (let (n, d) = quotient_of x; e = flog2_int n - flog2_int d
      in if 2 powi e \<le> x then e else e - 1)"
  by (simp add: ilog2_def flog2_int_eq)

lemma two_powi_pos [simp]: "0 < (2 :: rat) powi e"
  by (simp add: zero_less_power_int)

lemma two_powi_nonzero [simp]: "(2 :: rat) powi e \<noteq> 0"
  using two_powi_pos [of e] by linarith

lemma ilog2_bounds:
  assumes "0 < x"
  shows "2 powi ilog2 x \<le> x" and "x < 2 powi (ilog2 x + 1)"
proof -
  obtain n d where q: "quotient_of x = (n, d)" by (cases "quotient_of x")
  then have d: "0 < d" and x: "x = of_int n / of_int d"
    by (simp_all add: quotient_of_denom_pos quotient_of_div)
  with assms have n: "0 < n" by (simp add: zero_less_divide_iff)
  define a b where "a = flog2 (nat n)" and "b = flog2 (nat d)"
  have na: "(2::int) ^ a \<le> n" "n < 2 ^ Suc a"
    using flog2_bounds [of "nat n"] n unfolding a_def
    by (simp_all add: nat_le_iff le_nat_iff nat_less_iff) 
  have db: "(2::int) ^ b \<le> d" "d < 2 ^ Suc b"
    using flog2_bounds [of "nat d"] d unfolding b_def
    by (simp_all add: nat_le_iff le_nat_iff nat_less_iff)
  define e where "e = int a - int b"
  have e: "(2::rat) powi e = 2 ^ a / 2 ^ b"
    by (simp add: e_def power_int_diff)
  have up: "x < 2 powi (e + 1)"
  proof -
    have "(of_int n :: rat) < 2 ^ Suc a" using na(2) by (metis of_int_less_iff of_int_numeral of_int_power)
    moreover have "(2::rat) ^ b \<le> of_int d" using db(1) by (metis of_int_le_iff of_int_numeral of_int_power)
    ultimately have "of_int n / of_int d < (2::rat) ^ Suc a / 2 ^ b"
      using n d by (intro frac_less) auto
    then show ?thesis using e by (simp add: x power_int_add mult.commute)
  qed
  have low: "2 powi (e - 1) < x"
  proof -
    have "(2::rat) ^ a \<le> of_int n" using na(1) by (metis of_int_le_iff of_int_numeral of_int_power)
    moreover have "(of_int d :: rat) < 2 ^ Suc b" using db(2) by (metis of_int_less_iff of_int_numeral of_int_power)
    ultimately have "(2::rat) ^ a / 2 ^ Suc b < of_int n / of_int d"
      using n d by (intro frac_less2) auto
    then show ?thesis using e by (simp add: x power_int_diff)
  qed
  have ilog: "ilog2 x = (if 2 powi e \<le> x then e else e - 1)"
    by (simp add: ilog2_def q e_def a_def b_def)
  show "2 powi ilog2 x \<le> x" using low by (simp add: ilog)
  show "x < 2 powi (ilog2 x + 1)" using up by (auto simp: ilog)
qed

lemma two_powi_less_iff [simp]: "(2::rat) powi a < 2 powi b \<longleftrightarrow> a < b"
  by (meson less_le_not_le linorder_le_less_linear one_less_numeral_iff power_int_increasing
      power_int_strict_increasing semiring_norm(76) less_imp_le)

lemma two_powi_le_iff [simp]: "(2::rat) powi a \<le> 2 powi b \<longleftrightarrow> a \<le> b"
  by (metis linorder_not_less two_powi_less_iff)

lemma ilog2_mono:
  assumes "0 < x" and "x \<le> y"
  shows "ilog2 x \<le> ilog2 y"
proof -
  have "2 powi ilog2 x \<le> x" using assms ilog2_bounds by blast
  also have "x \<le> y" by fact
  also have "y < 2 powi (ilog2 y + 1)" using assms ilog2_bounds by force
  finally have "ilog2 x < ilog2 y + 1" by simp
  then show ?thesis by simp
qed

lemma ilog2_le: "0 < x \<Longrightarrow> x < 2 powi e \<Longrightarrow> ilog2 x < e"
  using ilog2_bounds(1) [of x] by (metis less_le_trans not_le order_le_less_trans two_powi_less_iff)

section \<open>Rounding to an integer\<close>

lemma round_half_even_of_int [simp]: "round_half_even (of_int n) = n"
  by (simp add: round_half_even_def)

lemma round_half_even_mono:
  assumes "x \<le> y"
  shows "round_half_even x \<le> round_half_even y"
proof (cases "\<lfloor>x\<rfloor> = \<lfloor>y\<rfloor>")
  case True
  with assms show ?thesis unfolding round_half_even_def Let_def by auto
next
  case False
  with assms have "\<lfloor>x\<rfloor> + 1 \<le> \<lfloor>y\<rfloor>" using floor_mono [of x y] by linarith
  moreover have "round_half_even x \<le> \<lfloor>x\<rfloor> + 1" and "\<lfloor>y\<rfloor> \<le> round_half_even y"
    unfolding round_half_even_def Let_def by auto
  ultimately show ?thesis by linarith
qed

lemma round_half_even_uminus: "round_half_even (- x) = - round_half_even x"
proof (cases "x = of_int \<lfloor>x\<rfloor>")
  case True
  then show ?thesis by (metis of_int_minus round_half_even_of_int)
next
  case False
  then have "\<lfloor>- x\<rfloor> = - \<lfloor>x\<rfloor> - 1" by linarith
  then show ?thesis unfolding round_half_even_def Let_def by auto
qed

section \<open>Rounding to a float\<close>

definition rnd_exp :: "nat \<Rightarrow> int \<Rightarrow> rat \<Rightarrow> int" where
  "rnd_exp p emin x = max (ilog2 \<bar>x\<bar> - (int p - 1)) emin"

lemma rnd_0 [simp]: "rnd p emin 0 = 0"
  by (simp add: rnd_def)

lemma rnd_nonzero:
  "x \<noteq> 0 \<Longrightarrow>
   rnd p emin x = of_int (round_half_even (x / 2 powi rnd_exp p emin x)) * 2 powi rnd_exp p emin x"
  by (simp add: rnd_def rnd_exp_def Let_def)

lemma rnd_uminus: "rnd p emin (- x) = - rnd p emin x"
  by (simp add: rnd_def Let_def round_half_even_uminus)

lemma of_int_two_power: "of_int (2 ^ n) = (2 :: rat) powi int n"
  by simp

lemma rnd_pos_bounds:
  assumes "0 < x" and "0 < p"
  shows "rnd p emin x \<le> 2 powi (int p + rnd_exp p emin x)"
    and "emin < rnd_exp p emin x \<Longrightarrow> 2 powi ilog2 x \<le> rnd p emin x"
proof -
  let ?e = "rnd_exp p emin x"
  have r: "rnd p emin x = of_int (round_half_even (x / 2 powi ?e)) * 2 powi ?e"
    using assms by (simp add: rnd_nonzero)
  have "x < 2 powi (ilog2 x + 1)" using assms(1) by (rule ilog2_bounds)
  also have "\<dots> \<le> 2 powi (int p + ?e)" using assms by (simp add: rnd_exp_def)
  finally have "x / 2 powi ?e \<le> of_int (2 ^ p)"
    by (simp add: power_int_add field_simps)
  then have "round_half_even (x / 2 powi ?e) \<le> 2 ^ p"
    using round_half_even_mono round_half_even_of_int by metis
  then have "(of_int (round_half_even (x / 2 powi ?e)) :: rat) \<le> of_int (2 ^ p)"
    by (simp only: of_int_le_iff)
  then show "rnd p emin x \<le> 2 powi (int p + ?e)"
    unfolding r by (simp add: power_int_add mult_right_mono)
  assume "emin < ?e"
  then have e: "?e = ilog2 x - (int p - 1)" using assms(1) by (auto simp: rnd_exp_def)
  have "2 powi ilog2 x \<le> x" using assms(1) by (rule ilog2_bounds)
  moreover have split: "(2::rat) powi ilog2 x = of_int (2 ^ (p - 1)) * 2 powi ?e"
    using assms(2) by (simp add: e of_nat_diff flip: power_int_add power_int_of_nat)
  ultimately have "of_int (2 ^ (p - 1)) \<le> x / 2 powi ?e" by (simp add: field_simps)
  then have "2 ^ (p - 1) \<le> round_half_even (x / 2 powi ?e)"
    using round_half_even_mono round_half_even_of_int by metis
  then have "(of_int (2 ^ (p - 1)) :: rat) \<le> of_int (round_half_even (x / 2 powi ?e))"
    by (simp only: of_int_le_iff)
  then show "2 powi ilog2 x \<le> rnd p emin x"
    unfolding r split by (rule mult_right_mono) (simp add: less_imp_le)
qed

lemma rnd_mono_pos:
  assumes "0 < x" and "x \<le> y" and "0 < p"
  shows "rnd p emin x \<le> rnd p emin y"
proof -
  have y: "0 < y" using assms by simp
  have le: "rnd_exp p emin x \<le> rnd_exp p emin y"
    using assms ilog2_mono [of x y] by (auto simp: rnd_exp_def)
  show ?thesis
  proof (cases "rnd_exp p emin x = rnd_exp p emin y")
    case True
    have "x / 2 powi rnd_exp p emin y \<le> y / 2 powi rnd_exp p emin y"
      using assms by (simp add: divide_right_mono less_imp_le)
    then show ?thesis
      using assms(1) y True by (simp add: rnd_nonzero round_half_even_mono)
  next
    case False
    with le have lt: "rnd_exp p emin x < rnd_exp p emin y" by simp
    then have big: "emin < rnd_exp p emin y" by (auto simp: rnd_exp_def)
    then have "int p + rnd_exp p emin x \<le> ilog2 y"
      using lt y by (auto simp: rnd_exp_def)
    then have "(2::rat) powi (int p + rnd_exp p emin x) \<le> 2 powi ilog2 y" by simp
    then show ?thesis
      using rnd_pos_bounds(1) [OF assms(1,3), of emin] rnd_pos_bounds(2) [OF y assms(3) big]
      by linarith
  qed
qed

lemma rnd_nonneg:
  assumes "0 \<le> x"
  shows "0 \<le> rnd p emin x"
proof (cases "x = 0")
  case False
  have "round_half_even 0 \<le> round_half_even (x / 2 powi rnd_exp p emin x)"
    using assms by (intro round_half_even_mono) simp
  then have "0 \<le> round_half_even (x / 2 powi rnd_exp p emin x)"
    using round_half_even_of_int [of 0] by simp
  then show ?thesis using False by (simp add: rnd_nonzero)
qed simp

lemma rnd_mono:
  assumes "x \<le> y" and "0 < p"
  shows "rnd p emin x \<le> rnd p emin y"
proof (cases "0 < x \<or> y < 0")
  case True
  then show ?thesis
  proof
    assume "0 < x"
    then show ?thesis using assms by (rule rnd_mono_pos)
  next
    assume "y < 0"
    then have "rnd p emin (- y) \<le> rnd p emin (- x)" using assms by (intro rnd_mono_pos) auto
    then show ?thesis by (simp add: rnd_uminus)
  qed
next
  case False
  then have "0 \<le> rnd p emin (- x)" and "0 \<le> rnd p emin y" by (auto intro: rnd_nonneg)
  then show ?thesis by (simp add: rnd_uminus)
qed

lemma rnd_exact:
  assumes x: "x = of_int m * 2 powi k" and m: "\<bar>m\<bar> < 2 ^ p" and k: "emin \<le> k"
  shows "rnd p emin x = x"
proof (cases "x = 0")
  case False
  have "\<bar>x\<bar> < 2 powi (int p + k)"
  proof -
    have "(of_int \<bar>m\<bar> :: rat) < of_int (2 ^ p)" using m by (simp only: of_int_less_iff)
    then have "of_int \<bar>m\<bar> * 2 powi k < (of_int (2 ^ p) :: rat) * 2 powi k"
      by (intro mult_strict_right_mono) auto
    then show ?thesis by (simp add: x abs_mult power_int_add)
  qed
  then have "ilog2 \<bar>x\<bar> < int p + k" using False by (intro ilog2_le) auto
  then have e: "rnd_exp p emin x \<le> k" using k by (auto simp: rnd_exp_def)
  then have "x / 2 powi rnd_exp p emin x = of_int (m * 2 ^ nat (k - rnd_exp p emin x))"
    by (simp add: x power_int_diff flip: power_int_of_nat)
  then have "of_int (round_half_even (x / 2 powi rnd_exp p emin x)) = x / 2 powi rnd_exp p emin x"
    by (simp only: round_half_even_of_int)
  then show ?thesis using False by (simp add: rnd_nonzero)
qed simp

lemma rnd32_mono: "x \<le> y \<Longrightarrow> rnd32 x \<le> rnd32 y"
  by (simp add: rnd32_def rnd_mono)

lemma rnd64_mono: "x \<le> y \<Longrightarrow> rnd64 x \<le> rnd64 y"
  by (simp add: rnd64_def rnd_mono)

lemma rnd32_of_int: "\<bar>m\<bar> < 2 ^ 24 \<Longrightarrow> rnd32 (of_int m) = of_int m"
  unfolding rnd32_def by (rule rnd_exact [where k = 0 and m = m]) auto

lemma rnd64_of_int: "\<bar>m\<bar> < 2 ^ 53 \<Longrightarrow> rnd64 (of_int m) = of_int m"
  unfolding rnd64_def by (rule rnd_exact [where k = 0 and m = m]) auto

section \<open>Conversions to integers\<close>

lemma trunc_mono:
  assumes "x \<le> y"
  shows "trunc x \<le> trunc y"
proof -
  have "- \<lfloor>- x\<rfloor> \<le> - \<lfloor>- y\<rfloor>" and "\<lfloor>x\<rfloor> \<le> \<lfloor>y\<rfloor>" using assms by (simp_all add: floor_mono)
  moreover have "- \<lfloor>- x\<rfloor> \<le> \<lfloor>y\<rfloor>" if "x < 0" and "0 \<le> y"
  proof -
    have "0 \<le> \<lfloor>- x\<rfloor>" and "0 \<le> \<lfloor>y\<rfloor>" using that by simp_all
    then show ?thesis by linarith
  qed
  ultimately show ?thesis using assms by (auto simp: trunc_def)
qed

lemma trunc_of_int [simp]: "trunc (of_int n) = n"
  by (auto simp: trunc_def simp flip: of_int_minus)

lemma round_away_mono: "x \<le> y \<Longrightarrow> round_away x \<le> round_away y"
  unfolding round_away_def by (auto intro: floor_mono) linarith+

lemma round_away_of_int [simp]: "round_away (of_int n) = n"
  by (auto simp: round_away_def) linarith+

lemma unat_as_u16: "unat (as_u16 x) = (if x \<le> 0 then 0 else if 65535 \<le> x then 65535 else nat \<lfloor>x\<rfloor>)"
proof (cases "x \<le> 0 \<or> 65535 \<le> x")
  case False
  then have "0 \<le> \<lfloor>x\<rfloor>" and "\<lfloor>x\<rfloor> < 65535" by (auto simp: floor_less_iff)
  then have "uint (word_of_int \<lfloor>x\<rfloor> :: u16) = \<lfloor>x\<rfloor>" by (simp add: uint_word_of_int)
  with False show ?thesis by (simp add: as_u16_def trunc_def unat_eq_nat_uint)
qed (auto simp: as_u16_def)

lemma unat_as_u16_mono: "x \<le> y \<Longrightarrow> unat (as_u16 x) \<le> unat (as_u16 y)"
  unfolding unat_as_u16 using floor_mono [of x y] by (auto simp: nat_le_iff floor_le_iff)

lemma clamp01_bounds: "0 \<le> clamp01 x" "clamp01 x \<le> 1"
  by (auto simp: clamp01_def)

lemma clamp01_mono: "x \<le> y \<Longrightarrow> clamp01 x \<le> clamp01 y"
  by (auto simp: clamp01_def)

end
