(* ===== verification/MisoFrame.thy ===== *)
theory MisoFrame
  imports Crc Floats PanelData "HOL-Library.Monad_Syntax"
begin

text \<open>
  The control frame of \<open>crates/cdj3k-emu-panel/src/miso_frame.rs\<close>: the panel state, raw frame
  bits, the pieces the three encoders share, and the contract of the \<open>MisoCodec\<close> trait as the
  locale \<open>miso_codec\<close>. A frame is a byte list of length 64. A frame bit can name a byte outside
  the frame, where Rust panics: the operations that index by a frame bit return \<open>None\<close> there.
  The fixed offsets the encoders write at lie inside the frame, so those writes are total.
\<close>

section \<open>The panel state\<close>

definition MISO_SIZE :: nat where
  "MISO_SIZE = 64"

definition ROTARY_IDLE :: u16 where
  "ROTARY_IDLE = 0xFFFF"

definition FIELD_DIRECTION :: nat where "FIELD_DIRECTION = 4"
definition FIELD_ROTARY :: nat where "FIELD_ROTARY = 14"
definition FIELD_TOUCH :: nat where "FIELD_TOUCH = 16"
definition FIELD_TEMPO :: nat where "FIELD_TEMPO = 22"
definition FIELD_VINYL :: nat where "FIELD_VINYL = 24"
definition FIELD_JOG :: nat where "FIELD_JOG = 26"

lemmas field_defs = MISO_SIZE_def FIELD_DIRECTION_def FIELD_ROTARY_def FIELD_TOUCH_def
  FIELD_TEMPO_def FIELD_VINYL_def FIELD_JOG_def

record jog_state =
  jog_pos :: u16
  jog_vel :: u16
  jog_touch :: u8
  jog_revs :: f64
  jog_rps :: f32
  jog_touched :: bool

record panel_state =
  ps_pressed :: "frame_bit list"
  ps_cleared :: "frame_bit list"
  ps_tempo :: f32
  ps_jog :: jog_state
  ps_rotary :: u16
  ps_beat_loop :: u16
  ps_direction :: direction
  ps_vinyl :: u8
  ps_touch :: "(u16 \<times> u16) option"
  ps_power :: bool

definition at_rest :: panel_state where
  "at_rest =
     \<lparr>ps_pressed = [], ps_cleared = [], ps_tempo = 1 / 2,
      ps_jog = \<lparr>jog_pos = 0, jog_vel = 0xFFFF, jog_touch = 0, jog_revs = 0, jog_rps = 0,
                jog_touched = False\<rparr>,
      ps_rotary = ROTARY_IDLE, ps_beat_loop = 0, ps_direction = Forward, ps_vinyl = 0,
      ps_touch = None, ps_power = True\<rparr>"

section \<open>Raw frame bits\<close>

definition parse_raw :: "string \<Rightarrow> nat option" where
  "parse_raw s =
     (case strip_prefix ''0x'' s of
        Some h \<Rightarrow> parse_radix 16 64 (map code h)
      | None \<Rightarrow> parse_uint 64 s)"

definition raw_bit :: "string \<Rightarrow> frame_bit option" where
  "raw_bit name =
     do {
       (byte, msk) \<leftarrow> split_once (\<lambda>c. c = CHR '':'') name;
       byte \<leftarrow> parse_raw byte;
       msk \<leftarrow> parse_raw msk;
       if msk < 256 then
         if byte < MISO_SIZE - 2 then Some (byte, of_nat msk) else None
       else None
     }"

section \<open>Pieces the encoders share\<close>

definition from_idle :: "bytes \<Rightarrow> bytes" where
  "from_idle idle = put_at 0 idle (replicate MISO_SIZE 0)"

definition set_bit :: "frame_bit \<Rightarrow> bool \<Rightarrow> bytes \<Rightarrow> bytes option" where
  "set_bit fb on f =
     (case fb of (byte, msk) \<Rightarrow>
        if byte < length f
        then Some (f[byte := (if on then f ! byte OR msk else f ! byte AND NOT msk)])
        else None)"

definition press :: "panel_state \<Rightarrow> bytes \<Rightarrow> bytes option" where
  "press st f = foldM (\<lambda>b f. set_bit b True f) (ps_pressed st) f"

definition clear :: "panel_state \<Rightarrow> bytes \<Rightarrow> bytes option" where
  "clear st f = foldM (\<lambda>b f. set_bit b False f) (ps_cleared st) f"

definition put_le :: "nat \<Rightarrow> u16 \<Rightarrow> bytes \<Rightarrow> bytes" where
  "put_le ofs v f = put_at ofs (to_le 2 v) f"

definition put_be :: "nat \<Rightarrow> u16 \<Rightarrow> bytes \<Rightarrow> bytes" where
  "put_be ofs v f = put_at ofs (to_be 2 v) f"

definition stamp_crc :: "nat \<Rightarrow> bool \<Rightarrow> bytes \<Rightarrow> bytes" where
  "stamp_crc ofs big_endian f =
     (let crc = crc16_x25 (take ofs f)
      in if big_endian then put_be ofs crc f else put_le ofs crc f)"

section \<open>Vocabulary of the contract\<close>

text \<open>Every frame bit a state presses or clears names a byte of the frame.\<close>

definition in_frame :: "panel_state \<Rightarrow> bool" where
  "in_frame st = (\<forall>(i, m) \<in> set (ps_pressed st) \<union> set (ps_cleared st). i < MISO_SIZE)"

text \<open>The mask a list of frame bits has at one byte.\<close>

primrec mask_at :: "frame_bit list \<Rightarrow> nat \<Rightarrow> u8" where
  "mask_at [] i = 0"
| "mask_at (b # bs) i = (if fst b = i then snd b OR mask_at bs i else mask_at bs i)"

text \<open>The word a receiver reads at an offset.\<close>

definition word_at :: "bool \<Rightarrow> nat \<Rightarrow> bytes \<Rightarrow> u16" where
  "word_at big_endian ofs f =
     (if big_endian then from_be (slice_of ofs 2 f) else from_le (slice_of ofs 2 f))"

text \<open>The deck's acceptance test: the stored checksum is that of the bytes before it.\<close>

definition crc_ok :: "nat \<Rightarrow> bool \<Rightarrow> bytes \<Rightarrow> bool" where
  "crc_ok ofs big_endian f = (word_at big_endian ofs f = crc16_x25 (take ofs f))"

section \<open>Lemmas on the shared pieces\<close>

lemma length_from_idle [simp]: "length idle = 62 \<Longrightarrow> length (from_idle idle) = 64"
  by (simp add: from_idle_def MISO_SIZE_def)

lemma nth_from_idle [simp]: "length idle = 62 \<Longrightarrow> i < 62 \<Longrightarrow> from_idle idle ! i = idle ! i"
  by (simp add: from_idle_def MISO_SIZE_def nth_put_at)

lemma length_put_le [simp]: "ofs + 2 \<le> length f \<Longrightarrow> length (put_le ofs v f) = length f"
  by (simp add: put_le_def)

lemma length_put_be [simp]: "ofs + 2 \<le> length f \<Longrightarrow> length (put_be ofs v f) = length f"
  by (simp add: put_be_def)

lemma nth_put_le [simp]:
  "\<lbrakk>ofs + 2 \<le> length f; k < length f; k < ofs \<or> ofs + 2 \<le> k\<rbrakk> \<Longrightarrow> put_le ofs v f ! k = f ! k"
  by (auto simp: put_le_def)

lemma nth_put_be [simp]:
  "\<lbrakk>ofs + 2 \<le> length f; k < length f; k < ofs \<or> ofs + 2 \<le> k\<rbrakk> \<Longrightarrow> put_be ofs v f ! k = f ! k"
  by (auto simp: put_be_def)

lemma length_stamp_crc [simp]: "ofs + 2 \<le> length f \<Longrightarrow> length (stamp_crc ofs be f) = length f"
  by (simp add: stamp_crc_def Let_def)

lemma nth_stamp_crc [simp]:
  "\<lbrakk>ofs + 2 \<le> length f; k < length f; k < ofs \<or> ofs + 2 \<le> k\<rbrakk> \<Longrightarrow> stamp_crc ofs be f ! k = f ! k"
  by (simp add: stamp_crc_def Let_def)

lemma stamp_crc_ok: "ofs + 2 \<le> length f \<Longrightarrow> crc_ok ofs be (stamp_crc ofs be f)"
  by (simp add: crc_ok_def stamp_crc_def Let_def word_at_def put_le_def put_be_def)

lemma set_bit_Some:
  "set_bit (i, m) on f = Some g \<longleftrightarrow>
     i < length f \<and> g = f[i := (if on then f ! i OR m else f ! i AND NOT m)]"
  by (auto simp: set_bit_def)

lemma foldM_set_bit:
  assumes "foldM (\<lambda>b f. set_bit b on f) bs f = Some g"
  shows "length g = length f \<and>
    (\<forall>i < length f. g ! i = (if on then f ! i OR mask_at bs i else f ! i AND NOT (mask_at bs i)))"
  using assms
proof (induction bs arbitrary: f)
  case (Cons b bs)
  obtain i m where b: "b = (i, m)" by (cases b)
  from Cons.prems obtain h where h: "set_bit b on f = Some h"
    "foldM (\<lambda>b f. set_bit b on f) bs h = Some g"
    by (auto simp: bind_eq_Some_conv)
  then have "i < length f" "h = f[i := (if on then f ! i OR m else f ! i AND NOT m)]"
    by (simp_all add: b set_bit_Some)
  with Cons.IH [OF h(2)] show ?case
    by (auto simp: b nth_list_update or.assoc and.assoc)
qed simp

lemma foldM_set_bit_total:
  assumes "\<forall>(i, m) \<in> set bs. i < length f"
  shows "\<exists>g. foldM (\<lambda>b f. set_bit b on f) bs f = Some g"
proof -
  have "\<exists>g. foldM (\<lambda>b f. set_bit b on f) bs f = Some g \<and> length g = length f"
    by (rule foldM_total [where P = "\<lambda>g. length g = length f"])
      (use assms in \<open>auto simp: set_bit_def\<close>)
  then show ?thesis by blast
qed

lemma press_nth:
  "press st f = Some g \<Longrightarrow>
   length g = length f \<and> (\<forall>i < length f. g ! i = f ! i OR mask_at (ps_pressed st) i)"
  unfolding press_def by (drule foldM_set_bit) simp

lemma clear_nth:
  "clear st f = Some g \<Longrightarrow>
   length g = length f \<and> (\<forall>i < length f. g ! i = f ! i AND NOT (mask_at (ps_cleared st) i))"
  unfolding clear_def by (drule foldM_set_bit) simp

lemma press_total: "in_frame st \<Longrightarrow> length f = 64 \<Longrightarrow> \<exists>g. press st f = Some g"
  unfolding press_def in_frame_def MISO_SIZE_def by (rule foldM_set_bit_total) auto

lemma clear_total: "in_frame st \<Longrightarrow> length f = 64 \<Longrightarrow> \<exists>g. clear st f = Some g"
  unfolding clear_def in_frame_def MISO_SIZE_def by (rule foldM_set_bit_total) auto

lemma mask_at_append: "mask_at (xs @ ys) i = mask_at xs i OR mask_at ys i"
  by (induction xs) (auto simp: or.assoc)

lemma mask_at_member: "(i, m) \<in> set bs \<Longrightarrow> mask_at bs i AND m = m"
proof (induction bs)
  case (Cons b bs)
  show ?case
  proof (cases "b = (i, m)")
    case True
    then show ?thesis by (intro bit_word_eqI) (auto simp: bit_simps)
  next
    case False
    with Cons have ih: "mask_at bs i AND m = m" by auto
    show ?thesis
    proof (rule bit_word_eqI)
      fix n
      have "bit m n \<Longrightarrow> bit (mask_at bs i) n" by (metis ih bit_and_iff)
      then show "bit (mask_at (b # bs) i AND m) n = bit m n" by (auto simp: bit_simps)
    qed
  qed
qed simp

lemma mask_at_disjoint: "\<forall>(j, k) \<in> set bs. j = i \<longrightarrow> k AND m = 0 \<Longrightarrow> mask_at bs i AND m = 0"
proof (induction bs)
  case (Cons b bs)
  then have "mask_at bs i AND m = 0" and "fst b = i \<Longrightarrow> snd b AND m = 0" by auto
  then show ?case by (auto simp: and.commute [of _ m] bit.conj_disj_distrib)
qed simp

lemma and_not_absorb: "c AND m = m \<Longrightarrow> (a AND NOT c) AND m = (0 :: 'a::len word)"
proof (rule bit_word_eqI)
  fix n
  assume "c AND m = m"
  then have "bit m n \<Longrightarrow> bit c n" by (metis bit_and_iff)
  then show "bit ((a AND NOT c) AND m) n = bit 0 n" by (auto simp: bit_simps)
qed

lemma or_and_not_keep:
  assumes "p AND m = m" and "c AND m = 0"
  shows "((a OR p) AND NOT c) AND m = (m :: 'a::len word)"
proof (rule bit_word_eqI)
  fix n
  have "bit (p AND m) n = bit m n" and "bit (c AND m) n = bit (0 :: 'a word) n"
    using assms by simp_all
  then show "bit (((a OR p) AND NOT c) AND m) n = bit m n"
    by (auto simp: bit_simps dest: bit_imp_le_length)
qed

lemma and_not_zero: "a AND m = 0 \<Longrightarrow> (a AND NOT c) AND m = (0 :: 'a::len word)"
proof (rule bit_word_eqI)
  fix n
  assume "a AND m = 0"
  then have "bit (a AND m) n = bit (0 :: 'a word) n" by simp
  then show "bit ((a AND NOT c) AND m) n = bit 0 n" by (auto simp: bit_simps)
qed

section \<open>Raw bits name the frame\<close>

lemma raw_bit_in_frame: "raw_bit s = Some (i, m) \<Longrightarrow> i < 62"
  by (auto simp: raw_bit_def MISO_SIZE_def split: bind_splits if_splits)

section \<open>The contract of an encoder\<close>

text \<open>
  What \<open>MisoCodec\<close> promises its clients. \<open>key_bytes\<close> are the bytes that carry switches only,
  \<open>idle\<close> the payload at rest and \<open>off_bits\<close> the bits a power-off clears. The law \<open>encode_key\<close>
  fixes every switch byte: idle bits and pressed bits set, then cleared and power bits low.
\<close>

locale miso_codec =
  fixes button :: "btn \<Rightarrow> frame_bit option"
    and encode :: "panel_state \<Rightarrow> bytes option"
    and idle :: bytes
    and off_bits :: "frame_bit list"
    and key_bytes :: "nat list"
    and crc_at :: nat
    and big_endian :: bool
  assumes crc_fits: "crc_at + 2 \<le> 64"
    and key_covered: "i \<in> set key_bytes \<Longrightarrow> i < crc_at"
    and button_key: "button b = Some (i, m) \<Longrightarrow> i \<in> set key_bytes"
    and button_mask: "button b = Some (i, m) \<Longrightarrow> m \<noteq> 0"
    and button_disjoint:
      "\<lbrakk>button b = Some (i, m); button c = Some (i, n); b \<noteq> c\<rbrakk> \<Longrightarrow> m AND n = 0"
    and encode_total: "in_frame st \<Longrightarrow> \<exists>f. encode st = Some f"
    and encode_length: "encode st = Some f \<Longrightarrow> length f = 64"
    and encode_crc: "encode st = Some f \<Longrightarrow> crc_ok crc_at big_endian f"
    and encode_key: "\<lbrakk>encode st = Some f; i \<in> set key_bytes\<rbrakk> \<Longrightarrow>
      f ! i = (idle ! i OR mask_at (ps_pressed st) i)
                AND NOT (mask_at (ps_cleared st @ (if ps_power st then [] else off_bits)) i)"
begin

lemma button_in_frame: "button b = Some (i, m) \<Longrightarrow> i < 64"
  using button_key key_covered crc_fits by fastforce

lemma cleared_wins:
  assumes "encode st = Some f" and "(i, m) \<in> set (ps_cleared st)" and "i \<in> set key_bytes"
  shows "f ! i AND m = 0"
proof -
  have "mask_at (ps_cleared st @ (if ps_power st then [] else off_bits)) i AND m = m"
    using assms(2) by (intro mask_at_member) auto
  then show ?thesis
    unfolding encode_key [OF assms(1,3)] by (rule and_not_absorb)
qed

lemma held_shows:
  assumes "encode st = Some f" and "button b = Some (i, m)" and "(i, m) \<in> set (ps_pressed st)"
    and "\<forall>(j, k) \<in> set (ps_cleared st @ (if ps_power st then [] else off_bits)). j = i \<longrightarrow> k AND m = 0"
  shows "f ! i AND m = m"
proof -
  have "mask_at (ps_pressed st) i AND m = m" using assms(3) by (rule mask_at_member)
  moreover have "mask_at (ps_cleared st @ (if ps_power st then [] else off_bits)) i AND m = 0"
    using assms(4) by (rule mask_at_disjoint)
  ultimately show ?thesis
    unfolding encode_key [OF assms(1) button_key [OF assms(2)]] by (rule or_and_not_keep)
qed

lemma free_hidden:
  assumes "encode st = Some f" and "button b = Some (i, m)" and "idle ! i AND m = 0"
    and "\<forall>fb \<in> set (ps_pressed st). \<exists>c. c \<noteq> b \<and> button c = Some fb"
  shows "f ! i AND m = 0"
proof -
  have "mask_at (ps_pressed st) i AND m = 0"
    using assms(2,4) button_disjoint by (intro mask_at_disjoint) fastforce
  then have "(idle ! i OR mask_at (ps_pressed st) i) AND m = 0"
    using assms(3) by (simp add: and.commute [of _ m] bit.conj_disj_distrib)
  then show ?thesis
    unfolding encode_key [OF assms(1) button_key [OF assms(2)]] by (rule and_not_zero)
qed

text \<open>Whoever reads the frame recovers exactly the buttons that were held.\<close>

lemma held_iff:
  assumes "encode st = Some f" and "ps_pressed st = List.map_filter button bs"
    and "ps_cleared st = []" and "ps_power st" and "button b = Some (i, m)" and "idle ! i AND m = 0"
  shows "f ! i AND m = m \<longleftrightarrow> b \<in> set bs"
proof
  assume "b \<in> set bs"
  then have "(i, m) \<in> set (ps_pressed st)"
    using assms(2,5) by (force simp: List.map_filter_def)
  then show "f ! i AND m = m" using held_shows [OF assms(1,5)] assms(3,4) by simp
next
  assume eq: "f ! i AND m = m"
  show "b \<in> set bs"
  proof (rule ccontr)
    assume "b \<notin> set bs"
    then have "\<forall>fb \<in> set (ps_pressed st). \<exists>c. c \<noteq> b \<and> button c = Some fb"
      using assms(2) by (auto simp: List.map_filter_def)
    then have "f ! i AND m = 0" by (rule free_hidden [OF assms(1,5,6)])
    with eq button_mask [OF assms(5)] show False by simp
  qed
qed

text \<open>A change confined to two neighbouring bytes under the checksum is rejected.\<close>

lemma burst_rejected:
  assumes "encode st = Some f" and "Suc k < crc_at" and "(x, y) \<noteq> (f ! k, f ! Suc k)"
  shows "\<not> crc_ok crc_at big_endian (f[k := x, Suc k := y])"
proof
  assume ok: "crc_ok crc_at big_endian (f[k := x, Suc k := y])"
  have len: "length f = 64" using assms(1) by (rule encode_length)
  have "slice_of crc_at 2 (f[k := x, Suc k := y]) = slice_of crc_at 2 f"
    by (rule slice_of_cong) (use crc_fits assms(2) len in auto)
  then have "crc16_x25 (take crc_at (f[k := x, Suc k := y])) = crc16_x25 (take crc_at f)"
    using ok encode_crc [OF assms(1)] by (simp add: crc_ok_def word_at_def split: if_splits)
  then have "x = take crc_at f ! k \<and> y = take crc_at f ! Suc k"
    using assms(2) len crc_fits
    by (intro crc16_x25_update) (auto simp: take_update_swap)
  with assms(2,3) show False by simp
qed

end

end
