(* ===== verification/MosiFrame.thy ===== *)
theory MosiFrame
  imports PanelData
begin

text \<open>
  The lamp frame of \<open>crates/cdj3k-emu-panel/src/mosi_frame.rs\<close>: LED steps, lamp states and
  their drive, the frame read through a codec, and the contract of the \<open>MosiCodec\<close> trait as the
  locale \<open>mosi_codec\<close>. The colour pipeline (\<open>led_linear\<close> and the functions above it) rests on
  \<open>powf\<close> and is not modelled.
\<close>

section \<open>Steps and lamp states\<close>

definition MOSI_SIZE :: nat where
  "MOSI_SIZE = 64"

datatype step_led = SL_Off | SL_Medium | SL_Full

definition from_level :: "u8 \<Rightarrow> step_led" where
  "from_level level = (if level = 0 then SL_Off else if level = 1 then SL_Medium else SL_Full)"

primrec level_of :: "step_led \<Rightarrow> u8" where
  "level_of SL_Off = 0"
| "level_of SL_Medium = 1"
| "level_of SL_Full = 2"

datatype lamp_state =
    LS_Bit bool
  | LS_Step step_led
  | LS_Level u8
  | LS_Rgb u8 u8 u8

definition MEDIUM_DRIVE :: u8 where
  "MEDIUM_DRIVE = 0x80"

fun drive :: "lamp_state \<Rightarrow> u8" where
  "drive (LS_Bit on) = (if on then 0xFF else 0)"
| "drive (LS_Step SL_Off) = 0"
| "drive (LS_Step SL_Medium) = MEDIUM_DRIVE"
| "drive (LS_Step SL_Full) = 0xFF"
| "drive (LS_Level v) = (if v = 0 then 0 else 0xFF)"
| "drive (LS_Rgb r g b) = max (max r g) b"

section \<open>A frame read through a codec\<close>

type_synonym lamp_codec = "bytes \<Rightarrow> lamp \<Rightarrow> lamp_state option"

record mosi_frame =
  mf_bytes :: bytes
  mf_codec :: lamp_codec

definition frame_lamp :: "mosi_frame \<Rightarrow> lamp \<Rightarrow> lamp_state option" where
  "frame_lamp mf l = mf_codec mf (mf_bytes mf) l"

definition frame_drive :: "mosi_frame \<Rightarrow> lamp \<Rightarrow> u8" where
  "frame_drive mf l = (case frame_lamp mf l of None \<Rightarrow> 0 | Some s \<Rightarrow> drive s)"

definition frame_lit :: "mosi_frame \<Rightarrow> lamp \<Rightarrow> bool" where
  "frame_lit mf l = (frame_drive mf l > 0)"

definition frame_step :: "mosi_frame \<Rightarrow> lamp \<Rightarrow> step_led" where
  "frame_step mf l =
     (case frame_lamp mf l of
        Some (LS_Step s) \<Rightarrow> s
      | Some state \<Rightarrow> if drive state > 0 then SL_Full else SL_Off
      | None \<Rightarrow> SL_Off)"

definition frame_rgb :: "mosi_frame \<Rightarrow> lamp \<Rightarrow> (u8 \<times> u8 \<times> u8) option" where
  "frame_rgb mf l =
     (case frame_lamp mf l of Some (LS_Rgb r g b) \<Rightarrow> Some (r, g, b) | _ \<Rightarrow> None)"

section \<open>Lemmas\<close>

lemma from_level_level [simp]: "from_level (level_of s) = s"
  by (cases s) (simp_all add: from_level_def)

lemma drive_step_zero: "drive (LS_Step s) = 0 \<longleftrightarrow> s = SL_Off"
  by (cases s) (simp_all add: MEDIUM_DRIVE_def)

lemma max_word_zero: "max a b = 0 \<longleftrightarrow> a = 0 \<and> b = (0 :: 'a::len word)"
  by (auto simp: max_def)

lemma lit_iff_step: "frame_lit mf l \<longleftrightarrow> frame_step mf l \<noteq> SL_Off"
proof (cases "frame_lamp mf l")
  case (Some s)
  then show ?thesis
    by (cases s) (auto simp: frame_lit_def frame_drive_def frame_step_def word_neq_0_conv
        [symmetric] drive_step_zero)
qed (simp add: frame_lit_def frame_drive_def frame_step_def)

section \<open>The contract of a lamp codec\<close>

text \<open>
  A codec reads each lamp from a footprint of frame bits of its own: the bits are in the frame,
  no two lamps share one, and nothing else in the frame matters to the lamp.
\<close>

locale mosi_codec =
  fixes lamp_at :: lamp_codec
    and footprint :: "lamp \<Rightarrow> frame_bit list"
  assumes footprint_in_frame: "(i, m) \<in> set (footprint l) \<Longrightarrow> i < MOSI_SIZE"
    and footprint_disjoint:
      "\<lbrakk>k \<noteq> l; (i, m) \<in> set (footprint k); (i, n) \<in> set (footprint l)\<rbrakk> \<Longrightarrow> m AND n = 0"
    and present: "lamp_at f l = None \<longleftrightarrow> footprint l = []"
    and reads_only: "(\<And>i m. (i, m) \<in> set (footprint l) \<Longrightarrow> f ! i AND m = g ! i AND m)
      \<Longrightarrow> lamp_at f l = lamp_at g l"
    and dark: "\<lbrakk>lamp_at f l = Some s; \<And>i m. (i, m) \<in> set (footprint l) \<Longrightarrow> f ! i AND m = 0\<rbrakk>
      \<Longrightarrow> drive s = 0"
begin

lemma unlit_when_dark:
  assumes "\<And>i m. (i, m) \<in> set (footprint l) \<Longrightarrow> f ! i AND m = 0"
  shows "\<not> frame_lit \<lparr>mf_bytes = f, mf_codec = lamp_at\<rparr> l"
proof (cases "lamp_at f l")
  case (Some s)
  then have "drive s = 0" using assms by (rule dark)
  then show ?thesis using Some by (simp add: frame_lit_def frame_drive_def frame_lamp_def)
qed (simp add: frame_lit_def frame_drive_def frame_lamp_def)

text \<open>Rewriting one lamp's bits changes no other lamp.\<close>

lemma other_lamps_kept:
  assumes "length f = MOSI_SIZE" and "(i, m) \<in> set (footprint k)" and "k \<noteq> l"
  shows "lamp_at (f[i := (f ! i AND NOT m) OR (v AND m)]) l = lamp_at f l"
proof (rule reads_only)
  fix j n assume jn: "(j, n) \<in> set (footprint l)"
  show "f[i := (f ! i AND NOT m) OR (v AND m)] ! j AND n = f ! j AND n"
  proof (cases "j = i")
    case True
    have len: "i < length f" using footprint_in_frame [OF assms(2)] assms(1) by simp
    have mn: "m AND n = 0" using footprint_disjoint [OF assms(3) assms(2)] jn True by simp
    have "((f ! i AND NOT m) OR (v AND m)) AND n = f ! i AND n"
    proof (rule bit_word_eqI)
      fix b
      have "bit (m AND n) b = bit (0 :: u8) b" using mn by simp
      then show "bit (((f ! i AND NOT m) OR (v AND m)) AND n) b = bit (f ! i AND n) b"
        by (auto simp: bit_simps dest: bit_imp_le_length)
    qed
    then show ?thesis using True len by simp
  qed simp
qed

end

end
