(* ===== verification/Cdj3k.thy ===== *)
theory Cdj3k
  imports MisoFrame MosiFrame
begin

text \<open>
  The CDJ-3000 of \<open>crates/cdj3k-emu-panel/src/cdj3k.rs\<close>: its idle frame, tempo curve, analog
  fields and MISO encoder, and the family's lamp codec with the CDJ-3000's lamp map. The
  encoder implements \<open>miso_codec\<close> and the lamp codec implements \<open>mosi_codec\<close>. The lemmas on
  \<open>write_fields\<close> and on lamp maps are generic in the shift and in the map, because the
  CDJ-3000X uses both.
\<close>

section \<open>The MISO encoder\<close>

definition IDLE_3k :: bytes where
  "IDLE_3k = (replicate 62 0)[
      2 := 0x01, 3 := 0x04, 4 := 0x03, 12 := 0x81, FIELD_ROTARY := to_le 2 ROTARY_IDLE ! 0,
      FIELD_ROTARY + 1 := to_le 2 ROTARY_IDLE ! 1, 21 := 0x7f, FIELD_JOG := 0xff,
      FIELD_JOG + 1 := 0xff, FIELD_JOG + 2 := 0xff, FIELD_JOG + 3 := 0xff,
      FIELD_JOG + 4 := 0x04, 32 := 0x51, 33 := 0x01, 34 := 0xd5, 35 := 0xd6, 36 := 0xd6,
      37 := 0xd5, 38 := 0xd5, 39 := 0xd6, 40 := 0xd6, 41 := 0xd5, 42 := 0xd5, 43 := 0xd6]"

definition TEMPO_CENTER :: u16 where
  "TEMPO_CENTER = 0x7F50"

definition SPAN :: f32 where
  "SPAN = 0xFFFF"

definition mid_bias :: f32 where
  "mid_bias = rnd32 (of_int (uint TEMPO_CENTER) - rnd32 (SPAN * (1 / 2)))"

definition tempo_raw :: "f32 \<Rightarrow> u16" where
  "tempo_raw travel =
     (let off_centre = \<bar>rnd32 (travel - 1 / 2)\<bar>;
          bias = rnd32 (mid_bias * rnd32 (1 - rnd32 (2 * off_centre)))
      in as_u16 (of_int (round_away (rnd32 (rnd32 (travel * SPAN) + bias)))))"

definition write_fields :: "panel_state \<Rightarrow> nat \<Rightarrow> bytes \<Rightarrow> bytes" where
  "write_fields st shift f =
     (let f = f[FIELD_DIRECTION + shift := direction_as_byte (ps_direction st)];
          j = FIELD_JOG + shift;
          f = put_le j (jog_pos (ps_jog st)) f;
          f = put_le (j + 2) (jog_vel (ps_jog st)) f;
          f = f[j + 4 := jog_touch (ps_jog st)];
          f = put_le (FIELD_ROTARY + shift) (ps_rotary st) f;
          f = put_le (FIELD_TEMPO + shift) (tempo_raw (ps_tempo st)) f;
          f = f[FIELD_VINYL + shift := ps_vinyl st]
      in case ps_touch st of
           Some (x, y) \<Rightarrow> put_le (FIELD_TOUCH + shift + 2) y (put_le (FIELD_TOUCH + shift) x f)
         | None \<Rightarrow> f)"

definition button_3k :: "btn \<Rightarrow> frame_bit option" where
  "button_3k b = (if is_shared b then btn_bit b else None)"

definition encode_3k :: "panel_state \<Rightarrow> bytes option" where
  "encode_3k st =
     do {
       f \<leftarrow> press st (from_idle IDLE_3k);
       f \<leftarrow> clear st (write_fields st 0 f);
       f \<leftarrow> (if \<not> ps_power st then set_bit POWER_ON False f else Some f);
       Some (stamp_crc 62 False f)
     }"

section \<open>The lamp codec\<close>

definition LED_KEY_SYNC :: frame_bit where "LED_KEY_SYNC = (2, 0x03)"
definition LED_BEAT_SYNC :: frame_bit where "LED_BEAT_SYNC = (2, 0x08)"
definition LED_MASTER :: frame_bit where "LED_MASTER = (2, 0x20)"
definition LED_JOG_WHITE :: frame_bit where "LED_JOG_WHITE = (3, 0x0c)"
definition LED_JOG_RED :: frame_bit where "LED_JOG_RED = (3, 0x03)"
definition LED_PLAY :: frame_bit where "LED_PLAY = (7, 0x01)"
definition LED_CUE :: frame_bit where "LED_CUE = (7, 0x02)"
definition LED_LOOP_IN :: frame_bit where "LED_LOOP_IN = (7, 0x08)"
definition LED_LOOP_OUT :: frame_bit where "LED_LOOP_OUT = (7, 0x10)"
definition LED_RELOOP :: frame_bit where "LED_RELOOP = (7, 0x20)"
definition LED_BEAT_JUMP_4 :: frame_bit where "LED_BEAT_JUMP_4 = (7, 0x40)"
definition LED_BEAT_JUMP_8 :: frame_bit where "LED_BEAT_JUMP_8 = (7, 0x80)"
definition LED_BEAT_JUMP_NEXT :: frame_bit where "LED_BEAT_JUMP_NEXT = (8, 0x01)"
definition LED_BEAT_JUMP_PREV :: frame_bit where "LED_BEAT_JUMP_PREV = (8, 0x02)"
definition LED_TEMPO_RESET :: frame_bit where "LED_TEMPO_RESET = (8, 0x08)"
definition LED_MASTER_TEMPO :: frame_bit where "LED_MASTER_TEMPO = (8, 0x10)"
definition LED_JOG_MODE_CDJ :: frame_bit where "LED_JOG_MODE_CDJ = (8, 0x40)"
definition LED_JOG_MODE_VINYL :: frame_bit where "LED_JOG_MODE_VINYL = (8, 0x80)"
definition LED_ENCODER :: frame_bit where "LED_ENCODER = (9, 0x01)"
definition LED_TRACK_SEARCH :: frame_bit where "LED_TRACK_SEARCH = (9, 0x04)"
definition LED_REV :: frame_bit where "LED_REV = (9, 0x10)"
definition LED_SLIP :: step_led_mask where "LED_SLIP = step_led_mask_new 3 0x10 0x30"
definition LED_QUANTIZE :: step_led_mask where "LED_QUANTIZE = step_led_mask_new 3 0x40 0xc0"
definition LED_SOURCE :: step_led_mask where "LED_SOURCE = step_led_mask_new 4 0x01 0x03"
definition LED_BROWSE :: step_led_mask where "LED_BROWSE = step_led_mask_new 4 0x04 0x0c"
definition LED_TAG_LIST :: step_led_mask where "LED_TAG_LIST = step_led_mask_new 4 0x10 0x30"
definition LED_PLAYLIST :: step_led_mask where "LED_PLAYLIST = step_led_mask_new 4 0x40 0xc0"
definition LED_SEARCH :: step_led_mask where "LED_SEARCH = step_led_mask_new 5 0x01 0x03"
definition LED_MENU :: step_led_mask where "LED_MENU = step_led_mask_new 5 0x04 0x0c"

lemmas LED_defs =
  LED_KEY_SYNC_def LED_BEAT_SYNC_def LED_MASTER_def LED_SLIP_def LED_QUANTIZE_def
  LED_JOG_WHITE_def LED_JOG_RED_def LED_SOURCE_def LED_BROWSE_def LED_TAG_LIST_def
  LED_PLAYLIST_def LED_SEARCH_def LED_MENU_def LED_PLAY_def LED_CUE_def LED_LOOP_IN_def
  LED_LOOP_OUT_def LED_RELOOP_def LED_BEAT_JUMP_4_def LED_BEAT_JUMP_8_def LED_BEAT_JUMP_NEXT_def
  LED_BEAT_JUMP_PREV_def LED_TEMPO_RESET_def LED_MASTER_TEMPO_def LED_JOG_MODE_CDJ_def
  LED_JOG_MODE_VINYL_def LED_ENCODER_def LED_TRACK_SEARCH_def LED_REV_def step_led_mask_new_def

definition step_at :: "bytes \<Rightarrow> step_led_mask \<Rightarrow> step_led" where
  "step_at f led =
     (let bits = f ! sl_byte led AND sl_full led
      in if bits = sl_full led then SL_Full
         else if bits AND sl_medium led \<noteq> 0 then SL_Medium
         else SL_Off)"

fun jog_step :: "bytes \<Rightarrow> jog_brightness \<Rightarrow> nat \<Rightarrow> step_led" where
  "jog_step f (JB_Bits byte dm br) shift =
     from_level
       (let v = f ! (byte + shift) AND (dm OR br)
        in if v = 0 then 0 else if v = dm then 1 else 2)"
| "jog_step f (JB_Level byte) shift = from_level (f ! byte)"

datatype wire =
    W_Bit frame_bit
  | W_Step step_led_mask
  | W_JogRing
  | W_RgbOrBit "rgb_lamps \<Rightarrow> nat option" frame_bit
  | W_Pad nat
  | W_Rgb "rgb_lamps \<Rightarrow> nat option"
  | W_Absent

definition WIRING :: "(lamp \<times> wire) list" where
  "WIRING = [
      (L_KeySync, W_Bit LED_KEY_SYNC), (L_BeatSync, W_Bit LED_BEAT_SYNC),
      (L_Master, W_Bit LED_MASTER), (L_Slip, W_Step LED_SLIP),
      (L_Quantize, W_Step LED_QUANTIZE), (L_JogRing, W_JogRing), (L_JogRed, W_Bit LED_JOG_RED),
      (L_JogMeter, W_Absent), (L_Source, W_Step LED_SOURCE), (L_Browse, W_Step LED_BROWSE),
      (L_TagList, W_Step LED_TAG_LIST), (L_Playlist, W_Step LED_PLAYLIST),
      (L_Search, W_Step LED_SEARCH), (L_Menu, W_Step LED_MENU),
      (L_Play, W_RgbOrBit rgb_play LED_PLAY), (L_Cue, W_RgbOrBit rgb_cue LED_CUE),
      (L_LoopIn, W_Bit LED_LOOP_IN), (L_LoopOut, W_Bit LED_LOOP_OUT),
      (L_Reloop, W_Bit LED_RELOOP), (L_BeatJump4, W_Bit LED_BEAT_JUMP_4),
      (L_BeatJump8, W_Bit LED_BEAT_JUMP_8), (L_BeatJumpNext, W_Bit LED_BEAT_JUMP_NEXT),
      (L_BeatJumpPrev, W_Bit LED_BEAT_JUMP_PREV), (L_TempoReset, W_Bit LED_TEMPO_RESET),
      (L_MasterTempo, W_Bit LED_MASTER_TEMPO), (L_JogModeCdj, W_Bit LED_JOG_MODE_CDJ),
      (L_JogModeVinyl, W_Bit LED_JOG_MODE_VINYL), (L_Encoder, W_Bit LED_ENCODER),
      (L_TrackSearch, W_Bit LED_TRACK_SEARCH), (L_Rev, W_Bit LED_REV), (L_HotA, W_Pad 0),
      (L_HotB, W_Pad 1), (L_HotC, W_Pad 2), (L_HotD, W_Pad 3), (L_HotE, W_Pad 4),
      (L_HotF, W_Pad 5), (L_HotG, W_Pad 6), (L_HotH, W_Pad 7), (L_Slot1, W_Rgb slot_1),
      (L_Slot2, W_Rgb slot_2), (L_OnAir, W_Rgb on_air), (L_Rotary, W_Rgb rgb_rotary),
      (L_Standby, W_Absent), (L_Eject, W_Absent)]"

definition lamp_bit :: "nat \<Rightarrow> bytes \<Rightarrow> frame_bit \<Rightarrow> lamp_state" where
  "lamp_bit shift f b = LS_Bit (f ! (fst b + shift) AND snd b \<noteq> 0)"

definition lamp_rgb :: "bytes \<Rightarrow> nat \<Rightarrow> lamp_state" where
  "lamp_rgb f b = LS_Rgb (f ! b) (f ! (b + 1)) (f ! (b + 2))"

definition map_lamp :: "mosi_map \<Rightarrow> bytes \<Rightarrow> lamp \<Rightarrow> lamp_state option" where
  "map_lamp mp f l =
     (case snd (WIRING ! lamp_index l) of
        W_Bit b \<Rightarrow> Some (lamp_bit (bit_shift mp) f b)
      | W_Step led \<Rightarrow>
          Some (LS_Step (step_at f (led\<lparr>sl_byte := sl_byte led + bit_shift mp\<rparr>)))
      | W_JogRing \<Rightarrow> Some (LS_Step (jog_step f (mm_jog mp) (bit_shift mp)))
      | W_RgbOrBit base b \<Rightarrow>
          (case base (mm_lamps mp) of
             None \<Rightarrow> Some (lamp_bit (bit_shift mp) f b)
           | Some ofs \<Rightarrow> Some (lamp_rgb f ofs))
      | W_Pad i \<Rightarrow> Some (lamp_rgb f (hot_cue (mm_lamps mp) ! i))
      | W_Rgb base \<Rightarrow> map_option (lamp_rgb f) (base (mm_lamps mp))
      | W_Absent \<Rightarrow> None)"

definition MOSI_3k :: mosi_map where
  "MOSI_3k =
     \<lparr>bit_shift = 0,
      mm_lamps =
        \<lparr>slot_1 = Some 36, slot_2 = Some 39, on_air = Some 42, rgb_play = None, rgb_cue = None,
         rgb_rotary = None, hot_cue = [12, 15, 18, 21, 24, 27, 30, 33]\<rparr>,
      mm_jog = JB_Bits (fst LED_JOG_WHITE) 0x04 0x08\<rparr>"

section \<open>Lemmas on the analog fields\<close>

text \<open>The bytes \<open>write_fields\<close> writes, and what a reader of the frame finds there.\<close>

definition field_bytes :: "nat \<Rightarrow> nat list" where
  "field_bytes shift = map ((+) shift) [4, 14, 15, 16, 17, 18, 19, 22, 23, 24, 26, 27, 28, 29, 30]"

definition fields_hold :: "panel_state \<Rightarrow> nat \<Rightarrow> bytes \<Rightarrow> bool" where
  "fields_hold st shift f =
     (f ! (FIELD_DIRECTION + shift) = direction_as_byte (ps_direction st) \<and>
      word_at False (FIELD_JOG + shift) f = jog_pos (ps_jog st) \<and>
      word_at False (FIELD_JOG + shift + 2) f = jog_vel (ps_jog st) \<and>
      f ! (FIELD_JOG + shift + 4) = jog_touch (ps_jog st) \<and>
      word_at False (FIELD_ROTARY + shift) f = ps_rotary st \<and>
      word_at False (FIELD_TEMPO + shift) f = tempo_raw (ps_tempo st) \<and>
      f ! (FIELD_VINYL + shift) = ps_vinyl st \<and>
      (\<forall>x y. ps_touch st = Some (x, y) \<longrightarrow>
         word_at False (FIELD_TOUCH + shift) f = x \<and> word_at False (FIELD_TOUCH + shift + 2) f = y))"

lemma length_write_fields [simp]:
  "length f = 64 \<Longrightarrow> shift \<le> 4 \<Longrightarrow> length (write_fields st shift f) = 64"
  by (simp add: write_fields_def Let_def field_defs split: option.splits prod.splits)

lemma nth_write_fields:
  assumes "length f = 64" and "shift \<le> 4" and "k < 64" and "k \<notin> set (field_bytes shift)"
  shows "write_fields st shift f ! k = f ! k"
proof -
  have "k < 26 + shift \<or> 31 + shift \<le> k" and "k < 14 + shift \<or> 20 + shift \<le> k"
    and "k < 22 + shift \<or> 25 + shift \<le> k" and "k \<noteq> 4 + shift"
    using assms(4) by (auto simp: field_bytes_def) (presburger+)?
  with assms(1-3) show ?thesis
    by (auto simp: write_fields_def Let_def field_defs nth_list_update split: option.splits prod.splits)
qed

lemma word_at_put_le_same [simp, frame_simps]:
  "ofs + 2 \<le> length f \<Longrightarrow> word_at False ofs (put_le ofs v f) = v"
  by (simp add: word_at_def put_le_def)

lemma word_at_put_le_other [simp, frame_simps]:
  "\<lbrakk>ofs + 2 \<le> length f; a + 2 \<le> length f; a + 2 \<le> ofs \<or> ofs + 2 \<le> a\<rbrakk>
   \<Longrightarrow> word_at be a (put_le ofs v f) = word_at be a f"
  by (simp add: word_at_def put_le_def)

lemma word_at_cong:
  assumes "length f = length g" and "a + 2 \<le> length f" and "f ! a = g ! a" and "f ! Suc a = g ! Suc a"
  shows "word_at be a f = word_at be a g"
proof -
  have "slice_of a 2 f = slice_of a 2 g"
  proof (rule slice_of_cong [OF assms(1,2)])
    fix k assume "a \<le> k" "k < a + 2"
    then have "k = a \<or> k = Suc a" by auto
    then show "f ! k = g ! k" using assms(3,4) by auto
  qed
  then show ?thesis by (simp add: word_at_def)
qed

lemma word_at_update [simp, frame_simps]:
  assumes "a + 2 \<le> length f" and "i < a \<or> a + 2 \<le> i"
  shows "word_at be a (f[i := v]) = word_at be a f"
  by (rule word_at_cong) (use assms in auto)

lemma write_fields_hold:
  "length f = 64 \<Longrightarrow> shift \<le> 4 \<Longrightarrow> fields_hold st shift (write_fields st shift f)"
  by (auto simp: fields_hold_def write_fields_def Let_def field_defs split: option.splits)

lemma fields_hold_cong:
  assumes "length f = 64" and "length g = 64" and "shift \<le> 4"
    and "\<And>k. k \<in> set (field_bytes shift) \<Longrightarrow> f ! k = g ! k"
  shows "fields_hold st shift f = fields_hold st shift g"
proof -
  have b: "f ! (j + shift) = g ! (j + shift)"
    if "j \<in> {4, 14, 15, 16, 17, 18, 19, 22, 23, 24, 26, 27, 28, 29, 30}" for j
    using that by (intro assms(4)) (auto simp: field_bytes_def add.commute)
  have w: "word_at False (j + shift) f = word_at False (j + shift) g"
    if "j \<in> {14, 16, 18, 22, 26, 28}" for j
    by (rule word_at_cong) (use that assms(1-3) b [of j] b [of "Suc j"] in auto)
  show ?thesis
    using w [of 14] w [of 16] w [of 18] w [of 22] w [of 26] w [of 28] b [of 4] b [of 24] b [of 30]
    by (simp add: fields_hold_def field_defs add.commute)
qed

section \<open>The encoder of the family\<close>

text \<open>
  Both RK3399 decks build the frame in the same steps: idle payload, pressed bits, fields,
  cleared bits, power bits, checksum. The facts below are about these steps for any idle
  payload, shift and list of power bits.
\<close>

definition family_encode :: "bytes \<Rightarrow> nat \<Rightarrow> frame_bit list \<Rightarrow> panel_state \<Rightarrow> bytes option" where
  "family_encode idle shift off st =
     do {
       f \<leftarrow> press st (from_idle idle);
       f \<leftarrow> clear st (write_fields st shift f);
       f \<leftarrow> foldM (\<lambda>b f. set_bit b False f) (if ps_power st then [] else off) f;
       Some (stamp_crc 62 False f)
     }"

lemma family_total:
  assumes "length idle = 62" and "shift \<le> 4" and "\<forall>(i, m) \<in> set off. i < 64" and "in_frame st"
  shows "\<exists>f. family_encode idle shift off st = Some f"
proof -
  obtain f where f: "press st (from_idle idle) = Some f"
    using press_total [OF assms(4)] assms(1) by force
  have lf: "length (write_fields st shift f) = 64"
    using press_nth [OF f] assms(1,2) by simp
  obtain g where g: "clear st (write_fields st shift f) = Some g"
    using clear_total [OF assms(4) lf] by blast
  have lg: "length g = 64" using clear_nth [OF g] lf by simp
  have "\<forall>(i, m) \<in> set (if ps_power st then [] else off). i < length g" using assms(3) lg by auto
  from foldM_set_bit_total [OF this]
  obtain h where "foldM (\<lambda>b f. set_bit b False f) (if ps_power st then [] else off) g = Some h"
    by blast
  with f g show ?thesis by (simp add: family_encode_def)
qed

lemma family_facts:
  assumes idle: "length idle = 62" and shift: "shift \<le> 4"
    and enc: "family_encode idle shift off st = Some f"
  defines "low \<equiv> ps_cleared st @ (if ps_power st then [] else off)"
  shows family_length: "length f = 64"
    and family_crc: "crc_ok 62 False f"
    and family_key: "k < 62 \<Longrightarrow> k \<notin> set (field_bytes shift) \<Longrightarrow>
      f ! k = (idle ! k OR mask_at (ps_pressed st) k) AND NOT (mask_at low k)"
    and family_fields: "\<forall>(i, m) \<in> set low. i \<notin> set (field_bytes shift) \<Longrightarrow> fields_hold st shift f"
proof -
  from enc obtain f1 f2 f3 where f1: "press st (from_idle idle) = Some f1"
    and f2: "clear st (write_fields st shift f1) = Some f2"
    and f3: "foldM (\<lambda>b f. set_bit b False f) (if ps_power st then [] else off) f2 = Some f3"
    and f: "f = stamp_crc 62 False f3"
    unfolding family_encode_def by (auto simp: bind_eq_Some_conv)
  have l1: "length f1 = 64" using press_nth [OF f1] idle by simp
  have l2: "length f2 = 64" using clear_nth [OF f2] l1 shift by simp
  have l3: "length f3 = 64" using foldM_set_bit [OF f3] l2 by simp
  have low: "f3 ! i = write_fields st shift f1 ! i AND NOT (mask_at low i)" if "i < 64" for i
    using foldM_set_bit [OF f3] clear_nth [OF f2] l1 l2 shift that
    by (simp add: low_def mask_at_append bit.de_Morgan_disj and.assoc)
  show "length f = 64" using f l3 by simp
  show "crc_ok 62 False f" using f l3 by (simp add: stamp_crc_ok)
  show "f ! k = (idle ! k OR mask_at (ps_pressed st) k) AND NOT (mask_at low k)"
    if "k < 62" "k \<notin> set (field_bytes shift)"
    using that f l3 low [of k] nth_write_fields [OF l1 shift _ that(2)] press_nth [OF f1] idle
    by simp
  show "fields_hold st shift f" if a: "\<forall>(i, m) \<in> set low. i \<notin> set (field_bytes shift)"
  proof -
    have "f ! k = write_fields st shift f1 ! k" if k: "k \<in> set (field_bytes shift)" for k
    proof -
      have "mask_at low k = 0"
        using mask_at_disjoint [of low k "- 1"] a k by fastforce
      moreover have "k < 62" using k shift by (auto simp: field_bytes_def)
      ultimately show ?thesis using f l3 low [of k] by simp
    qed
    then show ?thesis
      using fields_hold_cong [of f "write_fields st shift f1" shift st] write_fields_hold l1 shift f l3
      by simp
  qed
qed

section \<open>The CDJ-3000 implements the encoder contract\<close>

lemma encode_3k_family: "encode_3k st = family_encode IDLE_3k 0 [POWER_ON] st"
  by (cases "ps_power st") (simp_all add: encode_3k_def family_encode_def)

lemma length_IDLE_3k [simp]: "length IDLE_3k = 62"
  by (simp add: IDLE_3k_def)

text \<open>Each button of the CDJ-3000 sits in bytes 5 to 12, with one bit of its own.\<close>

lemma btn_bit_byte: "btn_bit b = Some (i, m) \<Longrightarrow> i \<in> {5..<13} \<and> m \<noteq> 0"
  by (cases b) (auto simp: POWER_ON_def)

lemma btn_bits_disjoint:
  "\<forall>b \<in> set (SHARED @ EXTRA). \<forall>c \<in> set (SHARED @ EXTRA). b \<noteq> c \<longrightarrow>
     (case btn_bit b of None \<Rightarrow> True | Some (i, m) \<Rightarrow>
        (case btn_bit c of None \<Rightarrow> True | Some (j, n) \<Rightarrow> i = j \<longrightarrow> m AND n = 0))"
  by code_simp

interpretation miso_3k: miso_codec button_3k encode_3k IDLE_3k "[POWER_ON]" "[5..<13]" 62 False
proof
  fix b c i m n
  assume "button_3k b = Some (i, m)" "button_3k c = Some (i, n)" "b \<noteq> c"
  then show "m AND n = 0"
    using btn_bits_disjoint by (fastforce simp: button_3k_def is_shared_def split: if_splits)
next
  fix st f i
  assume f: "encode_3k st = Some f" and i: "i \<in> set [5..<13]"
  then have "i \<notin> set (field_bytes 0)" by (auto simp: field_bytes_def)
  with f i show "f ! i = (IDLE_3k ! i OR mask_at (ps_pressed st) i)
      AND NOT (mask_at (ps_cleared st @ (if ps_power st then [] else [POWER_ON])) i)"
    unfolding encode_3k_family by (intro family_key [where shift = 0]) auto
qed (auto simp: encode_3k_family button_3k_def POWER_ON_def dest: btn_bit_byte
      family_length [OF length_IDLE_3k le0] family_crc [OF length_IDLE_3k le0]
      intro!: family_total split: if_splits)

section \<open>Lamp maps implement the lamp contract\<close>

definition rgb_footprint :: "nat \<Rightarrow> frame_bit list" where
  "rgb_footprint b = [(b, 0xFF), (b + 1, 0xFF), (b + 2, 0xFF)]"

fun jog_footprint :: "jog_brightness \<Rightarrow> nat \<Rightarrow> frame_bit list" where
  "jog_footprint (JB_Bits byte dm br) shift = [(byte + shift, dm OR br)]"
| "jog_footprint (JB_Level byte) shift = [(byte, 0xFF)]"

definition map_footprint :: "mosi_map \<Rightarrow> lamp \<Rightarrow> frame_bit list" where
  "map_footprint mp l =
     (case snd (WIRING ! lamp_index l) of
        W_Bit b \<Rightarrow> [(fst b + bit_shift mp, snd b)]
      | W_Step led \<Rightarrow> [(sl_byte led + bit_shift mp, sl_full led)]
      | W_JogRing \<Rightarrow> jog_footprint (mm_jog mp) (bit_shift mp)
      | W_RgbOrBit base b \<Rightarrow>
          (case base (mm_lamps mp) of
             None \<Rightarrow> [(fst b + bit_shift mp, snd b)] | Some ofs \<Rightarrow> rgb_footprint ofs)
      | W_Pad i \<Rightarrow> rgb_footprint (hot_cue (mm_lamps mp) ! i)
      | W_Rgb base \<Rightarrow> (case base (mm_lamps mp) of None \<Rightarrow> [] | Some ofs \<Rightarrow> rgb_footprint ofs)
      | W_Absent \<Rightarrow> [])"

text \<open>What an instance has to check: footprints inside the frame and pairwise disjoint.\<close>

definition disjoint_bits :: "frame_bit list \<Rightarrow> frame_bit list \<Rightarrow> bool" where
  "disjoint_bits xs ys = list_all (\<lambda>(i, m). list_all (\<lambda>(j, n). i = j \<longrightarrow> m AND n = 0) ys) xs"

definition footprints_ok :: "(lamp \<Rightarrow> frame_bit list) \<Rightarrow> bool" where
  "footprints_ok fp =
     (let fps = map (\<lambda>l. (lamp_index l, fp l)) LAMP_ALL
      in list_all (\<lambda>(_, bits). list_all (\<lambda>(i, _). i < MOSI_SIZE) bits) fps \<and>
         list_all (\<lambda>(k, xs). list_all (\<lambda>(l, ys). k = l \<or> disjoint_bits xs ys) fps) fps)"

lemma lamp_index_inject: "lamp_index k = lamp_index l \<longleftrightarrow> k = l"
proof
  have "list_all (\<lambda>l. LAMP_ALL ! lamp_index l = l) LAMP_ALL" by code_simp
  then have at: "LAMP_ALL ! lamp_index l = l" for l
    unfolding list_all_iff using lamp_listed by (rule bspec)
  assume "lamp_index k = lamp_index l"
  then show "k = l" by (metis at)
qed simp

lemma footprints_okD:
  assumes "footprints_ok fp"
  shows "list_all (\<lambda>(i, _). i < MOSI_SIZE) (fp l)"
    and "k \<noteq> l \<Longrightarrow> disjoint_bits (fp k) (fp l)"
proof -
  let ?fps = "map (\<lambda>l. (lamp_index l, fp l)) LAMP_ALL"
  have mem: "(lamp_index l, fp l) \<in> set ?fps" for l using lamp_listed [of l] by simp
  have a: "\<forall>(_, bits) \<in> set ?fps. list_all (\<lambda>(i, _). i < MOSI_SIZE) bits"
    and d: "\<forall>(k, xs) \<in> set ?fps. \<forall>(l, ys) \<in> set ?fps. k = l \<or> disjoint_bits xs ys"
    using assms unfolding footprints_ok_def Let_def list_all_iff by blast+
  from bspec [OF a mem] show "list_all (\<lambda>(i, _). i < MOSI_SIZE) (fp l)" by simp
  from bspec [OF bspec [OF d mem [of k], unfolded prod.case] mem [of l]]
  show "k \<noteq> l \<Longrightarrow> disjoint_bits (fp k) (fp l)" by (simp add: lamp_index_inject)
qed

lemma footprints_ok_in_frame: "footprints_ok fp \<Longrightarrow> (i, m) \<in> set (fp l) \<Longrightarrow> i < MOSI_SIZE"
  by (drule footprints_okD(1) [of fp l]) (auto simp: list_all_iff)

lemma footprints_ok_disjoint:
  "\<lbrakk>footprints_ok fp; k \<noteq> l; (i, m) \<in> set (fp k); (i, n) \<in> set (fp l)\<rbrakk> \<Longrightarrow> m AND n = 0"
  by (drule (1) footprints_okD(2)) (force simp: disjoint_bits_def list_all_iff)

lemma wiring_step_full: "snd (WIRING ! lamp_index l) = W_Step led \<Longrightarrow> sl_full led \<noteq> 0"
  by (cases l) (auto simp: WIRING_def LED_defs)

lemma masked_ff [simp]: "(v :: u8) AND 0xFF = v"
proof -
  have "(0xFF :: u8) = - 1" by simp
  then show ?thesis by (metis and.right_neutral)
qed

lemma rgb_reads:
  assumes "\<And>i m. (i, m) \<in> set (rgb_footprint b) \<Longrightarrow> f ! i AND m = g ! i AND m"
  shows "lamp_rgb f b = lamp_rgb g b"
proof -
  have "f ! k = g ! k" if "(k, 0xFF) \<in> set (rgb_footprint b)" for k
    using assms [OF that] by simp
  then show ?thesis by (simp add: lamp_rgb_def rgb_footprint_def)
qed

lemma jog_reads:
  assumes "\<And>i m. (i, m) \<in> set (jog_footprint j shift) \<Longrightarrow> f ! i AND m = g ! i AND m"
  shows "jog_step f j shift = jog_step g j shift"
  using assms
proof (cases j)
  case (JB_Level b)
  then have "f ! b AND 0xFF = g ! b AND 0xFF" using assms [of b "0xFF"] by simp
  then show ?thesis using JB_Level by simp
qed (simp add: Let_def)

lemma rgb_dark:
  assumes "\<And>i m. (i, m) \<in> set (rgb_footprint b) \<Longrightarrow> f ! i AND m = 0"
  shows "drive (lamp_rgb f b) = 0"
proof -
  have "f ! k = 0" if "(k, 0xFF) \<in> set (rgb_footprint b)" for k
    using assms [OF that] by simp
  then show ?thesis by (simp add: lamp_rgb_def rgb_footprint_def)
qed

lemma jog_dark:
  assumes "\<And>i m. (i, m) \<in> set (jog_footprint j shift) \<Longrightarrow> f ! i AND m = 0"
  shows "jog_step f j shift = SL_Off"
  using assms
proof (cases j)
  case (JB_Level b)
  then have "f ! b AND 0xFF = 0" using assms [of b "0xFF"] by simp
  then show ?thesis using JB_Level by (simp add: from_level_def)
qed (simp add: Let_def from_level_def)

lemma map_lamp_reads:
  assumes "\<And>i m. (i, m) \<in> set (map_footprint mp l) \<Longrightarrow> f ! i AND m = g ! i AND m"
  shows "map_lamp mp f l = map_lamp mp g l"
proof (cases "snd (WIRING ! lamp_index l)")
  case (W_Bit b)
  then show ?thesis
    using assms [of "fst b + bit_shift mp" "snd b"] by (simp add: map_lamp_def map_footprint_def lamp_bit_def)
next
  case (W_Step led)
  then show ?thesis
    using assms [of "sl_byte led + bit_shift mp" "sl_full led"]
    by (simp add: map_lamp_def map_footprint_def step_at_def)
next
  case W_JogRing
  then show ?thesis
    using jog_reads [of "mm_jog mp" "bit_shift mp" f g] assms by (simp add: map_lamp_def map_footprint_def)
next
  case (W_RgbOrBit base b)
  then show ?thesis
    using assms rgb_reads [of _ f g]
    by (cases "base (mm_lamps mp)") (simp_all add: map_lamp_def map_footprint_def lamp_bit_def)
next
  case (W_Rgb base)
  then show ?thesis
    using assms rgb_reads [of _ f g]
    by (cases "base (mm_lamps mp)") (simp_all add: map_lamp_def map_footprint_def)
next
  case (W_Pad i)
  then show ?thesis using assms rgb_reads [of _ f g] by (simp add: map_lamp_def map_footprint_def)
qed (simp_all add: map_lamp_def)

lemma map_lamp_dark:
  assumes "map_lamp mp f l = Some s"
    and "\<And>i m. (i, m) \<in> set (map_footprint mp l) \<Longrightarrow> f ! i AND m = 0"
  shows "drive s = 0"
proof (cases "snd (WIRING ! lamp_index l)")
  case (W_Step led)
  then show ?thesis
    using assms wiring_step_full [OF W_Step] assms(2) [of "sl_byte led + bit_shift mp" "sl_full led"]
    by (auto simp: map_lamp_def map_footprint_def step_at_def)
qed (use assms in \<open>auto simp: map_lamp_def map_footprint_def lamp_bit_def jog_dark
      split: option.splits intro!: rgb_dark\<close>)

lemma map_lamp_present: "map_lamp mp f l = None \<longleftrightarrow> map_footprint mp l = []"
proof -
  have "jog_footprint j sh \<noteq> []" for j sh by (cases j) simp_all
  then show ?thesis
    by (auto simp: map_lamp_def map_footprint_def rgb_footprint_def split: wire.splits option.splits)
qed

lemma map_codec: "footprints_ok (map_footprint mp) \<Longrightarrow> mosi_codec (map_lamp mp) (map_footprint mp)"
  by unfold_locales
    (erule (1) footprints_ok_in_frame | erule (3) footprints_ok_disjoint | rule map_lamp_present
      | rule map_lamp_reads, blast | erule map_lamp_dark, blast)+

lemma MOSI_3k_ok: "footprints_ok (map_footprint MOSI_3k)"
  by code_simp

interpretation mosi_3k: mosi_codec "map_lamp MOSI_3k" "map_footprint MOSI_3k"
  by (rule map_codec [OF MOSI_3k_ok])

end
