(* ===== verification/Cdj3kx.thy ===== *)
theory Cdj3kx
  imports Cdj3k
begin

text \<open>
  The CDJ-3000X of \<open>crates/cdj3k-emu-panel/src/cdj3kx.rs\<close>: the CDJ-3000's frame moved four
  bytes later behind a version word, and its lamp map with PLAY and CUE as colours. The
  encoder and the lamp map implement the two contracts through the family's lemmas.
\<close>

section \<open>The MISO encoder\<close>

definition MISO_SHIFT :: nat where
  "MISO_SHIFT = 4"

definition BIT_SHIFT :: nat where
  "BIT_SHIFT = 6"

definition IDLE_3kx :: bytes where
  "IDLE_3kx =
     (let f = (replicate 62 0)[0 := 0x01];
          f = fold (\<lambda>i f. f[i + MISO_SHIFT := IDLE_3k ! i]) [0..<62 - MISO_SHIFT] f
      in f[12 := 0x80, 16 := 0x80])"

definition POWER_ON_SHIFTED :: frame_bit where
  "POWER_ON_SHIFTED = (fst POWER_ON + MISO_SHIFT, snd POWER_ON)"

definition button_3kx :: "btn \<Rightarrow> frame_bit option" where
  "button_3kx b =
     (if \<not> is_shared b \<and> b \<noteq> B_Usb2Stop then None
      else map_option (\<lambda>(byte, msk). (byte + MISO_SHIFT, msk)) (btn_bit b))"

definition encode_3kx :: "panel_state \<Rightarrow> bytes option" where
  "encode_3kx st =
     do {
       f \<leftarrow> press st (from_idle IDLE_3kx);
       f \<leftarrow> clear st (write_fields st MISO_SHIFT f);
       f \<leftarrow> (if \<not> ps_power st
             then do { f \<leftarrow> set_bit POWER_ON_SHIFTED False f; set_bit POWER_ON False f }
             else Some f);
       Some (stamp_crc 62 False f)
     }"

section \<open>The lamp map\<close>

definition MOSI_3kx :: mosi_map where
  "MOSI_3kx =
     \<lparr>bit_shift = BIT_SHIFT,
      mm_lamps =
        \<lparr>slot_1 = Some 48, slot_2 = Some 51, on_air = None, rgb_play = Some 18, rgb_cue = Some 21,
         rgb_rotary = Some 54, hot_cue = [24, 27, 30, 33, 36, 39, 42, 45]\<rparr>,
      mm_jog = JB_Level 2\<rparr>"

section \<open>The contracts\<close>

lemma length_IDLE_3kx [simp]: "length IDLE_3kx = 62"
proof -
  have "length (fold (\<lambda>i f. f[i + MISO_SHIFT := IDLE_3k ! i]) is f) = length f" for "is" f
    by (induction "is" arbitrary: f) simp_all
  then show ?thesis by (simp add: IDLE_3kx_def Let_def)
qed

lemma encode_3kx_family: "encode_3kx st = family_encode IDLE_3kx MISO_SHIFT [POWER_ON_SHIFTED, POWER_ON] st"
  by (cases "ps_power st") (simp_all add: encode_3kx_def family_encode_def)

lemma MISO_SHIFT_le: "MISO_SHIFT \<le> 4"
  by (simp add: MISO_SHIFT_def)

lemma button_3kx_bit:
  "button_3kx b = Some (i, m) \<Longrightarrow>
     4 \<le> i \<and> btn_bit b = Some (i - 4, m) \<and> b \<in> set (SHARED @ EXTRA)"
  by (auto simp: button_3kx_def MISO_SHIFT_def is_shared_def EXTRA_def split: if_splits)

interpretation miso_3kx: miso_codec button_3kx encode_3kx IDLE_3kx "[POWER_ON_SHIFTED, POWER_ON]"
  "[9..<17]" 62 False
proof
  fix b c i m n
  assume "button_3kx b = Some (i, m)" "button_3kx c = Some (i, n)" "b \<noteq> c"
  then show "m AND n = 0"
    using btn_bits_disjoint button_3kx_bit [of b i m] button_3kx_bit [of c i n] by fastforce
next
  fix st f i
  assume f: "encode_3kx st = Some f" and i: "i \<in> set [9..<17]"
  then have "i \<notin> set (field_bytes MISO_SHIFT)" by (auto simp: field_bytes_def MISO_SHIFT_def)
  with f i show "f ! i = (IDLE_3kx ! i OR mask_at (ps_pressed st) i)
      AND NOT (mask_at (ps_cleared st @ (if ps_power st then [] else [POWER_ON_SHIFTED, POWER_ON])) i)"
    unfolding encode_3kx_family by (intro family_key [OF _ MISO_SHIFT_le]) auto
next
  fix b i m
  assume "button_3kx b = Some (i, m)"
  then have "4 \<le> i" "i - 4 \<in> {5..<13} \<and> m \<noteq> 0"
    using button_3kx_bit [of b i m] btn_bit_byte [of b "i - 4" m] by blast+
  then show "i \<in> set [9..<17]" "m \<noteq> 0" by auto
next
  fix st assume "in_frame st"
  then show "\<exists>f. encode_3kx st = Some f"
    unfolding encode_3kx_family
    by (intro family_total) (auto simp: POWER_ON_def POWER_ON_SHIFTED_def MISO_SHIFT_def)
qed (auto simp: encode_3kx_family dest: family_length [OF length_IDLE_3kx MISO_SHIFT_le]
      family_crc [OF length_IDLE_3kx MISO_SHIFT_le])

lemma MOSI_3kx_ok: "footprints_ok (map_footprint MOSI_3kx)"
  by code_simp

interpretation mosi_3kx: mosi_codec "map_lamp MOSI_3kx" "map_footprint MOSI_3kx"
  by (rule map_codec [OF MOSI_3kx_ok])

end
