(* ===== verification/Cdj1500x.thy ===== *)
theory Cdj1500x
  imports Cdj3k
begin

text \<open>
  The CDJ-1500X of \<open>crates/cdj3k-emu-panel/src/cdj1500x.rs\<close>: a frame of its own with
  big-endian counters, a 14-bit tempo wiper and the jog's pulse period, and its lamps with
  two-bit pad levels and the jog ring meter. Both codecs implement the contracts; the lemmas
  on the tempo wiper and the jog period follow the \<open>f32\<close> and \<open>f64\<close> roundings of the code.
\<close>

section \<open>The MISO encoder\<close>

definition POWER_FLAG :: frame_bit where "POWER_FLAG = (30, 0x80)"
definition BROWSE_AT :: nat where "BROWSE_AT = 20"
definition BEAT_LOOP_AT :: nat where "BEAT_LOOP_AT = 8"
definition TEMPO_AT :: nat where "TEMPO_AT = 4"
definition TEMPO_DETENT_AT :: nat where "TEMPO_DETENT_AT = 6"
definition TEMPO_TOP :: u16 where "TEMPO_TOP = 0x3FF0"
definition TEMPO_DETENT :: u16 where "TEMPO_DETENT = TEMPO_TOP div 2"
definition JOG_POS_AT :: nat where "JOG_POS_AT = 12"
definition JOG_PERIOD_AT :: nat where "JOG_PERIOD_AT = 14"
definition JOG_TOUCH :: frame_bit where "JOG_TOUCH = (19, 0x01)"
definition JOG_FORWARD :: frame_bit where "JOG_FORWARD = (19, 0x02)"
definition JOG_SPEED_PER_TURN :: f64 where "JOG_SPEED_PER_TURN = rnd64 (8 / 10)"
definition JOG_PULSES_PER_REV :: f64 where "JOG_PULSES_PER_REV = rnd64 (900 * JOG_SPEED_PER_TURN)"
definition JOG_STOPPED :: u16 where "JOG_STOPPED = 0xFFFF"
definition CRC_AT :: nat where "CRC_AT = 24"
definition TOUCH_AT :: nat where "TOUCH_AT = 26"

lemmas at_defs = POWER_FLAG_def BROWSE_AT_def BEAT_LOOP_AT_def TEMPO_AT_def TEMPO_DETENT_AT_def
  JOG_POS_AT_def JOG_PERIOD_AT_def JOG_TOUCH_def JOG_FORWARD_def CRC_AT_def TOUCH_AT_def

text \<open>A jog at rest divides by zero: the quotient is infinite and the period word is \<open>0xFFFF\<close>.\<close>

definition jog_period :: "f32 \<Rightarrow> u16" where
  "jog_period rps =
     (let d = rnd64 (JOG_PULSES_PER_REV * \<bar>rps\<bar>)
      in if d = 0 then JOG_STOPPED
         else let us = rnd64 (1000000 / d)
              in if us < of_int (uint JOG_STOPPED) then as_u16 (of_int (round_away us))
                 else JOG_STOPPED)"

definition put_tempo_word :: "nat \<Rightarrow> u16 \<Rightarrow> bytes \<Rightarrow> bytes" where
  "put_tempo_word ofs v f = put_be ofs (v AND 0x3FFF) f"

definition IDLE_1500x :: bytes where
  "IDLE_1500x = (replicate 62 0)[0 := 0x01, fst POWER_FLAG := snd POWER_FLAG]"

definition BUTTONS :: "(btn \<times> frame_bit) list" where
  "BUTTONS = [
      (B_Reloop, (10, 0x80)), (B_Delete, (16, 0x08)), (B_Play, (16, 0x40)), (B_Cue, (16, 0x80)),
      (B_Shift, (17, 0x01)), (B_HotA, (18, 0x80)), (B_HotB, (18, 0x40)), (B_HotC, (18, 0x20)),
      (B_HotD, (18, 0x10)), (B_HotE, (18, 0x08)), (B_HotF, (18, 0x04)), (B_HotG, (18, 0x02)),
      (B_HotH, (18, 0x01)), (B_Back, (22, 0x01)), (B_TagTrack, (22, 0x02)),
      (B_RotaryPress, (22, 0x80)), (B_UsbStop, (23, 0x02))]"

definition button_1500x :: "btn \<Rightarrow> frame_bit option" where
  "button_1500x b = map_option snd (find (\<lambda>(k, _). k = b) BUTTONS)"

definition wiper :: "f32 \<Rightarrow> u16" where
  "wiper t = as_u16 (of_int (round_away (rnd32 (clamp01 t * of_int (uint TEMPO_TOP)))))"

text \<open>\<open>floor\<close> and \<open>rem_euclid\<close> are exact on the integral \<open>f64\<close> they see.\<close>

definition jog_pulses :: "f64 \<Rightarrow> u16" where
  "jog_pulses revs = word_of_int (\<lfloor>rnd64 (revs * JOG_PULSES_PER_REV)\<rfloor> mod 65536)"

definition write_fields_1500x :: "panel_state \<Rightarrow> bytes \<Rightarrow> bytes option" where
  "write_fields_1500x st f =
     do {
       let f = put_be BROWSE_AT (ps_rotary st) f;
       let f = put_be BEAT_LOOP_AT (ps_beat_loop st) f;
       let f = put_tempo_word TEMPO_AT (wiper (ps_tempo st)) f;
       let f = put_tempo_word TEMPO_DETENT_AT TEMPO_DETENT f;
       let f = put_be JOG_POS_AT (jog_pulses (jog_revs (ps_jog st))) f;
       let f = put_be JOG_PERIOD_AT (jog_period (jog_rps (ps_jog st))) f;
       f \<leftarrow> set_bit JOG_TOUCH (jog_touched (ps_jog st)) f;
       f \<leftarrow> set_bit JOG_FORWARD (jog_rps (ps_jog st) > 0) f;
       Some (case ps_touch st of
               Some (x, y) \<Rightarrow> put_le (TOUCH_AT + 2) y (put_le TOUCH_AT x f)
             | None \<Rightarrow> f)
     }"

definition encode_1500x :: "panel_state \<Rightarrow> bytes option" where
  "encode_1500x st =
     do {
       f \<leftarrow> press st (from_idle IDLE_1500x);
       f \<leftarrow> write_fields_1500x st f;
       f \<leftarrow> clear st f;
       f \<leftarrow> (if \<not> ps_power st then set_bit POWER_FLAG False f else Some f);
       Some (stamp_crc CRC_AT True f)
     }"

section \<open>The lamp codec\<close>

definition LED_PLAY_1500x :: frame_bit where "LED_PLAY_1500x = (0, 0x40)"
definition LED_CUE_1500x :: frame_bit where "LED_CUE_1500x = (0, 0x80)"
definition LED_STANDBY_1500x :: frame_bit where "LED_STANDBY_1500x = (9, 0x20)"
definition PADS_AT :: nat where "PADS_AT = 1"
definition EJECT_STEP :: "nat \<times> nat" where "EJECT_STEP = (9, 6)"
definition JOG_METER_AT :: nat where "JOG_METER_AT = 3"
definition JOG_RING_POSITIONS :: u8 where "JOG_RING_POSITIONS = 36"
definition JOG_RING_FIRST :: u8 where "JOG_RING_FIRST = 0x29"
definition JOG_RING_ALL :: u8 where "JOG_RING_ALL = 0x63"
definition SLOT_AT :: nat where "SLOT_AT = 4"

datatype jog_ring_show = JR_Off | JR_All | JR_At u8

definition jog_ring :: "u8 \<Rightarrow> jog_ring_show" where
  "jog_ring meter =
     (if meter = JOG_RING_ALL then JR_All
      else if JOG_RING_FIRST \<le> meter \<and> meter < JOG_RING_FIRST + JOG_RING_POSITIONS
      then JR_At (meter - JOG_RING_FIRST)
      else JR_Off)"

datatype wire_1500x =
    V_Bit frame_bit
  | V_Step "nat \<times> nat"
  | V_Pad nat
  | V_Rgb nat
  | V_Level nat
  | V_Absent

definition WIRING_1500x :: "(lamp \<times> wire_1500x) list" where
  "WIRING_1500x = [
      (L_KeySync, V_Absent), (L_BeatSync, V_Absent), (L_Master, V_Absent), (L_Slip, V_Absent),
      (L_Quantize, V_Absent), (L_JogRing, V_Absent), (L_JogRed, V_Absent),
      (L_JogMeter, V_Level JOG_METER_AT), (L_Source, V_Absent), (L_Browse, V_Absent),
      (L_TagList, V_Absent), (L_Playlist, V_Absent), (L_Search, V_Absent), (L_Menu, V_Absent),
      (L_Play, V_Bit LED_PLAY_1500x), (L_Cue, V_Bit LED_CUE_1500x), (L_LoopIn, V_Absent),
      (L_LoopOut, V_Absent), (L_Reloop, V_Absent), (L_BeatJump4, V_Absent),
      (L_BeatJump8, V_Absent), (L_BeatJumpNext, V_Absent), (L_BeatJumpPrev, V_Absent),
      (L_TempoReset, V_Absent), (L_MasterTempo, V_Absent), (L_JogModeCdj, V_Absent),
      (L_JogModeVinyl, V_Absent), (L_Encoder, V_Absent), (L_TrackSearch, V_Absent),
      (L_Rev, V_Absent), (L_HotA, V_Pad 0), (L_HotB, V_Pad 1), (L_HotC, V_Pad 2),
      (L_HotD, V_Pad 3), (L_HotE, V_Pad 4), (L_HotF, V_Pad 5), (L_HotG, V_Pad 6),
      (L_HotH, V_Pad 7), (L_Slot1, V_Rgb SLOT_AT), (L_Slot2, V_Absent), (L_OnAir, V_Absent),
      (L_Rotary, V_Absent), (L_Standby, V_Bit LED_STANDBY_1500x), (L_Eject, V_Step EJECT_STEP)]"

definition step_1500x :: "bytes \<Rightarrow> nat \<times> nat \<Rightarrow> step_led" where
  "step_1500x f p =
     (let v = drop_bit (snd p) (f ! fst p) AND 3
      in if v = 0 then SL_Off else if v = 3 then SL_Full else SL_Medium)"

definition pad_field :: "nat \<Rightarrow> nat \<times> nat" where
  "pad_field i = (PADS_AT + i div 4, 6 - 2 * (i mod 4))"

definition lamp_1500x :: "bytes \<Rightarrow> lamp \<Rightarrow> lamp_state option" where
  "lamp_1500x f l =
     (case snd (WIRING_1500x ! lamp_index l) of
        V_Bit b \<Rightarrow> Some (LS_Bit (f ! fst b AND snd b \<noteq> 0))
      | V_Step p \<Rightarrow> Some (LS_Step (step_1500x f p))
      | V_Pad i \<Rightarrow> Some (LS_Step (step_1500x f (pad_field i)))
      | V_Rgb ofs \<Rightarrow> Some (LS_Rgb (f ! ofs) (f ! (ofs + 1)) (f ! (ofs + 2)))
      | V_Level ofs \<Rightarrow> Some (LS_Level (f ! ofs))
      | V_Absent \<Rightarrow> None)"

section \<open>Lemmas on the fields\<close>

definition field_bytes_1500x :: "nat list" where
  "field_bytes_1500x = [4, 5, 6, 7, 8, 9, 12, 13, 14, 15, 19, 20, 21, 26, 27, 28, 29]"

text \<open>What the deck reads in the frame: wiper, counters, jog flags and touch words.\<close>

definition fields_hold_1500x :: "panel_state \<Rightarrow> bytes \<Rightarrow> bool" where
  "fields_hold_1500x st f =
     (word_at True BROWSE_AT f = ps_rotary st \<and>
      word_at True BEAT_LOOP_AT f = ps_beat_loop st \<and>
      word_at True TEMPO_AT f = wiper (ps_tempo st) \<and>
      word_at True TEMPO_DETENT_AT f = TEMPO_DETENT \<and>
      word_at True JOG_POS_AT f = jog_pulses (jog_revs (ps_jog st)) \<and>
      word_at True JOG_PERIOD_AT f = jog_period (jog_rps (ps_jog st)) \<and>
      (f ! 19 AND 0x01 \<noteq> 0 \<longleftrightarrow> jog_touched (ps_jog st)) \<and>
      (f ! 19 AND 0x02 \<noteq> 0 \<longleftrightarrow> jog_rps (ps_jog st) > 0) \<and>
      (\<forall>x y. ps_touch st = Some (x, y) \<longrightarrow>
         word_at False TOUCH_AT f = x \<and> word_at False (TOUCH_AT + 2) f = y))"

lemma word_at_put_be_same [simp, frame_simps]:
  "ofs + 2 \<le> length f \<Longrightarrow> word_at True ofs (put_be ofs v f) = v"
  by (simp add: word_at_def put_be_def)

lemma word_at_put_be_other [simp, frame_simps]:
  "\<lbrakk>ofs + 2 \<le> length f; a + 2 \<le> length f; a + 2 \<le> ofs \<or> ofs + 2 \<le> a\<rbrakk>
   \<Longrightarrow> word_at be a (put_be ofs v f) = word_at be a f"
  by (simp add: word_at_def put_be_def)

lemma and_14_bits: "unat v < 2 ^ 14 \<Longrightarrow> v AND 0x3FFF = (v :: u16)"
proof -
  assume "unat v < 2 ^ 14"
  then have "v mod 2 ^ 14 = v" by (simp add: word_unat_eq_iff unat_mod_distrib)
  then have "take_bit 14 v = v" by (simp add: take_bit_eq_mod)
  then show ?thesis by (simp add: take_bit_eq_mask mask_numeral)
qed

lemma wiper_unat: "unat (wiper t) \<le> 16368"
proof -
  have "rnd32 (clamp01 t * 16368) \<le> rnd32 (of_int 16368)"
    by (rule rnd32_mono) (use clamp01_bounds [of t] in simp)
  also have "\<dots> = of_int 16368" by (rule rnd32_of_int) simp
  finally have "round_away (rnd32 (clamp01 t * 16368)) \<le> round_away (of_int 16368)"
    by (rule round_away_mono)
  then have "of_int (round_away (rnd32 (clamp01 t * 16368))) \<le> (16368 :: rat)"
    by (metis of_int_le_iff of_int_numeral round_away_of_int)
  then have "unat (as_u16 (of_int (round_away (rnd32 (clamp01 t * 16368))))) \<le> unat (as_u16 16368)"
    by (rule unat_as_u16_mono)
  also have "\<dots> = 16368" by (simp add: unat_as_u16)
  finally show ?thesis by (simp add: wiper_def TEMPO_TOP_def)
qed

lemma wiper_14_bits [simp]: "wiper t AND 0x3FFF = wiper t"
  using wiper_unat [of t] by (intro and_14_bits) simp

lemma detent_14_bits [simp]: "TEMPO_DETENT AND 0x3FFF = TEMPO_DETENT"
  by (simp add: TEMPO_DETENT_def TEMPO_TOP_def)

text \<open>The six words, before the jog flags and the touch words.\<close>

definition words_1500x :: "panel_state \<Rightarrow> bytes \<Rightarrow> bytes" where
  "words_1500x st f =
     put_be JOG_PERIOD_AT (jog_period (jog_rps (ps_jog st)))
      (put_be JOG_POS_AT (jog_pulses (jog_revs (ps_jog st)))
        (put_be TEMPO_DETENT_AT TEMPO_DETENT
          (put_be TEMPO_AT (wiper (ps_tempo st))
            (put_be BEAT_LOOP_AT (ps_beat_loop st)
              (put_be BROWSE_AT (ps_rotary st) f)))))"

definition flag_byte :: "panel_state \<Rightarrow> u8 \<Rightarrow> u8" where
  "flag_byte st v =
     (let v = (if jog_touched (ps_jog st) then v OR 0x01 else v AND NOT 0x01)
      in if jog_rps (ps_jog st) > 0 then v OR 0x02 else v AND NOT 0x02)"

definition put_touch :: "panel_state \<Rightarrow> bytes \<Rightarrow> bytes" where
  "put_touch st f =
     (case ps_touch st of
        Some (x, y) \<Rightarrow> put_le (TOUCH_AT + 2) y (put_le TOUCH_AT x f)
      | None \<Rightarrow> f)"

lemma length_words_1500x [simp]: "length f = 64 \<Longrightarrow> length (words_1500x st f) = 64"
  by (simp add: words_1500x_def at_defs)

lemma length_put_touch [simp]: "length f = 64 \<Longrightarrow> length (put_touch st f) = 64"
  by (simp add: put_touch_def at_defs split: option.splits prod.splits)

lemma write_fields_1500x_split:
  assumes "length f = 64"
  shows "write_fields_1500x st f =
    Some (put_touch st ((words_1500x st f)[19 := flag_byte st (words_1500x st f ! 19)]))"
proof -
  have "length (words_1500x st f) = 64" using assms by simp
  then show ?thesis
    unfolding write_fields_1500x_def put_tempo_word_def wiper_14_bits detent_14_bits Let_def
      words_1500x_def [symmetric] put_touch_def [symmetric]
    by (simp add: set_bit_def JOG_TOUCH_def JOG_FORWARD_def flag_byte_def Let_def)
qed

lemma flag_byte_bits:
  "flag_byte st v AND 0x01 \<noteq> 0 \<longleftrightarrow> jog_touched (ps_jog st)"
  "flag_byte st v AND 0x02 \<noteq> 0 \<longleftrightarrow> jog_rps (ps_jog st) > 0"
proof -
  have 1: "a AND 0x01 = (0 :: u8) \<longleftrightarrow> \<not> bit a 0" for a
    by (metis and_one_ne_zero)
  have 2: "a AND 0x02 = (0 :: u8) \<longleftrightarrow> \<not> bit a 1" for a
    using bit_iff_and_push_bit_not_eq_0 [of a 1] by simp
  have b: "bit (2 :: u8) n \<longleftrightarrow> n = 1" for n
    using bit_exp_iff [of 1 n, where 'a = u8] by auto
  show "flag_byte st v AND 0x01 \<noteq> 0 \<longleftrightarrow> jog_touched (ps_jog st)"
    "flag_byte st v AND 0x02 \<noteq> 0 \<longleftrightarrow> jog_rps (ps_jog st) > 0"
    by (simp_all add: 1 2 b flag_byte_def Let_def bit_simps)
qed

lemma nth_words_1500x:
  assumes "length f = 64" and "k < 64" and "k \<notin> set field_bytes_1500x"
  shows "words_1500x st f ! k = f ! k"
proof -
  have "k < 4 \<or> 6 \<le> k" "k < 6 \<or> 8 \<le> k" "k < 8 \<or> 10 \<le> k" "k < 12 \<or> 14 \<le> k"
    "k < 14 \<or> 16 \<le> k" "k < 20 \<or> 22 \<le> k"
    using assms(3) by (simp add: field_bytes_1500x_def; presburger)+
  with assms(1,2) show ?thesis by (simp add: words_1500x_def at_defs)
qed

lemma write_fields_1500x_facts:
  assumes f: "length f = 64" and g: "write_fields_1500x st f = Some g"
  shows "length g = 64"
    and "k < 64 \<Longrightarrow> k \<notin> set field_bytes_1500x \<Longrightarrow> g ! k = f ! k"
    and "fields_hold_1500x st g"
proof -
  let ?w = "words_1500x st f"
  have geq: "g = put_touch st (?w[19 := flag_byte st (?w ! 19)])"
    using g write_fields_1500x_split [OF f] by simp
  have w: "length ?w = 64" using f by simp
  show "length g = 64" using geq w by simp
  have touch: "put_touch st h ! k = h ! k" if "length h = 64" "k < 64" "k < 26 \<or> 30 \<le> k" for h k
    using that by (auto simp: put_touch_def at_defs split: option.splits)
  show "g ! k = f ! k" if k: "k < 64" "k \<notin> set field_bytes_1500x"
  proof -
    have "k < 26 \<or> 30 \<le> k" "k \<noteq> 19"
      using k(2) by (simp add: field_bytes_1500x_def; presburger)+
    then show ?thesis
    using k touch [of "?w[19 := flag_byte st (?w ! 19)]" k] w nth_words_1500x [OF f k]
    by (simp add: geq)
  qed
  have wt: "word_at be a (put_touch st h) = word_at be a h" if "length h = 64" "a \<le> 24" for h a be
    using that by (auto simp: put_touch_def at_defs split: option.splits)
  have "g ! 19 = flag_byte st (?w ! 19)" using touch w by (simp add: geq)
  moreover have "word_at True a g = word_at True a ?w" if "a \<in> {4, 6, 8, 12, 14, 20}" for a
    using that w wt by (auto simp: geq)
  moreover have "ps_touch st = Some (x, y) \<Longrightarrow>
      word_at False TOUCH_AT g = x \<and> word_at False (TOUCH_AT + 2) g = y" for x y
    using w by (simp add: geq put_touch_def at_defs)
  ultimately show "fields_hold_1500x st g"
    using f flag_byte_bits by (simp add: fields_hold_1500x_def at_defs words_1500x_def)
qed

section \<open>The contracts\<close>

lemma length_IDLE_1500x [simp]: "length IDLE_1500x = 62"
  by (simp add: IDLE_1500x_def)

lemma encode_1500x_facts:
  assumes enc: "encode_1500x st = Some f"
  defines "low \<equiv> ps_cleared st @ (if ps_power st then [] else [POWER_FLAG])"
  shows length_1500x: "length f = 64"
    and crc_1500x: "crc_ok CRC_AT True f"
    and key_1500x: "k < 62 \<Longrightarrow> k \<noteq> 24 \<Longrightarrow> k \<noteq> 25 \<Longrightarrow> k \<notin> set field_bytes_1500x \<Longrightarrow>
      f ! k = (IDLE_1500x ! k OR mask_at (ps_pressed st) k) AND NOT (mask_at low k)"
    and fields_1500x: "\<forall>(i, m) \<in> set low. i \<notin> set field_bytes_1500x \<Longrightarrow> fields_hold_1500x st f"
proof -
  from enc obtain f1 f2 f3 f4 where f1: "press st (from_idle IDLE_1500x) = Some f1"
    and f2: "write_fields_1500x st f1 = Some f2" and f3: "clear st f2 = Some f3"
    and f4: "foldM (\<lambda>b f. set_bit b False f) (if ps_power st then [] else [POWER_FLAG]) f3 = Some f4"
    and f: "f = stamp_crc CRC_AT True f4"
    unfolding encode_1500x_def by (cases "ps_power st") (auto simp: bind_eq_Some_conv)
  have l1: "length f1 = 64" using press_nth [OF f1] by simp
  note w = write_fields_1500x_facts [OF l1 f2]
  have l3: "length f3 = 64" using clear_nth [OF f3] w(1) by simp
  have l4: "length f4 = 64" using foldM_set_bit [OF f4] l3 by simp
  have low: "f4 ! i = f2 ! i AND NOT (mask_at low i)" if "i < 64" for i
    using foldM_set_bit [OF f4] clear_nth [OF f3] l3 w(1) that
    by (simp add: low_def mask_at_append bit.de_Morgan_disj and.assoc)
  show "length f = 64" using f l4 by (simp add: CRC_AT_def)
  show "crc_ok CRC_AT True f" using f l4 by (simp add: stamp_crc_ok CRC_AT_def)
  show "f ! k = (IDLE_1500x ! k OR mask_at (ps_pressed st) k) AND NOT (mask_at low k)"
    if k: "k < 62" "k \<noteq> 24" "k \<noteq> 25" "k \<notin> set field_bytes_1500x"
  proof -
    have "k < 24 \<or> 26 \<le> k" using k(2,3) by presburger
    then show ?thesis
      using k f l4 low [of k] w(2) [OF _ k(4)] press_nth [OF f1] by (simp add: CRC_AT_def)
  qed
  show "fields_hold_1500x st f" if a: "\<forall>(i, m) \<in> set low. i \<notin> set field_bytes_1500x"
  proof -
    have same: "f ! k = f2 ! k" if k: "k \<in> set field_bytes_1500x" for k
    proof -
      have "mask_at low k = 0" using mask_at_disjoint [of low k "- 1"] a k by fastforce
      moreover have "k < 64 \<and> (k < 24 \<or> 26 \<le> k)" using k by (auto simp: field_bytes_1500x_def)
      ultimately show ?thesis using f l4 low [of k] by (simp add: CRC_AT_def)
    qed
    have word: "word_at be k f = word_at be k f2" if "k \<in> {4, 6, 8, 12, 14, 20, 26, 28}" for be k
      by (rule word_at_cong) (use that same [of k] same [of "Suc k"] f l4 w(1) in
          \<open>auto simp: CRC_AT_def field_bytes_1500x_def\<close>)
    have "f ! 19 = f2 ! 19" by (rule same) (simp add: field_bytes_1500x_def)
    then show ?thesis using w(3) by (simp add: fields_hold_1500x_def at_defs word)
  qed
qed

lemma encode_1500x_total:
  assumes "in_frame st"
  shows "\<exists>f. encode_1500x st = Some f"
proof -
  obtain f where f: "press st (from_idle IDLE_1500x) = Some f"
    using press_total [OF assms] by force
  have lf: "length f = 64" using press_nth [OF f] by simp
  obtain g where g: "write_fields_1500x st f = Some g"
    using write_fields_1500x_split [OF lf] by blast
  have lg: "length g = 64" using write_fields_1500x_facts(1) [OF lf g] .
  obtain h where h: "clear st g = Some h" using clear_total [OF assms lg] by blast
  have "length h = 64" using clear_nth [OF h] lg by simp
  with f g h show ?thesis by (simp add: encode_1500x_def set_bit_def POWER_FLAG_def)
qed

lemma button_1500x_map_of: "button_1500x b = map_of BUTTONS b"
  unfolding button_1500x_def by (rule find_map_of)

lemma button_1500x_mem: "button_1500x b = Some fb \<Longrightarrow> (b, fb) \<in> set BUTTONS"
  unfolding button_1500x_map_of by (rule map_of_SomeD)

lemma BUTTONS_place:
  "\<forall>(b, i, m) \<in> set BUTTONS. i \<in> set [10, 16, 17, 18, 22, 23] \<and> m \<noteq> 0"
  by code_simp

lemma BUTTONS_disjoint:
  "\<forall>(b, i, m) \<in> set BUTTONS. \<forall>(c, j, n) \<in> set BUTTONS. b \<noteq> c \<longrightarrow> i = j \<longrightarrow> m AND n = 0"
  by code_simp

interpretation miso_1500x: miso_codec button_1500x encode_1500x IDLE_1500x "[POWER_FLAG]"
  "[10, 16, 17, 18, 22, 23]" CRC_AT True
proof
  fix st f and i :: nat
  assume f: "encode_1500x st = Some f" and i: "i \<in> set [10, 16, 17, 18, 22, 23]"
  then have "i \<notin> set field_bytes_1500x" "i < 62" "i \<noteq> 24" "i \<noteq> 25"
    by (auto simp: field_bytes_1500x_def)
  then show "f ! i = (IDLE_1500x ! i OR mask_at (ps_pressed st) i)
      AND NOT (mask_at (ps_cleared st @ (if ps_power st then [] else [POWER_FLAG])) i)"
    by (intro key_1500x [OF f])
next
  fix b c i m n
  assume "button_1500x b = Some (i, m)" "button_1500x c = Some (i, n)" "b \<noteq> c"
  then show "m AND n = 0"
    using BUTTONS_disjoint button_1500x_mem [of b "(i, m)"] button_1500x_mem [of c "(i, n)"] by fastforce
next
  fix b i m
  assume "button_1500x b = Some (i, m)"
  then show "i \<in> set [10, 16, 17, 18, 22, 23]" "m \<noteq> 0"
    using BUTTONS_place button_1500x_mem [of b "(i, m)"] by fastforce+
qed (auto simp: CRC_AT_def dest: length_1500x crc_1500x [unfolded CRC_AT_def] intro: encode_1500x_total)

fun wire_footprint :: "wire_1500x \<Rightarrow> frame_bit list" where
  "wire_footprint (V_Bit b) = [b]"
| "wire_footprint (V_Step p) = [(fst p, push_bit (snd p) 3)]"
| "wire_footprint (V_Pad i) = [(fst (pad_field i), push_bit (snd (pad_field i)) 3)]"
| "wire_footprint (V_Rgb ofs) = rgb_footprint ofs"
| "wire_footprint (V_Level ofs) = [(ofs, 0xFF)]"
| "wire_footprint V_Absent = []"

definition footprint_1500x :: "lamp \<Rightarrow> frame_bit list" where
  "footprint_1500x l = wire_footprint (snd (WIRING_1500x ! lamp_index l))"

lemma footprint_1500x_ok: "footprints_ok footprint_1500x"
  by code_simp

lemma drop_and_3: "drop_bit s v AND 3 = drop_bit s (v AND push_bit s 3)" for v :: u8
  by (rule bit_word_eqI) (auto simp: bit_simps dest: bit_imp_le_length)

lemma step_1500x_reads:
  "f ! fst p AND push_bit (snd p) 3 = g ! fst p AND push_bit (snd p) 3 \<Longrightarrow> step_1500x f p = step_1500x g p"
  by (simp add: step_1500x_def drop_and_3)

lemma step_1500x_dark: "f ! fst p AND push_bit (snd p) 3 = 0 \<Longrightarrow> step_1500x f p = SL_Off"
  by (simp add: step_1500x_def drop_and_3)

lemma lamp_1500x_reads:
  assumes "\<And>i m. (i, m) \<in> set (footprint_1500x l) \<Longrightarrow> f ! i AND m = g ! i AND m"
  shows "lamp_1500x f l = lamp_1500x g l"
proof (cases "snd (WIRING_1500x ! lamp_index l)")
  case (V_Bit b)
  then show ?thesis
    using assms [of "fst b" "snd b"] by (simp add: lamp_1500x_def footprint_1500x_def)
next
  case (V_Rgb b)
  then have "lamp_rgb f b = lamp_rgb g b"
    by (intro rgb_reads assms) (simp add: footprint_1500x_def)
  then show ?thesis using V_Rgb by (simp add: lamp_1500x_def lamp_rgb_def)
next
  case (V_Level b)
  then show ?thesis
    using assms [of b "0xFF"] by (simp add: lamp_1500x_def footprint_1500x_def)
next
  case (V_Step p)
  then have "step_1500x f p = step_1500x g p"
    by (intro step_1500x_reads assms) (simp add: footprint_1500x_def)
  then show ?thesis using V_Step by (simp add: lamp_1500x_def)
next
  case (V_Pad i)
  then have "step_1500x f (pad_field i) = step_1500x g (pad_field i)"
    by (intro step_1500x_reads assms) (simp add: footprint_1500x_def)
  then show ?thesis using V_Pad by (simp add: lamp_1500x_def)
qed (simp add: lamp_1500x_def)

lemma lamp_1500x_dark:
  assumes "lamp_1500x f l = Some s"
    and "\<And>i m. (i, m) \<in> set (footprint_1500x l) \<Longrightarrow> f ! i AND m = 0"
  shows "drive s = 0"
proof (cases "snd (WIRING_1500x ! lamp_index l)")
  case (V_Bit b)
  then show ?thesis
    using assms(1) assms(2) [of "fst b" "snd b"] by (auto simp: lamp_1500x_def footprint_1500x_def)
next
  case (V_Rgb b)
  then have "drive (lamp_rgb f b) = 0"
    by (intro rgb_dark assms(2)) (simp add: footprint_1500x_def)
  then show ?thesis using V_Rgb assms(1) by (auto simp: lamp_1500x_def lamp_rgb_def)
next
  case (V_Level b)
  then show ?thesis
    using assms(1) assms(2) [of b "0xFF"] by (auto simp: lamp_1500x_def footprint_1500x_def)
qed (use assms in \<open>auto simp: lamp_1500x_def footprint_1500x_def step_1500x_dark\<close>)

lemma lamp_1500x_present: "lamp_1500x f l = None \<longleftrightarrow> footprint_1500x l = []"
  by (auto simp: lamp_1500x_def footprint_1500x_def rgb_footprint_def split: wire_1500x.splits)

interpretation mosi_1500x: mosi_codec lamp_1500x footprint_1500x
proof
  fix l i m assume "(i, m) \<in> set (footprint_1500x l)"
  then show "i < MOSI_SIZE" by (rule footprints_ok_in_frame [OF footprint_1500x_ok])
next
  fix k l i m n
  assume "k \<noteq> l" "(i, m) \<in> set (footprint_1500x k)" "(i, n) \<in> set (footprint_1500x l)"
  then show "m AND n = 0" by (rule footprints_ok_disjoint [OF footprint_1500x_ok])
qed (fact lamp_1500x_present lamp_1500x_reads lamp_1500x_dark)+

section \<open>The tempo wiper and the jog period\<close>

lemma wiper_mono: "s \<le> t \<Longrightarrow> unat (wiper s) \<le> unat (wiper t)"
  unfolding wiper_def
  by (intro unat_as_u16_mono of_int_le_iff [THEN iffD2] round_away_mono rnd32_mono mult_right_mono
      clamp01_mono) (simp_all add: TEMPO_TOP_def)

lemma jog_pulses_per_rev: "JOG_PULSES_PER_REV = 720"
  by code_simp

lemma jog_period_antimono:
  assumes "\<bar>a\<bar> \<le> \<bar>b\<bar>"
  shows "unat (jog_period b) \<le> unat (jog_period a)"
proof -
  let ?d = "\<lambda>r. rnd64 (720 * \<bar>r\<bar>)"
  have d: "0 \<le> ?d a" "?d a \<le> ?d b"
    using rnd64_mono [of 0 "720 * \<bar>a\<bar>"] rnd64_mono [of "720 * \<bar>a\<bar>" "720 * \<bar>b\<bar>"] assms
    by (simp_all add: rnd64_def)
  have top: "unat v \<le> 65535" for v :: u16 using unsigned_less [of v, where 'a = nat] by simp
  show ?thesis
  proof (cases "?d a = 0")
    case True
    then show ?thesis using top by (simp add: jog_period_def jog_pulses_per_rev JOG_STOPPED_def)
  next
    case False
    with d have pos: "0 < ?d a" "0 < ?d b" by auto
    then have us: "rnd64 (1000000 / ?d b) \<le> rnd64 (1000000 / ?d a)"
      by (intro rnd64_mono divide_left_mono d(2) mult_pos_pos) simp_all
    have "unat (as_u16 (of_int (round_away (rnd64 (1000000 / ?d b)))))
        \<le> unat (as_u16 (of_int (round_away (rnd64 (1000000 / ?d a)))))"
      by (intro unat_as_u16_mono of_int_le_iff [THEN iffD2] round_away_mono us)
    with us pos top show ?thesis
      by (auto simp: jog_period_def jog_pulses_per_rev JOG_STOPPED_def Let_def)
  qed
qed

section \<open>Properties\<close>

text \<open>The CDJ-1500X's tempo wiper word is monotone in the fader travel, stays inside its 14
  bits and meets the deck's scale: 0 at the start, the detent reading at half travel and
  \<open>TEMPO_TOP\<close> at the end.\<close>

theorem wiper_scale:
  assumes "s \<le> t"
  shows "unat (wiper s) \<le> unat (wiper t) \<and> unat (wiper t) \<le> unat TEMPO_TOP \<and>
    wiper 0 = 0 \<and> wiper (1 / 2) = TEMPO_DETENT \<and> wiper 1 = TEMPO_TOP"
proof -
  have "rnd32 8184 = 8184" "rnd32 16368 = 16368"
    using rnd32_of_int [of 8184] rnd32_of_int [of 16368] by simp_all
  moreover have "round_away 8184 = 8184" "round_away 16368 = 16368" "round_away 0 = 0"
    using round_away_of_int [of 8184] round_away_of_int [of 16368] round_away_of_int [of 0] by simp_all
  moreover have "trunc 8184 = 8184" "trunc 16368 = 16368"
    using trunc_of_int [of 8184] trunc_of_int [of 16368] by simp_all
  ultimately have "wiper 0 = 0 \<and> wiper (1 / 2) = TEMPO_DETENT \<and> wiper 1 = TEMPO_TOP"
    by (simp add: wiper_def clamp01_def TEMPO_TOP_def TEMPO_DETENT_def as_u16_def rnd32_def)
  then show ?thesis
    using wiper_mono [OF assms] wiper_unat [of t] by (simp add: TEMPO_TOP_def)
qed

theorem wiper_scale_witness: "unat (wiper (1 / 4)) \<le> unat (wiper (3 / 4))"
  using wiper_scale [of "1 / 4" "3 / 4"] by simp

text \<open>The faster the platter turns, in either direction, the shorter (or equal) the pulse
  period the CDJ-1500X's frame carries; a platter at rest sends \<open>0xFFFF\<close>.\<close>

theorem jog_period_order:
  assumes "\<bar>a\<bar> \<le> \<bar>b\<bar>"
  shows "unat (jog_period b) \<le> unat (jog_period a) \<and> jog_period (- a) = jog_period a \<and>
    jog_period 0 = JOG_STOPPED"
  using jog_period_antimono [OF assms] by (simp add: jog_period_def rnd64_def)

theorem jog_period_order_witness: "unat (jog_period (-3)) \<le> unat (jog_period 2)"
  using jog_period_order [of 2 "-3"] by simp

text \<open>The jog ring decodes exactly the 36 positions from \<open>0x29\<close>, the all-on value \<open>0x63\<close>, and
  everything else as off; distinct position values show distinct positions.\<close>

theorem jog_ring_positions:
  "(jog_ring v = JR_At p \<longleftrightarrow> unat p < 36 \<and> v = 0x29 + p) \<and> (jog_ring v = JR_All \<longleftrightarrow> v = 0x63)"
proof -
  have r: "0x29 \<le> v \<and> v < 0x4D \<longleftrightarrow> unat (v - 0x29) < 36" for v :: u8
    by (auto simp: word_le_nat_alt word_less_nat_alt unat_sub_if')
  have "0x63 - 0x29 = (58 :: u8)" by simp
  then show ?thesis
    using r [of v] r [of "0x29 + p"]
    by (auto simp: jog_ring_def JOG_RING_ALL_def JOG_RING_FIRST_def JOG_RING_POSITIONS_def)
qed

end
