(* ===== verification/PanelModel.thy ===== *)
theory PanelModel
  imports Cdj3kx Cdj1500x
begin

text \<open>
  The players of \<open>crates/cdj3k-emu-panel/src/model.rs\<close> and \<open>spec.rs\<close>: the per-model record with
  its two codecs, the lookup by user spelling and by firmware file name, button resolution,
  frame encoding and touch words. The properties of the panel are stated here once for every
  player, through the interpretations of the two codec contracts. The LED colour profiles of
  the records are left out with the colour pipeline.
\<close>

section \<open>Model specifications\<close>

definition TOUCH_FRAME_RANGE :: f32 where "TOUCH_FRAME_RANGE = 1000"
definition TOUCH_DOWN :: u16 where "TOUCH_DOWN = 0x8000"

datatype jog_brake = Adjustable | Fixed f32

record controls =
  beat_loop_encoder :: bool
  direction_lever :: bool
  vinyl_speed_knob :: bool

datatype touch_space = SubCpu u16 | ScreenPixels

record model_spec =
  title :: string
  slug :: string
  aliases :: "string list"
  main_lcd :: "u32 \<times> u32"
  touch_in :: touch_space
  model_env :: string
  emmc_index :: u32
  system_rev_env :: "string option"
  firmware_file_names :: "string list"
  spec_button :: "btn \<Rightarrow> frame_bit option"
  spec_encode :: "panel_state \<Rightarrow> bytes option"
  spec_lamp :: lamp_codec
  brake :: jog_brake
  spec_controls :: controls

definition touch_units :: "model_spec \<Rightarrow> f32 \<Rightarrow> f32 \<Rightarrow> u16 \<times> u16" where
  "touch_units spec fx fy =
     (let fx = clamp01 fx; fy = clamp01 fy
      in case touch_in spec of
           SubCpu rg \<Rightarrow>
             (let r = of_int (uint rg)
              in (as_u16 (rnd32 (r - rnd32 (fx * r))), as_u16 (rnd32 (fy * r))))
         | ScreenPixels \<Rightarrow>
             (case main_lcd spec of (w, h) \<Rightarrow>
                (as_u16 (rnd32 (fx * rnd32 (of_int (uint (w - 1))))) OR TOUCH_DOWN,
                 as_u16 (rnd32 (fy * rnd32 (of_int (uint (h - 1))))))))"

definition SPEC_3k :: model_spec where
  "SPEC_3k =
     \<lparr>title = ''CDJ-3000'', slug = ''cdj3k'', aliases = [''3000'', ''3k''], main_lcd = (1280, 720),
      touch_in = SubCpu (as_u16 TOUCH_FRAME_RANGE), model_env = ''CDJ3K-RK3399'', emmc_index = 1,
      system_rev_env = Some ''rev_kernel'', firmware_file_names = [''CDJ3K''],
      spec_button = button_3k, spec_encode = encode_3k, spec_lamp = map_lamp MOSI_3k,
      brake = Adjustable,
      spec_controls =
        \<lparr>beat_loop_encoder = False, direction_lever = True, vinyl_speed_knob = True\<rparr>\<rparr>"

definition SPEC_3kx :: model_spec where
  "SPEC_3kx =
     \<lparr>title = ''CDJ-3000X'', slug = ''cdj3kx'', aliases = [''3000x'', ''3kx''], main_lcd = (1280, 800),
      touch_in = ScreenPixels, model_env = ''CDJ3000X'', emmc_index = 1,
      system_rev_env = Some ''rev_system'', firmware_file_names = [''CDJ3000X''],
      spec_button = button_3kx, spec_encode = encode_3kx, spec_lamp = map_lamp MOSI_3kx,
      brake = Adjustable,
      spec_controls =
        \<lparr>beat_loop_encoder = False, direction_lever = True, vinyl_speed_knob = True\<rparr>\<rparr>"

text \<open>\<open>0.125 * JOG_SPEED_PER_TURN as f32 / 1.5\<close>, each operation rounded to \<open>f32\<close>.\<close>

definition JOG_STOP_SECS :: f32 where
  "JOG_STOP_SECS = rnd32 (rnd32 (rnd32 (125 / 1000) * rnd32 JOG_SPEED_PER_TURN) / rnd32 (15 / 10))"

definition SPEC_1500x :: model_spec where
  "SPEC_1500x =
     \<lparr>title = ''CDJ-1500X'', slug = ''cdj1500x'', aliases = [''1500x'', ''1k5x''],
      main_lcd = (1280, 800), touch_in = ScreenPixels,
      model_env = ''6516d11b-fad9-4f28-9a01-fd2af5e1ef40'', emmc_index = 0, system_rev_env = None,
      firmware_file_names = [''CDJ1500X'', ''EP166''],
      spec_button = button_1500x, spec_encode = encode_1500x, spec_lamp = lamp_1500x,
      brake = Fixed JOG_STOP_SECS,
      spec_controls =
        \<lparr>beat_loop_encoder = True, direction_lever = False, vinyl_speed_knob = False\<rparr>\<rparr>"

lemmas SPEC_defs = SPEC_3k_def SPEC_3kx_def SPEC_1500x_def

section \<open>Models\<close>

datatype model = Cdj3k | Cdj3kx | Cdj1500x

definition MODEL_ALL :: "model list" where
  "MODEL_ALL = [Cdj3k, Cdj3kx, Cdj1500x]"

primrec spec :: "model \<Rightarrow> model_spec" where
  "spec Cdj3k = SPEC_3k"
| "spec Cdj3kx = SPEC_3kx"
| "spec Cdj1500x = SPEC_1500x"

definition firmware_stem :: "string \<Rightarrow> string" where
  "firmware_stem name =
     (let stem = last (split_by (\<lambda>c. c = CHR ''/'' \<or> c = CHR 0x5C) name);
          stem = (case rsplit_once (\<lambda>c. c = CHR ''.'') stem of None \<Rightarrow> stem | Some (s, _) \<Rightarrow> s);
          stem = trim_end_by (\<lambda>c. is_digit c \<or> c = CHR ''.'') stem
      in if stem \<noteq> [] \<and> last stem \<in> set ''vV_'' then butlast stem else stem)"

definition from_firmware_file_name :: "string \<Rightarrow> model option" where
  "from_firmware_file_name name =
     (let stem = firmware_stem name
      in find (\<lambda>m. list_ex (\<lambda>n. eq_ignore_ascii_case n stem) (firmware_file_names (spec m))) MODEL_ALL)"

definition model_touch_units :: "model \<Rightarrow> f32 \<Rightarrow> f32 \<Rightarrow> u16 \<times> u16" where
  "model_touch_units m fx fy = touch_units (spec m) fx fy"

definition model_button :: "model \<Rightarrow> btn \<Rightarrow> frame_bit option" where
  "model_button m b = spec_button (spec m) b"

definition button_by_name :: "model \<Rightarrow> string \<Rightarrow> frame_bit option" where
  "button_by_name m name =
     (case raw_bit name of
        Some fb \<Rightarrow> Some fb
      | None \<Rightarrow> Option.bind (btn_from_name name) (model_button m))"

definition model_encode :: "model \<Rightarrow> panel_state \<Rightarrow> bytes option" where
  "model_encode m st = spec_encode (spec m) st"

definition model_mosi_frame :: "model \<Rightarrow> bytes \<Rightarrow> mosi_frame" where
  "model_mosi_frame m bs = \<lparr>mf_bytes = bs, mf_codec = spec_lamp (spec m)\<rparr>"

definition model_parse :: "string \<Rightarrow> model option" where
  "model_parse s =
     (let s = to_ascii_lowercase (trim s)
      in case find (\<lambda>m. slug (spec m) = s) MODEL_ALL of
           Some m \<Rightarrow> Some m
         | None \<Rightarrow>
             (let s = (case strip_prefix ''cdj'' s of None \<Rightarrow> s | Some r \<Rightarrow> r);
                  s = (case strip_prefix ''-'' s of None \<Rightarrow> s | Some r \<Rightarrow> r)
              in find (\<lambda>m. s \<in> set (aliases (spec m))) MODEL_ALL))"

section \<open>Where each player keeps its switches and checksum\<close>

primrec idle_of :: "model \<Rightarrow> bytes" where
  "idle_of Cdj3k = IDLE_3k"
| "idle_of Cdj3kx = IDLE_3kx"
| "idle_of Cdj1500x = IDLE_1500x"

primrec crc_at :: "model \<Rightarrow> nat" where
  "crc_at Cdj3k = 62"
| "crc_at Cdj3kx = 62"
| "crc_at Cdj1500x = CRC_AT"

primrec crc_be :: "model \<Rightarrow> bool" where
  "crc_be Cdj3k = False"
| "crc_be Cdj3kx = False"
| "crc_be Cdj1500x = True"

primrec off_bits :: "model \<Rightarrow> frame_bit list" where
  "off_bits Cdj3k = [POWER_ON]"
| "off_bits Cdj3kx = [POWER_ON_SHIFTED, POWER_ON]"
| "off_bits Cdj1500x = [POWER_FLAG]"

primrec key_bytes :: "model \<Rightarrow> nat list" where
  "key_bytes Cdj3k = [5..<13]"
| "key_bytes Cdj3kx = [9..<17]"
| "key_bytes Cdj1500x = [10, 16, 17, 18, 22, 23]"

primrec footprint_of :: "model \<Rightarrow> lamp \<Rightarrow> frame_bit list" where
  "footprint_of Cdj3k = map_footprint MOSI_3k"
| "footprint_of Cdj3kx = map_footprint MOSI_3kx"
| "footprint_of Cdj1500x = footprint_1500x"

lemma model_codecs:
  "model_button Cdj3k = button_3k" "model_button Cdj3kx = button_3kx"
  "model_button Cdj1500x = button_1500x" "model_encode Cdj3k = encode_3k"
  "model_encode Cdj3kx = encode_3kx" "model_encode Cdj1500x = encode_1500x"
  by (simp_all add: fun_eq_iff model_button_def model_encode_def SPEC_defs)

interpretation miso: miso_codec "model_button m" "model_encode m" "idle_of m" "off_bits m"
  "key_bytes m" "crc_at m" "crc_be m" for m
  by (cases m) (simp_all only: idle_of.simps off_bits.simps key_bytes.simps crc_at.simps
      crc_be.simps model_codecs miso_3k.miso_codec_axioms miso_3kx.miso_codec_axioms
      miso_1500x.miso_codec_axioms)

interpretation mosi: mosi_codec "spec_lamp (spec m)" "footprint_of m" for m
proof (cases m)
  case Cdj3k
  then show "mosi_codec (spec_lamp (spec m)) (footprint_of m)"
    using mosi_3k.mosi_codec_axioms by (simp add: SPEC_defs)
next
  case Cdj3kx
  then show "mosi_codec (spec_lamp (spec m)) (footprint_of m)"
    using mosi_3kx.mosi_codec_axioms by (simp add: SPEC_defs)
next
  case Cdj1500x
  then show "mosi_codec (spec_lamp (spec m)) (footprint_of m)"
    using mosi_1500x.mosi_codec_axioms by (simp add: SPEC_defs)
qed

section \<open>Lookup lemmas\<close>

lemma crc_16_fits: "crc_at m \<le> 62"
  by (cases m) (simp_all add: CRC_AT_def)

lemma button_by_name_in_frame: "button_by_name m name = Some (i, k) \<Longrightarrow> i < 62"
  using raw_bit_in_frame [of name i k] miso.button_key miso.key_covered crc_16_fits [of m]
  by (auto simp: button_by_name_def bind_eq_Some_conv split: option.splits
      dest!: miso.button_key miso.key_covered)

section \<open>Properties of the control frame\<close>

text \<open>C27: for every player and every panel state whose frame bits were resolved by
  \<open>button_by_name\<close> (a button name or a raw bit), the encoder does not panic and yields a
  64-byte frame whose checksum the deck accepts.\<close>

theorem named_state_encodes:
  assumes "\<forall>fb \<in> set (ps_pressed st) \<union> set (ps_cleared st). \<exists>name. button_by_name m name = Some fb"
  shows "\<exists>f. model_encode m st = Some f \<and> length f = MISO_SIZE \<and> crc_ok (crc_at m) (crc_be m) f"
proof -
  have "i < MISO_SIZE" if fb: "(i, k) \<in> set (ps_pressed st) \<union> set (ps_cleared st)" for i k
  proof -
    from fb assms obtain name where "button_by_name m name = Some (i, k)" by blast
    then have "i < 62" by (rule button_by_name_in_frame)
    then show ?thesis by (simp add: MISO_SIZE_def)
  qed
  then have "in_frame st" unfolding in_frame_def by auto
  then obtain f where "model_encode m st = Some f" using miso.encode_total by blast
  then show ?thesis using miso.encode_length miso.encode_crc by (auto simp: MISO_SIZE_def)
qed

definition play_held :: "model \<Rightarrow> panel_state" where
  "play_held m = at_rest\<lparr>ps_pressed := List.map_filter (model_button m) [B_Play]\<rparr>"

lemma play_names: "button_by_name Cdj3k ''play'' = Some (5, 0x01)"
  "List.map_filter (model_button Cdj3k) [B_Play] = [(5, 0x01)]"
  "List.map_filter (model_button Cdj1500x) [B_Play] = [(16, 0x40)]"
  by code_simp+

theorem named_state_encodes_witness:
  "\<exists>f. model_encode Cdj3k (play_held Cdj3k) = Some f \<and> length f = MISO_SIZE \<and> crc_ok 62 False f"
  using named_state_encodes [of "play_held Cdj3k" Cdj3k] play_names
  by (force simp: play_held_def at_rest_def)

text \<open>C1: what the deck reads is what the user holds. For a state that presses the buttons of a
  list, a button whose bit is low at rest shows in the encoded frame if and only if it is in
  the list, on every player.\<close>

theorem held_buttons_round_trip:
  assumes "model_encode m st = Some f" and "ps_pressed st = List.map_filter (model_button m) bs"
    and "ps_cleared st = []" and "ps_power st"
    and "model_button m b = Some (i, k)" and "idle_of m ! i AND k = 0"
  shows "f ! i AND k = k \<longleftrightarrow> b \<in> set bs"
  using assms by (rule miso.held_iff)

lemma play_held_encodes: "\<exists>f. model_encode m (play_held m) = Some f"
proof (rule miso.encode_total)
  show "in_frame (play_held m)"
    using miso.button_in_frame [of m]
    by (auto simp: in_frame_def MISO_SIZE_def play_held_def at_rest_def List.map_filter_def)
qed

theorem held_buttons_round_trip_witness:
  "\<exists>f. model_encode Cdj1500x (play_held Cdj1500x) = Some f \<and>
     f ! 16 AND 0x40 = 0x40 \<and> f ! 16 AND 0x80 \<noteq> 0x80"
proof -
  obtain f where f: "model_encode Cdj1500x (play_held Cdj1500x) = Some f"
    using play_held_encodes by blast
  have b: "model_button Cdj1500x B_Play = Some (16, 0x40)" "model_button Cdj1500x B_Cue = Some (16, 0x80)"
    "idle_of Cdj1500x ! 16 AND 0x40 = 0" "idle_of Cdj1500x ! 16 AND 0x80 = 0"
    by code_simp+
  have st: "ps_pressed (play_held Cdj1500x) = List.map_filter (model_button Cdj1500x) [B_Play]"
    "ps_cleared (play_held Cdj1500x) = []" "ps_power (play_held Cdj1500x)"
    by (simp_all add: play_held_def at_rest_def)
  show ?thesis
    using f held_buttons_round_trip [OF f st b(1,3)] held_buttons_round_trip [OF f st b(2,4)] by auto
qed



text \<open>A state with the power off leaves every power bit of the player low, whatever else is
  pressed; on the CDJ-3000X both the shifted flag and the CDJ-3000's are low.\<close>

theorem power_off_clears:
  assumes "model_encode m st = Some f" and "\<not> ps_power st" and "(i, k) \<in> set (off_bits m)"
  shows "f ! i AND k = 0"
proof -
  have mask: "mask_at (ps_cleared st @ (if ps_power st then [] else off_bits m)) i AND k = k"
    using assms(2,3) by (intro mask_at_member) auto
  have "f ! i = (idle_of m ! i OR mask_at (ps_pressed st) i)
      AND NOT (mask_at (ps_cleared st @ (if ps_power st then [] else off_bits m)) i)"
  proof (cases "m = Cdj1500x")
    case True
    then show ?thesis
      using assms(1,3) key_1500x [of st f i]
      by (simp add: model_codecs POWER_FLAG_def field_bytes_1500x_def)
  next
    case False
    then have "i \<in> set (key_bytes m)"
      using assms(3) by (cases m) (auto simp: POWER_ON_def POWER_ON_SHIFTED_def MISO_SHIFT_def)
    then show ?thesis by (rule miso.encode_key [OF assms(1)])
  qed
  then show ?thesis using mask by (simp only: and_not_absorb)
qed

theorem power_off_clears_witness:
  "\<exists>f. model_encode Cdj3kx (at_rest\<lparr>ps_power := False\<rparr>) = Some f \<and> f ! 12 AND 0x80 = 0"
proof -
  have "in_frame (at_rest\<lparr>ps_power := False\<rparr>)" by (simp add: in_frame_def at_rest_def)
  then obtain f where f: "model_encode Cdj3kx (at_rest\<lparr>ps_power := False\<rparr>) = Some f"
    using miso.encode_total by blast
  then show ?thesis
    using power_off_clears [OF f, of 12 "0x80"] by (simp add: POWER_ON_def)
qed

text \<open>C28: on the two RK3399 decks the frame carries the direction, jog, rotary, tempo, vinyl and
  touch fields of the state at the documented offsets, the CDJ-3000X four bytes later, even if
  raw bits in those bytes are pressed.\<close>

theorem analog_fields_hold:
  assumes "encode_3k st = Some f" and "encode_3kx st = Some g" and "ps_cleared st = []"
  shows "fields_hold st 0 f \<and> fields_hold st MISO_SHIFT g"
proof
  show "fields_hold st 0 f"
    using assms(1,3) family_fields [OF length_IDLE_3k le0] unfolding encode_3k_family
    by (auto simp: POWER_ON_def field_bytes_def split: if_splits)
  show "fields_hold st MISO_SHIFT g"
    using assms(2,3) family_fields [OF length_IDLE_3kx MISO_SHIFT_le] unfolding encode_3kx_family
    by (auto simp: POWER_ON_def POWER_ON_SHIFTED_def MISO_SHIFT_def field_bytes_def split: if_splits)
qed

theorem analog_fields_hold_witness:
  "\<exists>f g. encode_3k at_rest = Some f \<and> encode_3kx at_rest = Some g \<and>
     word_at False 14 f = 0xFFFF \<and> word_at False 18 g = 0xFFFF"
proof -
  have "in_frame at_rest" "ps_cleared at_rest = []" by (simp_all add: in_frame_def at_rest_def)
  then obtain f g where "encode_3k at_rest = Some f" "encode_3kx at_rest = Some g"
    using miso_3k.encode_total miso_3kx.encode_total by blast
  with analog_fields_hold [OF this] show ?thesis
    by (auto simp: fields_hold_def at_rest_def ROTARY_IDLE_def MISO_SHIFT_def FIELD_ROTARY_def)
qed

text \<open>C29: the CDJ-1500X's frame carries both encoder counters, the tempo wiper and detent, the jog
  counter, period, touch and direction flags and the touch words of the state.\<close>

theorem analog_fields_1500x_hold:
  assumes "encode_1500x st = Some f" and "ps_cleared st = []"
  shows "fields_hold_1500x st f"
  by (rule fields_1500x [OF assms(1)]) (auto simp: assms(2) POWER_FLAG_def field_bytes_1500x_def)

theorem analog_fields_1500x_hold_witness:
  "\<exists>f. encode_1500x at_rest = Some f \<and> word_at True 20 f = 0xFFFF \<and> word_at True 6 f = TEMPO_DETENT"
proof -
  have "in_frame at_rest" "ps_cleared at_rest = []" by (simp_all add: in_frame_def at_rest_def)
  then obtain f where "encode_1500x at_rest = Some f" using encode_1500x_total by blast
  with analog_fields_1500x_hold [OF this] show ?thesis
    by (auto simp: fields_hold_1500x_def at_rest_def ROTARY_IDLE_def BROWSE_AT_def TEMPO_DETENT_AT_def)
qed

section \<open>Properties of the lamp frame\<close>

text \<open>C30: on every player, rewriting the bits of one lamp leaves what every other lamp reads
  unchanged: no two lamps share a frame bit.\<close>

theorem lamps_independent:
  assumes "length f = MOSI_SIZE" and "(i, k) \<in> set (footprint_of m l)" and "l \<noteq> l'"
  shows "frame_lamp (model_mosi_frame m (f[i := (f ! i AND NOT k) OR (v AND k)])) l' =
    frame_lamp (model_mosi_frame m f) l'"
  using mosi.other_lamps_kept [OF assms] by (simp add: frame_lamp_def model_mosi_frame_def)

theorem lamps_independent_witness:
  "frame_lamp (model_mosi_frame Cdj1500x ((replicate 64 0)[1 := (replicate 64 0 ! 1 AND NOT 0xC0) OR (0xFF AND 0xC0)]))
     L_HotB = frame_lamp (model_mosi_frame Cdj1500x (replicate 64 0)) L_HotB"
proof -
  have "(1, 0xC0) \<in> set (footprint_of Cdj1500x L_HotA)" by code_simp
  then show ?thesis
    by (rule lamps_independent [rotated]) (simp_all add: MOSI_SIZE_def)
qed

text \<open>A lamp is reported only on a player that has it, and it is lit, or stepped above off,
  only if one of its own frame bits is set.\<close>

theorem lamp_needs_a_bit:
  "(frame_lamp (model_mosi_frame m f) l = None \<longleftrightarrow> footprint_of m l = []) \<and>
   (frame_lit (model_mosi_frame m f) l = (frame_step (model_mosi_frame m f) l \<noteq> SL_Off)) \<and>
   (frame_lit (model_mosi_frame m f) l \<longrightarrow> (\<exists>(i, k) \<in> set (footprint_of m l). f ! i AND k \<noteq> 0))"
  using mosi.present [of m f l] mosi.unlit_when_dark [of m l f] lit_iff_step
  by (fastforce simp: frame_lamp_def model_mosi_frame_def)

theorem lamp_needs_a_bit_witness:
  "frame_lit (model_mosi_frame Cdj1500x ((replicate 64 0)[0 := 0x40])) L_Play \<and>
   (\<exists>(i, k) \<in> set (footprint_of Cdj1500x L_Play). ((replicate 64 0)[0 := 0x40] :: bytes) ! i AND k \<noteq> 0)"
proof -
  have "frame_lit (model_mosi_frame Cdj1500x ((replicate 64 0)[0 := 0x40])) L_Play" by code_simp
  then show ?thesis using lamp_needs_a_bit [of Cdj1500x "(replicate 64 0)[0 := 0x40]" L_Play] by blast
qed

section \<open>Properties of model lookup and touch\<close>

lemma alias_prefix: "a \<in> set (aliases (spec m)) \<Longrightarrow> strip_prefix ''cdj'' a = None \<and> strip_prefix ''-'' a = None"
  by (cases m) (auto simp: SPEC_defs)

lemma alias_slug: "\<exists>a \<in> set (aliases (spec m)). slug (spec m) = ''cdj'' @ a"
  by (cases m) (simp_all add: SPEC_defs)

lemma alias_unique: "a \<in> set (aliases (spec m)) \<Longrightarrow> a \<in> set (aliases (spec n)) \<Longrightarrow> m = n"
  by (cases m; cases n) (auto simp: SPEC_defs)

definition bare :: "string \<Rightarrow> string" where
  "bare s =
     (let s = (case strip_prefix ''cdj'' s of None \<Rightarrow> s | Some r \<Rightarrow> r)
      in case strip_prefix ''-'' s of None \<Rightarrow> s | Some r \<Rightarrow> r)"

lemma bare_iff:
  assumes "strip_prefix ''cdj'' a = None" and "strip_prefix ''-'' a = None"
  shows "bare s = a \<longleftrightarrow> s \<in> {a, ''cdj'' @ a, ''-'' @ a, ''cdj-'' @ a}"
proof -
  have c: "strip_prefix ''cdj'' (''-'' @ a) = None" by simp
  show ?thesis
    unfolding bare_def Let_def strip_prefix_default [OF assms(2)] strip_prefix_default [OF assms(1)]
      strip_prefix_default [OF c] by auto
qed

lemma find_model: "(\<And>x. P x \<longleftrightarrow> x = n) \<Longrightarrow> find P MODEL_ALL = Some n"
  by (cases n) (auto simp: MODEL_ALL_def)

text \<open>A spelling names a model exactly if, trimmed and in lower case, it is one of the model's
  aliases bare, with a dash, or behind \<open>cdj\<close> or \<open>cdj-\<close>; the slug is one of these. In particular
  no spelling names two models.\<close>

theorem parse_spellings:
  "(model_parse s = Some m \<longleftrightarrow>
     (\<exists>a \<in> set (aliases (spec m)). to_ascii_lowercase (trim s) \<in> {a, ''cdj'' @ a, ''-'' @ a, ''cdj-'' @ a})) \<and>
   (\<exists>a \<in> set (aliases (spec m)). slug (spec m) = ''cdj'' @ a)"
proof
  let ?t = "to_ascii_lowercase (trim s)"
  let ?forms = "\<lambda>a. {a, ''cdj'' @ a, ''-'' @ a, ''cdj-'' @ a}"
  have one: "bare ?t = a \<longleftrightarrow> ?t \<in> ?forms a" if "a \<in> set (aliases (spec n))" for a n
    using alias_prefix [OF that] by (intro bare_iff) (rule conjunct1 conjunct2, assumption)+
  have als: "bare ?t \<in> set (aliases (spec n)) \<longleftrightarrow> (\<exists>a \<in> set (aliases (spec n)). ?t \<in> ?forms a)" for n
    using one by (metis (no_types, lifting))
  have slug: "bare ?t \<in> set (aliases (spec n))" if "slug (spec n) = ?t" for n
    unfolding als using alias_slug [of n] that by (metis insertI1 insertI2)
  have find: "find (\<lambda>m. bare ?t \<in> set (aliases (spec m))) MODEL_ALL = Some n
      \<longleftrightarrow> bare ?t \<in> set (aliases (spec n))" for n
    using find_model [of "\<lambda>m. bare ?t \<in> set (aliases (spec m))" n] alias_unique [of "bare ?t"]
    unfolding find_Some_iff by blast
  have "model_parse s = find (\<lambda>m. bare ?t \<in> set (aliases (spec m))) MODEL_ALL"
  proof (cases "find (\<lambda>m. slug (spec m) = ?t) MODEL_ALL")
    case None
    then show ?thesis by (simp add: model_parse_def bare_def Let_def)
  next
    case (Some n)
    then have "slug (spec n) = ?t" unfolding find_Some_iff by blast
    then have "find (\<lambda>m. bare ?t \<in> set (aliases (spec m))) MODEL_ALL = Some n"
      unfolding find by (rule slug)
    with Some show ?thesis by (simp add: model_parse_def Let_def)
  qed
  then show "model_parse s = Some m \<longleftrightarrow>
     (\<exists>a \<in> set (aliases (spec m)). ?t \<in> {a, ''cdj'' @ a, ''-'' @ a, ''cdj-'' @ a})"
    using find als by simp
  show "\<exists>a \<in> set (aliases (spec m)). slug (spec m) = ''cdj'' @ a" by (rule alias_slug)
qed

lemma as_u16_le:
  assumes "x \<le> of_int n" and "0 \<le> n" and "n < 65536"
  shows "unat (as_u16 x) \<le> nat n"
proof -
  have "unat (as_u16 x) \<le> unat (as_u16 (of_int n))" using assms(1) by (rule unat_as_u16_mono)
  also have "\<dots> = nat n" using assms(2,3) by (auto simp: unat_as_u16)
  finally show ?thesis .
qed

lemma scaled_le:
  assumes "0 \<le> n" and "n < 65536"
  shows "unat (as_u16 (rnd32 (clamp01 t * of_int n))) \<le> nat n"
proof (rule as_u16_le [OF _ assms])
  have "rnd32 (clamp01 t * of_int n) \<le> rnd32 (of_int n)"
    using clamp01_bounds [of t] assms by (intro rnd32_mono mult_left_le_one_le) simp_all
  also have "\<dots> = of_int n" using assms by (intro rnd32_of_int) simp
  finally show "rnd32 (clamp01 t * of_int n) \<le> of_int n" .
qed

lemma mirrored_le:
  assumes "0 \<le> n" and "n < 65536"
  shows "unat (as_u16 (rnd32 (of_int n - rnd32 (clamp01 t * of_int n)))) \<le> nat n"
proof (rule as_u16_le [OF _ assms])
  have "rnd32 0 \<le> rnd32 (clamp01 t * of_int n)"
    using clamp01_bounds [of t] assms by (intro rnd32_mono mult_nonneg_nonneg) simp_all
  then have "rnd32 (of_int n - rnd32 (clamp01 t * of_int n)) \<le> rnd32 (of_int n)"
    by (intro rnd32_mono) (simp add: rnd32_def)
  also have "\<dots> = of_int n" using assms by (intro rnd32_of_int) simp
  finally show "rnd32 (of_int n - rnd32 (clamp01 t * of_int n)) \<le> of_int n" .
qed

lemma touch_down_split:
  assumes "unat (v :: u16) < 32768"
  shows "(v OR 0x8000) AND NOT 0x8000 = v" and "(v OR 0x8000) AND 0x8000 = 0x8000"
proof -
  have "v mod 2 ^ 15 = v" using assms by (simp add: word_unat_eq_iff unat_mod_distrib)
  then have "take_bit 15 v = v" by (simp add: take_bit_eq_mod)
  then have v: "\<not> bit v n" if "15 \<le> n" for n using that by (metis bit_take_bit_iff not_less)
  have b: "bit (0x8000 :: u16) n \<longleftrightarrow> n = 15" for n
    using bit_exp_iff [of 15 n, where 'a = u16] by auto
  show "(v OR 0x8000) AND NOT 0x8000 = v"
  proof (rule bit_word_eqI)
    fix n assume "n < LENGTH(16)"
    then show "bit ((v OR 0x8000) AND NOT 0x8000) n = bit v n"
      unfolding bit_and_iff bit_or_iff bit_not_iff using b [of n] v [of n] by auto
  qed
  show "(v OR 0x8000) AND 0x8000 = 0x8000"
    by (simp add: and.commute [of "v OR 0x8000"])
qed

text \<open>A touch anywhere, also off the display, yields words the deck takes: on the CDJ-3000 both
  coordinates stay within the sub-CPU range; on the other decks the contact flag is set and the
  coordinates, flag removed, are pixels of the display.\<close>

theorem touch_in_range:
  "case model_touch_units m fx fy of (x, y) \<Rightarrow>
     (case m of
        Cdj3k \<Rightarrow> unat x \<le> 1000 \<and> unat y \<le> 1000
      | _ \<Rightarrow> x AND TOUCH_DOWN = TOUCH_DOWN \<and>
             unat (x AND NOT TOUCH_DOWN) < unat (fst (main_lcd (spec m))) \<and>
             unat y < unat (snd (main_lcd (spec m))))"
proof -
  have r: "as_u16 TOUCH_FRAME_RANGE = 1000" by code_simp
  have x: "unat (as_u16 (rnd32 (clamp01 fx * 1279))) \<le> 1279"
    and y: "unat (as_u16 (rnd32 (clamp01 fy * 799))) \<le> 799"
    and v: "unat (as_u16 (rnd32 (clamp01 fy * 1000))) \<le> 1000"
    and h: "unat (as_u16 (rnd32 (1000 - rnd32 (clamp01 fx * 1000)))) \<le> 1000"
    using scaled_le [of 1279 fx] scaled_le [of 799 fy] scaled_le [of 1000 fy] mirrored_le [of 1000 fx]
    by simp_all
  have f: "rnd32 1279 = 1279" "rnd32 799 = 799"
    using rnd32_of_int [of 1279] rnd32_of_int [of 799] by simp_all
  have t: "unat (as_u16 (rnd32 (clamp01 fx * 1279))) < 32768" using x by simp
  show ?thesis
    using x y v h touch_down_split [OF t]
    by (cases m) (simp_all add: model_touch_units_def touch_units_def SPEC_defs r f TOUCH_DOWN_def)
qed

lemma firmware_names_ok:
  "list_all (\<lambda>m. list_all (\<lambda>n.
       (\<forall>c \<in> set n. \<not> (c = CHR ''/'' \<or> c = CHR 0x5C)) \<and>
       find (\<lambda>m. list_ex (\<lambda>n'. eq_ignore_ascii_case n' n) (firmware_file_names (spec m))) MODEL_ALL = Some m)
     (firmware_file_names (spec m))) MODEL_ALL"
  by code_simp

lemma firmware_stem_published:
  assumes n: "\<forall>c \<in> set n. \<not> (c = CHR ''/'' \<or> c = CHR 0x5C)" and d: "\<forall>c \<in> set version. is_digit c"
    and e: "\<forall>c \<in> set ext. c \<notin> {CHR ''/'', CHR 0x5C, CHR ''.''}"
  shows "firmware_stem (dir @ ''/'' @ n @ ''v'' @ version @ ''.'' @ ext) = n"
proof -
  let ?sep = "\<lambda>c. c = CHR ''/'' \<or> c = CHR 0x5C"
  let ?dot = "\<lambda>c. c = CHR ''.''"
  let ?stem = "n @ ''v'' @ version"
  have v: "\<forall>c \<in> set version. \<not> ?sep c" 
  proof
    fix c assume "c \<in> set version"
    then have "is_digit c" using d by blast
    then show "\<not> ?sep c" by (auto simp: is_digit_def)
  qed
  have "\<forall>c \<in> set (?stem @ ''.'' @ ext). \<not> ?sep c" using n v e by (simp add: ball_Un)
  then have "last (split_by ?sep (dir @ CHR ''/'' # (?stem @ ''.'' @ ext))) = ?stem @ ''.'' @ ext"
    by (subst split_by_last) (simp_all add: split_by_no_match)
  then have base: "last (split_by ?sep (dir @ ''/'' @ n @ ''v'' @ version @ ''.'' @ ext)) = ?stem @ CHR ''.'' # ext"
    by simp
  have "\<forall>c \<in> set (rev ext). \<not> ?dot c" using e by simp
  then have dot: "rsplit_once ?dot (?stem @ CHR ''.'' # ext) = Some (?stem, ext)"
    unfolding rsplit_once_def using split_once_append [of "rev ext" ?dot "CHR ''.''" "rev ?stem"] by simp
  have digits: "trim_end_by (\<lambda>c. is_digit c \<or> ?dot c) ?stem = n @ ''v''"
  proof -
    have "dropWhile (\<lambda>c. is_digit c \<or> ?dot c) (rev version @ CHR ''v'' # rev n) = CHR ''v'' # rev n"
      using d by (subst dropWhile_append2) (simp_all add: is_digit_def)
    then show ?thesis by (simp add: trim_end_by_def)
  qed
  show ?thesis
    unfolding firmware_stem_def Let_def base dot option.case prod.case digits
    by simp
qed

text \<open>An update file under its published name, in any directory and with any version digits, is
  placed with the deck it is for.\<close>

theorem firmware_file_placed:
  assumes "n \<in> set (firmware_file_names (spec m))" and "\<forall>c \<in> set version. is_digit c"
    and "\<forall>c \<in> set ext. c \<notin> {CHR ''/'', CHR 0x5C, CHR ''.''}"
  shows "from_firmware_file_name (dir @ ''/'' @ n @ ''v'' @ version @ ''.'' @ ext) = Some m"
proof -
  have "m \<in> set MODEL_ALL" by (cases m) (simp_all add: MODEL_ALL_def)
  note names = bspec [OF bspec [OF firmware_names_ok [unfolded list_all_iff] this] assms(1)]
  show ?thesis
    unfolding from_firmware_file_name_def Let_def
      firmware_stem_published [OF conjunct1 [OF names] assms(2,3)]
    by (rule conjunct2 [OF names])
qed

theorem firmware_file_placed_witness:
  "from_firmware_file_name (''/a/b'' @ ''/'' @ ''EP166'' @ ''v'' @ ''110'' @ ''.'' @ ''UPD'') = Some Cdj1500x"
  by (rule firmware_file_placed) (auto simp: SPEC_defs is_digit_def)

text \<open>The CDJ-3000's tempo curve meets its three measured points: zero, the centre detent
  \<open>0x7F50\<close> and full scale.\<close>

theorem tempo_raw_points:
  "tempo_raw 0 = 0 \<and> tempo_raw (1 / 2) = TEMPO_CENTER \<and> tempo_raw 1 = 0xFFFF"
  by code_simp

end
