(* ===== verification/Utf8.thy ===== *)
theory Utf8
  imports Prelude
begin

text \<open>
  UTF-8 as the Rust standard library decodes it: one step of the decoder (a character with its
  length, or the length of a maximal invalid prefix), \<open>str::from_utf8\<close>, \<open>String::from_utf8_lossy\<close>
  and \<open>char::is_whitespace\<close> on code points. Components that take strings from files hold them as
  UTF-8 byte strings and use these definitions at the border. The lemmas show that lossy
  decoding keeps valid text unchanged and that its result is always valid.
\<close>

definition is_cont :: "u8 \<Rightarrow> bool" where
  "is_cont b = (0x80 \<le> b \<and> b \<le> 0xBF)"

text \<open>Which second bytes a three- or four-byte lead accepts.\<close>

definition second_ok :: "u8 \<Rightarrow> u8 \<Rightarrow> bool" where
  "second_ok b c =
     (if b = 0xE0 then 0xA0 \<le> c \<and> c \<le> 0xBF
      else if b = 0xED then 0x80 \<le> c \<and> c \<le> 0x9F
      else if b = 0xF0 then 0x90 \<le> c \<and> c \<le> 0xBF
      else if b = 0xF4 then 0x80 \<le> c \<and> c \<le> 0x8F
      else is_cont c)"

definition low6 :: "u8 \<Rightarrow> nat" where
  "low6 b = unat (b AND 0x3F)"

definition byte_or_0 :: "bytes \<Rightarrow> nat \<Rightarrow> u8" where
  "byte_or_0 bs i = (if i < length bs then bs ! i else 0)"

text \<open>\<open>Inr (n, cp)\<close>: a character of \<open>n\<close> bytes; \<open>Inl n\<close>: \<open>n\<close> bytes that are not one.\<close>

definition utf8_next :: "u8 \<Rightarrow> bytes \<Rightarrow> nat + nat \<times> nat" where
  "utf8_next b bs =
     (let c = byte_or_0 bs 0; d = byte_or_0 bs 1; e = byte_or_0 bs 2
      in if b < 0x80 then Inr (1, unat b)
         else if 0xC2 \<le> b \<and> b \<le> 0xDF then
           if is_cont c then Inr (2, unat (b AND 0x1F) * 64 + low6 c) else Inl 1
         else if 0xE0 \<le> b \<and> b \<le> 0xEF then
           if \<not> second_ok b c then Inl 1
           else if \<not> is_cont d then Inl 2
           else Inr (3, (unat (b AND 0x0F) * 64 + low6 c) * 64 + low6 d)
         else if 0xF0 \<le> b \<and> b \<le> 0xF4 then
           if \<not> second_ok b c then Inl 1
           else if \<not> is_cont d then Inl 2
           else if \<not> is_cont e then Inl 3
           else Inr (4, ((unat (b AND 0x07) * 64 + low6 c) * 64 + low6 d) * 64 + low6 e)
         else Inl 1)"

text \<open>\<open>from_utf8\<close>: the code points, or \<open>None\<close>.\<close>

fun utf8_chars :: "bytes \<Rightarrow> nat list option" where
  "utf8_chars [] = Some []"
| "utf8_chars (b # bs) =
     (case utf8_next b bs of
        Inl n \<Rightarrow> None
      | Inr (n, cp) \<Rightarrow> map_option (Cons cp) (utf8_chars (drop (n - 1) bs)))"

definition utf8_valid :: "bytes \<Rightarrow> bool" where
  "utf8_valid bs = (utf8_chars bs \<noteq> None)"

definition REPLACEMENT :: bytes where
  "REPLACEMENT = [0xEF, 0xBF, 0xBD]"

fun utf8_lossy :: "bytes \<Rightarrow> bytes" where
  "utf8_lossy [] = []"
| "utf8_lossy (b # bs) =
     (case utf8_next b bs of
        Inl n \<Rightarrow> REPLACEMENT @ utf8_lossy (drop (n - 1) bs)
      | Inr (n, cp) \<Rightarrow> take n (b # bs) @ utf8_lossy (drop (n - 1) bs))"

text \<open>The code points \<open>char::is_whitespace\<close> accepts.\<close>

definition is_ws_cp :: "nat \<Rightarrow> bool" where
  "is_ws_cp n =
     ((9 \<le> n \<and> n \<le> 13) \<or> n = 32 \<or> n = 0x85 \<or> n = 0xA0 \<or> n = 0x1680 \<or>
      (0x2000 \<le> n \<and> n \<le> 0x200A) \<or> n = 0x2028 \<or> n = 0x2029 \<or> n = 0x202F \<or> n = 0x205F \<or> n = 0x3000)"

section \<open>Lemmas\<close>

lemma utf8_next_ascii: "b < 0x80 \<Longrightarrow> utf8_next b bs = Inr (1, unat b)"
  by (simp add: utf8_next_def Let_def)

lemma utf8_chars_ascii: "\<forall>b \<in> set bs. b < 0x80 \<Longrightarrow> utf8_chars bs = Some (map unat bs)"
  by (induction bs) (simp_all add: utf8_next_ascii)

lemma utf8_valid_ascii: "\<forall>b \<in> set bs. b < 0x80 \<Longrightarrow> utf8_valid bs"
  by (simp add: utf8_valid_def utf8_chars_ascii)

lemma utf8_next_pos: "utf8_next b bs = Inr (n, cp) \<Longrightarrow> 1 \<le> n"
  by (auto simp: utf8_next_def Let_def split: if_splits)

lemma take_drop_Cons: "1 \<le> n \<Longrightarrow> take n (b # bs) @ drop (n - 1) bs = b # bs"
  by (cases n) auto

lemma utf8_lossy_valid: "utf8_valid bs \<Longrightarrow> utf8_lossy bs = bs"
proof (induction bs rule: utf8_lossy.induct)
  case (2 b bs)
  from 2(3) obtain n cp where n: "utf8_next b bs = Inr (n, cp)"
    and v: "utf8_valid (drop (n - 1) bs)"
    by (auto simp: utf8_valid_def split: sum.splits)
  have "utf8_lossy (drop (n - 1) bs) = drop (n - 1) bs" by (rule 2(2) [OF n refl v])
  then show ?case using n take_drop_Cons [OF utf8_next_pos [OF n]] by simp
qed simp

text \<open>A character found in a string is found in every string that starts with it.\<close>

lemma utf8_next_length: "utf8_next b bs = Inr (n, cp) \<Longrightarrow> n \<le> Suc (length bs)"
  by (auto simp: utf8_next_def Let_def byte_or_0_def is_cont_def second_ok_def Suc_le_eq
      split: if_splits)

lemma utf8_next_prefix:
  assumes "utf8_next b bs = Inr (n, cp)"
  shows "utf8_next b (take (n - 1) bs @ cs) = Inr (n, cp)"
proof -
  have len: "n \<le> Suc (length bs)" using assms by (rule utf8_next_length)
  have "byte_or_0 (take (n - 1) bs @ cs) i = byte_or_0 bs i" if "i < n - 1" for i
    using that len by (auto simp: byte_or_0_def nth_append)
  then show ?thesis using assms by (auto simp: utf8_next_def Let_def split: if_splits)
qed

lemma utf8_chars_append_char:
  assumes "utf8_next b bs = Inr (n, cp)"
  shows "utf8_chars (take n (b # bs) @ cs) = map_option (Cons cp) (utf8_chars cs)"
proof -
  have n: "1 \<le> n" "n \<le> Suc (length bs)"
    using assms by (rule utf8_next_pos) (rule utf8_next_length [OF assms])
  then have "take n (b # bs) @ cs = b # (take (n - 1) bs @ cs)" by (cases n) auto
  then show ?thesis using utf8_next_prefix [OF assms, of cs] n by simp
qed

lemma utf8_chars_replacement: "utf8_chars (REPLACEMENT @ cs) = map_option (Cons 0xFFFD) (utf8_chars cs)"
proof -
  have "utf8_next 0xEF [0xBF, 0xBD] = Inr (3, 0xFFFD)"
    by (simp add: utf8_next_def byte_or_0_def is_cont_def second_ok_def low6_def)
  from utf8_chars_append_char [OF this, of cs] show ?thesis by (simp add: REPLACEMENT_def)
qed

lemma utf8_valid_lossy: "utf8_valid (utf8_lossy bs)"
proof (induction bs rule: utf8_lossy.induct)
  case (2 b bs)
  show ?case
  proof (cases "utf8_next b bs")
    case (Inl n)
    then show ?thesis using 2(1) [OF Inl] by (simp add: utf8_valid_def utf8_chars_replacement)
  next
    case (Inr p)
    obtain n cp where p: "p = (n, cp)" by (cases p)
    then have n: "utf8_next b bs = Inr (n, cp)" using Inr by simp
    then show ?thesis
      using 2(2) [OF n refl] utf8_chars_append_char [OF n] by (simp add: utf8_valid_def)
  qed
qed (simp add: utf8_valid_def)

end
