(* ===== verification/OrderedMap.thy ===== *)
theory OrderedMap
  imports Main "HOL-Library.List_Lexorder" "HOL-Library.Product_Lexorder"
begin

text \<open>
  \<open>BTreeMap\<close> as the components use it: an association list kept strictly sorted by key, with
  \<open>insert\<close> (replacing the value of an equal key) and \<open>get\<close>. The locale \<open>ordered_map\<close> states the
  contract its clients rely on; the client lemma says what a run of inserts leaves behind.
\<close>

type_synonym ('k, 'v) btree = "('k \<times> 'v) list"

fun bt_insert :: "'k::linorder \<Rightarrow> 'v \<Rightarrow> ('k, 'v) btree \<Rightarrow> ('k, 'v) btree" where
  "bt_insert k v [] = [(k, v)]"
| "bt_insert k v ((l, w) # m) =
     (if k < l then (k, v) # (l, w) # m
      else if k = l then (k, v) # m
      else (l, w) # bt_insert k v m)"

definition bt_get :: "('k, 'v) btree \<Rightarrow> 'k \<Rightarrow> 'v option" where
  "bt_get m k = map_of m k"

definition bt_sorted :: "('k::linorder, 'v) btree \<Rightarrow> bool" where
  "bt_sorted m = sorted_wrt (<) (map fst m)"

locale ordered_map =
  fixes empty :: 'm
    and insert :: "'k \<Rightarrow> 'v \<Rightarrow> 'm \<Rightarrow> 'm"
    and get :: "'m \<Rightarrow> 'k \<Rightarrow> 'v option"
    and invar :: "'m \<Rightarrow> bool"
  assumes invar_empty: "invar empty"
    and invar_insert: "invar m \<Longrightarrow> invar (insert k v m)"
    and get_empty: "get empty k = None"
    and get_insert: "invar m \<Longrightarrow> get (insert k v m) = (get m)(k \<mapsto> v)"
begin

definition insert_all :: "('a \<Rightarrow> 'k) \<Rightarrow> ('a \<Rightarrow> 'v) \<Rightarrow> 'a list \<Rightarrow> 'm \<Rightarrow> 'm" where
  "insert_all kf vf xs m = fold (\<lambda>x m. insert (kf x) (vf x) m) xs m"

lemma invar_insert_all: "invar m \<Longrightarrow> invar (insert_all kf vf xs m)"
  unfolding insert_all_def by (induction xs arbitrary: m) (simp_all add: invar_insert)

text \<open>The last element with a key decides what that key holds.\<close>

lemma get_insert_all:
  "invar m \<Longrightarrow>
   get (insert_all kf vf xs m) k =
     (case filter (\<lambda>x. kf x = k) xs of [] \<Rightarrow> get m k | y # ys \<Rightarrow> Some (vf (last (y # ys))))"
  unfolding insert_all_def
  by (induction xs arbitrary: m) (auto simp: invar_insert get_insert split: list.splits)

end

lemma bt_insert_keys: "set (map fst (bt_insert k v m)) = insert k (set (map fst m))"
  by (induction k v m rule: bt_insert.induct) auto

lemma bt_sorted_insert: "bt_sorted m \<Longrightarrow> bt_sorted (bt_insert k v m)"
proof (induction k v m rule: bt_insert.induct)
  case (2 k v l w m)
  then have "bt_sorted m" and above: "\<forall>x \<in> set (map fst m). l < x" by (auto simp: bt_sorted_def)
  with 2 show ?case
    using bt_insert_keys [of k v m] by (auto simp: bt_sorted_def dest: order.strict_trans)
qed (simp add: bt_sorted_def)

lemma bt_get_insert: "bt_sorted m \<Longrightarrow> bt_get (bt_insert k v m) = (bt_get m)(k \<mapsto> v)"
proof (induction k v m rule: bt_insert.induct)
  case (2 k v l w m)
  then have "bt_sorted m" by (simp add: bt_sorted_def)
  with 2 show ?case by (auto simp: bt_get_def fun_eq_iff)
qed (auto simp: bt_get_def fun_eq_iff)

interpretation bt: ordered_map "[]" bt_insert bt_get bt_sorted
  by unfold_locales (simp_all add: bt_sorted_insert bt_get_insert, simp_all add: bt_sorted_def bt_get_def)

lemma bt_sorted_distinct: "bt_sorted m \<Longrightarrow> distinct (map fst m)"
  unfolding bt_sorted_def by (induction m) auto

lemma bt_get_iff: "bt_sorted m \<Longrightarrow> bt_get m k = Some v \<longleftrightarrow> (k, v) \<in> set m"
  by (simp add: bt_get_def bt_sorted_distinct)

end
