(* ===== verification/Cpio.thy ===== *)
theory Cpio
  imports Utf8 RustText OrderedMap
begin

text \<open>
  The \<open>newc\<close> cpio codec of \<open>crates/cdj3k-emu-firmware/src/cpio.rs\<close>, on bytes. Strings and paths
  are UTF-8 byte strings; offsets are \<open>usize\<close> of 64 bits and \<open>checked_add\<close> is kept. A path is
  compared by its components, as \<open>PathBuf\<close> does on Unix, so \<open>merge\<close> keys its map by them. The
  properties: reading back a written archive gives its entries, reading ends for every input,
  and a merge holds for each path the last entry given, in path order.
\<close>

section \<open>Entries\<close>

definition HEADER_LEN :: nat where "HEADER_LEN = 110"
definition MAGIC_NEWC :: bytes where "MAGIC_NEWC = [0x30, 0x37, 0x30, 0x37, 0x30, 0x31]"
definition MAGIC_CRC :: bytes where "MAGIC_CRC = [0x30, 0x37, 0x30, 0x37, 0x30, 0x32]"
definition TRAILER :: bytes where
  "TRAILER = [0x54, 0x52, 0x41, 0x49, 0x4C, 0x45, 0x52, 0x21, 0x21, 0x21]"

definition S_IFMT :: u32 where "S_IFMT = 0xF000"
definition S_IFREG :: u32 where "S_IFREG = 0x8000"
definition S_IFDIR :: u32 where "S_IFDIR = 0x4000"
definition S_IFLNK :: u32 where "S_IFLNK = 0xA000"
definition S_IFCHR :: u32 where "S_IFCHR = 0x2000"
definition PERM :: u32 where "PERM = 0xFFF"

datatype cpio_error =
    Truncated nat
  | BadMagic nat
  | BadField nat string
  | UnsupportedMode bytes u32
  | MissingTrailer

datatype kind =
    File bytes
  | Dir
  | Symlink bytes
  | CharDev u32 u32

primrec type_bits :: "kind \<Rightarrow> u32" where
  "type_bits (File d) = S_IFREG"
| "type_bits Dir = S_IFDIR"
| "type_bits (Symlink t) = S_IFLNK"
| "type_bits (CharDev a b) = S_IFCHR"

record entry =
  e_path :: bytes
  e_kind :: kind
  e_mode :: u32
  e_uid :: u32
  e_gid :: u32
  e_mtime :: u32

definition entry_new :: "bytes \<Rightarrow> kind \<Rightarrow> u32 \<Rightarrow> entry" where
  "entry_new p k m =
     \<lparr>e_path = p, e_kind = k, e_mode = m AND PERM, e_uid = 0, e_gid = 0, e_mtime = 0\<rparr>"

definition entry_file :: "bytes \<Rightarrow> bytes \<Rightarrow> u32 \<Rightarrow> entry" where
  "entry_file p d m = entry_new p (File d) m"

definition entry_dir :: "bytes \<Rightarrow> u32 \<Rightarrow> entry" where
  "entry_dir p m = entry_new p Dir m"

definition entry_symlink :: "bytes \<Rightarrow> bytes \<Rightarrow> entry" where
  "entry_symlink p t = entry_new p (Symlink t) 0x1FF"

section \<open>Reading\<close>

record cpio_record =
  raw_mode :: u32
  r_uid :: u32
  r_gid :: u32
  r_mtime :: u32
  rdevmajor :: u32
  rdevminor :: u32
  r_name :: bytes
  r_data :: bytes
  r_end :: nat

definition checked_add :: "nat \<Rightarrow> nat \<Rightarrow> nat option" where
  "checked_add a b = (if a + b < 2 ^ 64 then Some (a + b) else None)"

text \<open>Field \<open>i\<close> of the thirteen after the magic: UTF-8, trimmed, hexadecimal.\<close>

definition field :: "bytes \<Rightarrow> nat \<Rightarrow> nat \<Rightarrow> string \<Rightarrow> cpio_error + u32" where
  "field bs pos i name =
     (case utf8_chars (slice_of (pos + 6 + i * 8) 8 bs) of
        None \<Rightarrow> Inl (BadField pos name)
      | Some cs \<Rightarrow>
          (case parse_radix 16 32 (trim_by is_ws_cp cs) of
             None \<Rightarrow> Inl (BadField pos name)
           | Some v \<Rightarrow> Inr (of_nat v)))"

definition record_parse :: "bytes \<Rightarrow> nat \<Rightarrow> cpio_error + cpio_record" where
  "record_parse bs pos =
     (if length bs - pos < HEADER_LEN then Inl (Truncated pos)
      else let magic = slice_of pos 6 bs
      in if magic \<noteq> MAGIC_NEWC \<and> magic \<noteq> MAGIC_CRC then Inl (BadMagic pos)
      else
        bindR (field bs pos 1 ''mode'') (\<lambda>mode.
        bindR (field bs pos 2 ''uid'') (\<lambda>uid.
        bindR (field bs pos 3 ''gid'') (\<lambda>gid.
        bindR (field bs pos 5 ''mtime'') (\<lambda>mtime.
        bindR (field bs pos 6 ''filesize'') (\<lambda>fs.
        bindR (field bs pos 9 ''rdevmajor'') (\<lambda>maj.
        bindR (field bs pos 10 ''rdevminor'') (\<lambda>min.
        bindR (field bs pos 11 ''namesize'') (\<lambda>ns.
          let filesize = unat fs; namesize = unat ns
          in if namesize = 0 then Inl (BadField pos ''namesize'')
          else
            let name_at = pos + HEADER_LEN
            in bindR (ok_or (BadField pos ''namesize'') (checked_add name_at namesize)) (\<lambda>name_end.
               if name_end > length bs then Inl (Truncated pos)
               else
                 let name = utf8_lossy (slice_of name_at (name_end - 1 - name_at) bs);
                     data_at = align4 (name_end - pos) + pos
                 in bindR (ok_or (BadField pos ''filesize'') (checked_add data_at filesize)) (\<lambda>data_end.
                    if data_end > length bs then Inl (Truncated pos)
                    else Inr \<lparr>raw_mode = mode, r_uid = uid, r_gid = gid, r_mtime = mtime,
                              rdevmajor = maj, rdevminor = min, r_name = name,
                              r_data = slice_of data_at (data_end - data_at) bs,
                              r_end = align4 (data_end - pos) + pos\<rparr>)))))))))))"

definition SLASH :: u8 where "SLASH = 0x2F"
definition BACKSLASH :: u8 where "BACKSLASH = 0x5C"

definition into_entry :: "cpio_record \<Rightarrow> cpio_error + entry" where
  "into_entry r =
     (let t = raw_mode r AND S_IFMT;
          kind =
            (if t = S_IFREG then Inr (File (r_data r))
             else if t = S_IFDIR then Inr Dir
             else if t = S_IFLNK then Inr (Symlink (utf8_lossy (r_data r)))
             else if t = S_IFCHR then Inr (CharDev (rdevmajor r) (rdevminor r))
             else Inl (UnsupportedMode (r_name r) (raw_mode r)))
      in bindR kind (\<lambda>k.
           Inr \<lparr>e_path = SLASH # trim_start_by (\<lambda>b. b = SLASH) (r_name r), e_kind = k,
                e_mode = raw_mode r AND PERM, e_uid = r_uid r, e_gid = r_gid r,
                e_mtime = r_mtime r\<rparr>))"

text \<open>The NUL run between records.\<close>

definition skip_nul :: "bytes \<Rightarrow> nat \<Rightarrow> nat" where
  "skip_nul bs pos = pos + length (takeWhile (\<lambda>b. b = 0) (drop pos bs))"

lemma record_parse_end:
  assumes "record_parse bs pos = Inr r"
  shows "pos + 110 \<le> r_end r"
proof -
  from assms obtain a b where "r_end r = align4 (align4 (HEADER_LEN + a) + b) + pos"
    by (auto simp: record_parse_def bindR_eq_Inr checked_add_def Let_def split: if_splits)
  moreover have "align4 (HEADER_LEN + a) + b \<le> align4 (align4 (HEADER_LEN + a) + b)"
    "HEADER_LEN + a \<le> align4 (HEADER_LEN + a)" by (rule align4_ge)+
  ultimately show ?thesis unfolding HEADER_LEN_def by linarith
qed

lemma record_parse_pos: "record_parse bs pos = Inr r \<Longrightarrow> pos + 110 \<le> length bs"
  by (auto simp: record_parse_def HEADER_LEN_def split: if_splits)

function read_from :: "bytes \<Rightarrow> nat \<Rightarrow> entry list \<Rightarrow> cpio_error + entry list" where
  "read_from bs pos entries =
     (let pos = skip_nul bs pos
      in if length bs \<le> pos then Inl MissingTrailer
         else (case record_parse bs pos of
                 Inl e \<Rightarrow> Inl e
               | Inr r \<Rightarrow>
                   if r_name r = TRAILER then Inr entries
                   else bindR (into_entry r) (\<lambda>e. read_from bs (r_end r) (entries @ [e]))))"
  by auto
termination
proof (relation "measure (\<lambda>(bs, pos, _). length bs + 1 - pos)", goal_cases)
  case (2 bs pos entries p r e)
  have "pos \<le> p" using 2(1) by (simp add: skip_nul_def)
  then show ?case using record_parse_end [of bs p r] record_parse_pos [of bs p r] 2 by auto
qed simp

declare read_from.simps [simp del]

definition cpio_read :: "bytes \<Rightarrow> cpio_error + entry list" where
  "cpio_read bs = read_from bs 0 []"

section \<open>Writing\<close>

definition hex_digit :: "nat \<Rightarrow> u8" where
  "hex_digit d = (if d < 10 then of_nat (48 + d) else of_nat (55 + d))"

text \<open>\<open>{v:08X}\<close>.\<close>

definition hex8 :: "u32 \<Rightarrow> bytes" where
  "hex8 v = map (\<lambda>i. hex_digit (unat v div 16 ^ (7 - i) mod 16)) [0..<8]"

definition archive_name :: "bytes \<Rightarrow> bytes" where
  "archive_name p =
     (let s = map (\<lambda>b. if b = BACKSLASH then SLASH else b) (utf8_lossy p);
          s = trim_start_by (\<lambda>b. b = SLASH) s
      in if s = [] then [0x2E] else s)"

text \<open>\<open>pad_to_4\<close>: zeros up to the next multiple of four, counted from \<open>start\<close>.\<close>

definition pad_to_4 :: "nat \<Rightarrow> bytes \<Rightarrow> bytes" where
  "pad_to_4 start out = out @ replicate (align4 (length out - start) + start - length out) 0"

definition payload_of :: "kind \<Rightarrow> bytes" where
  "payload_of k = (case k of File d \<Rightarrow> d | Symlink t \<Rightarrow> t | _ \<Rightarrow> [])"

definition rdev_of :: "kind \<Rightarrow> u32 \<times> u32" where
  "rdev_of k = (case k of CharDev a b \<Rightarrow> (a, b) | _ \<Rightarrow> (0, 0))"

definition header_of :: "entry \<Rightarrow> u32 \<Rightarrow> bytes \<Rightarrow> u32 list" where
  "header_of e ino name =
     [ino, type_bits (e_kind e) OR (e_mode e AND PERM), e_uid e, e_gid e,
      (if e_kind e = Dir then 2 else 1), e_mtime e, of_nat (length (payload_of (e_kind e))), 0, 0,
      fst (rdev_of (e_kind e)), snd (rdev_of (e_kind e)), of_nat (length name) + 1, 0]"

definition write_record :: "entry \<Rightarrow> u32 \<Rightarrow> bytes \<Rightarrow> bytes" where
  "write_record e ino out =
     (let name = archive_name (e_path e);
          payload = payload_of (e_kind e);
          start = length out;
          out = out @ MAGIC_NEWC;
          out = fold (\<lambda>v out. out @ hex8 v) (header_of e ino name) out;
          out = pad_to_4 start (out @ name @ [0]);
          data_start = length out
      in pad_to_4 data_start (out @ payload))"

definition write_trailer :: "bytes \<Rightarrow> bytes" where
  "write_trailer out =
     (let start = length out;
          out = out @ MAGIC_NEWC;
          out = fold (\<lambda>v out. out @ hex8 v)
                  [0, 0, 0, 0, 1, 0, 0, 0, 0, 0, 0, of_nat (length TRAILER) + 1, 0] out
      in pad_to_4 start (out @ TRAILER @ [0]))"

definition cpio_write :: "entry list \<Rightarrow> bytes" where
  "cpio_write entries =
     write_trailer (fold (\<lambda>(i, e) out. write_record e (of_nat i + 1) out) (enumerate 0 entries) [])"

section \<open>Merging\<close>

text \<open>Path components on Unix, in the order \<open>PathBuf\<close> compares them.\<close>

datatype component = RootDir | CurDir | ParentDir | Normal bytes

definition component_of :: "bytes \<Rightarrow> component option" where
  "component_of s =
     (if s = [] \<or> s = [0x2E] then None
      else if s = [0x2E, 0x2E] then Some ParentDir
      else Some (Normal s))"

definition components :: "bytes \<Rightarrow> component list" where
  "components p =
     (let parts = split_by (\<lambda>b. b = SLASH) p;
          body = List.map_filter component_of parts
      in if hd parts = [] \<and> p \<noteq> [] then RootDir # body
         else if hd parts = [0x2E] then CurDir # body
         else body)"

primrec component_key :: "component \<Rightarrow> nat \<times> bytes" where
  "component_key RootDir = (0, [])"
| "component_key CurDir = (1, [])"
| "component_key ParentDir = (2, [])"
| "component_key (Normal s) = (3, s)"

lemma component_key_inject: "component_key a = component_key b \<Longrightarrow> a = b"
  by (cases a; cases b) auto

instantiation component :: linorder
begin

definition less_eq_component :: "component \<Rightarrow> component \<Rightarrow> bool" where
  "less_eq_component a b = (component_key a \<le> component_key b)"

definition less_component :: "component \<Rightarrow> component \<Rightarrow> bool" where
  "less_component a b = (component_key a < component_key b)"

instance
proof
  fix a b c :: component
  show "a < b \<longleftrightarrow> a \<le> b \<and> \<not> b \<le> a"
    unfolding less_component_def less_eq_component_def by (rule less_le_not_le)
  show "a \<le> a" unfolding less_eq_component_def by simp
  show "a \<le> b \<Longrightarrow> b \<le> c \<Longrightarrow> a \<le> c" unfolding less_eq_component_def by (rule order_trans)
  show "a \<le> b \<Longrightarrow> b \<le> a \<Longrightarrow> a = b"
    unfolding less_eq_component_def by (intro component_key_inject antisym)
  show "a \<le> b \<or> b \<le> a" unfolding less_eq_component_def by (rule linear)
qed

end

definition merge :: "entry list list \<Rightarrow> entry list" where
  "merge archives =
     map snd (fold (\<lambda>archive m. fold (\<lambda>e m. bt_insert (components (e_path e)) e m) archive m) archives [])"

section \<open>Lemmas on header fields\<close>

lemma digits_value_div:
  "digits_value r (map (\<lambda>i. n div r ^ (k - 1 - i) mod r) [0..<k]) = n mod r ^ k"
proof (induction k arbitrary: n)
  case (Suc k)
  have eq: "map (\<lambda>i. n div r ^ (k - i) mod r) [0..<k] = map (\<lambda>i. (n div r) div r ^ (k - 1 - i) mod r) [0..<k]"
  proof (rule map_cong [OF refl])
    fix i assume "i \<in> set [0..<k]"
    then have "k - i = Suc (k - 1 - i)" by auto
    then show "n div r ^ (k - i) mod r = n div r div r ^ (k - 1 - i) mod r" by (simp add: div_mult2_eq)
  qed
  have "digits_value r (map (\<lambda>i. n div r ^ (Suc k - 1 - i) mod r) [0..<Suc k]) =
      digits_value r (map (\<lambda>i. n div r ^ (k - i) mod r) [0..<k]) * r + n mod r"
    by simp
  also have "\<dots> = (n div r mod r ^ k) * r + n mod r" unfolding eq Suc ..
  also have "\<dots> = n mod r ^ Suc k" using mod_mult2_eq [of n r "r ^ k"] by (simp add: mult.commute)
  finally show ?case .
qed (simp add: digits_value_def)

lemma unat_hex_digit: "d < 16 \<Longrightarrow> unat (hex_digit d) = (if d < 10 then 48 + d else 55 + d)"
  by (simp only: hex_digit_def if_distrib [of unat] unat_of_nat) simp

lemma hex_digit_cases:
  "d < 16 \<Longrightarrow> hex_digit d < 0x80 \<and> to_digit 16 (unat (hex_digit d)) = Some d \<and>
     \<not> is_ws_cp (unat (hex_digit d)) \<and> unat (hex_digit d) \<noteq> 43"
  by (auto simp: word_less_nat_alt unat_hex_digit to_digit_def is_ws_cp_def)

lemma length_hex8 [simp]: "length (hex8 v) = 8"
  by (simp add: hex8_def)

lemma hex8_bytes: "b \<in> set (hex8 v) \<Longrightarrow> b < 0x80 \<and> \<not> is_ws_cp (unat b) \<and> unat b \<noteq> 43"
  by (auto simp: hex8_def hex_digit_cases)

lemma parse_hex8: "parse_radix 16 32 (trim_by is_ws_cp (map unat (hex8 v))) = Some (unat v)"
proof -
  let ?ds = "map (\<lambda>i. unat v div 16 ^ (7 - i) mod 16) [0..<8]"
  have h: "map unat (hex8 v) = map (\<lambda>d. unat (hex_digit d)) ?ds" by (simp add: hex8_def)
  have ne: "map unat (hex8 v) \<noteq> []" by (simp add: hex8_def)
  have ok: "\<not> is_ws_cp c \<and> c \<noteq> 43" if "c \<in> set (map unat (hex8 v))" for c
    using that hex8_bytes by auto
  have t: "trim_by is_ws_cp (map unat (hex8 v)) = map unat (hex8 v)"
    using ok [OF hd_in_set [OF ne]] ok [OF last_in_set [OF ne]] by (intro trim_by_id) blast
  have p: "hd (map unat (hex8 v)) \<noteq> 43" using ok [OF hd_in_set [OF ne]] by blast
  have "mapM_opt (to_digit 16) (map (\<lambda>d. unat (hex_digit d)) ?ds) = Some ?ds"
    by (rule mapM_opt_map) (auto simp: hex_digit_cases)
  moreover have "digits_value 16 ?ds = unat v"
    using digits_value_div [of 16 "unat v" 8] unsigned_less [of v, where 'a = nat] by simp
  ultimately show ?thesis
    using p unsigned_less [of v, where 'a = nat] unfolding t h [symmetric]
    by (cases "map unat (hex8 v)") (auto simp: parse_radix_def Let_def)
qed

lemma slice_of_append: "slice_of (length pre + k) n (pre @ xs) = slice_of k n xs"
  by (simp add: slice_of_def)

lemma slice_of_concat:
  assumes "i < length xs" and "\<forall>x \<in> set xs. length x = m"
  shows "slice_of (i * m) m (concat xs @ ys) = xs ! i"
  using assms
proof (induction xs arbitrary: i)
  case (Cons x xs)
  show ?case
  proof (cases i)
    case 0
    then show ?thesis using Cons.prems by (simp add: slice_of_def)
  next
    case (Suc j)
    then have "slice_of (i * m) m (concat (x # xs) @ ys) = slice_of (j * m) m (concat xs @ ys)"
      using Cons.prems slice_of_append [of x "j * m" m "concat xs @ ys"] by simp
    then show ?thesis using Cons Suc by simp
  qed
qed simp

lemma length_MAGIC_NEWC [simp]: "length MAGIC_NEWC = 6"
  by (simp add: MAGIC_NEWC_def)

lemma field_written:
  assumes "i < length vs"
  shows "field (pre @ MAGIC_NEWC @ concat (map hex8 vs) @ rest) (length pre) i name = Inr (vs ! i)"
proof -
  let ?hs = "map hex8 vs"
  have "slice_of (length pre + (6 + i * 8)) 8 (pre @ MAGIC_NEWC @ concat ?hs @ rest) =
      slice_of (length MAGIC_NEWC + i * 8) 8 (MAGIC_NEWC @ concat ?hs @ rest)"
    by (simp add: slice_of_append)
  also have "\<dots> = hex8 (vs ! i)"
    unfolding slice_of_append using slice_of_concat [of i ?hs 8 rest] assms by auto
  finally have s: "slice_of (length pre + 6 + i * 8) 8 (pre @ MAGIC_NEWC @ concat ?hs @ rest) = hex8 (vs ! i)"
    by (simp add: add.assoc)
  have "utf8_chars (hex8 (vs ! i)) = Some (map unat (hex8 (vs ! i)))"
    by (rule utf8_chars_ascii) (use hex8_bytes in blast)
  then show ?thesis using s by (simp add: field_def parse_hex8)
qed


section \<open>Lemmas on records\<close>

lemma length_concat_hex8 [simp]: "length (concat (map hex8 vs)) = 8 * length vs"
  by (induction vs) simp_all

lemma fold_hex8: "fold (\<lambda>v out. out @ hex8 v) vs out = out @ concat (map hex8 vs)"
  by (induction vs arbitrary: out) simp_all

definition zeros :: "nat \<Rightarrow> bytes" where
  "zeros n = replicate (align4 n - n) 0"

lemma length_zeros: "n + length (zeros n) = align4 n"
  using align4_ge [of n] by (simp add: zeros_def)

lemma pad_to_4_append: "pad_to_4 (length out) (out @ x) = out @ x @ zeros (length x)"
  using align4_ge [of "length x"] by (simp add: pad_to_4_def zeros_def add.commute)

text \<open>One record as bytes: magic, thirteen fields, name, padding, payload.\<close>

definition record_bytes :: "u32 list \<Rightarrow> bytes \<Rightarrow> bytes \<Rightarrow> bytes" where
  "record_bytes vs name data =
     (let head = MAGIC_NEWC @ concat (map hex8 vs) @ name @ [0]
      in head @ zeros (length head) @ data @ zeros (length data))"

lemma write_record_bytes:
  "write_record e ino out =
     out @ record_bytes (header_of e ino (archive_name (e_path e))) (archive_name (e_path e)) (payload_of (e_kind e))"
proof -
  let ?n = "archive_name (e_path e)" and ?d = "payload_of (e_kind e)"
  let ?head = "MAGIC_NEWC @ concat (map hex8 (header_of e ino ?n)) @ ?n @ [0]"
  have "pad_to_4 (length out) (out @ ?head) = out @ ?head @ zeros (length ?head)"
    by (rule pad_to_4_append)
  moreover have "pad_to_4 (length (out @ ?head @ zeros (length ?head))) ((out @ ?head @ zeros (length ?head)) @ ?d)
      = (out @ ?head @ zeros (length ?head)) @ ?d @ zeros (length ?d)"
    by (rule pad_to_4_append)
  ultimately show ?thesis
    unfolding write_record_def record_bytes_def Let_def fold_hex8 by simp
qed

lemma write_trailer_bytes:
  "write_trailer out = out @ record_bytes [0, 0, 0, 0, 1, 0, 0, 0, 0, 0, 0, 11, 0] TRAILER []"
proof -
  have "of_nat (length TRAILER) + 1 = (11 :: u32)" by (simp add: TRAILER_def)
  then show ?thesis
    unfolding write_trailer_def record_bytes_def Let_def fold_hex8
    using pad_to_4_append [of out] by (simp add: zeros_def align4_def)
qed

lemma record_parse_bytes:
  assumes vs: "length vs = 13" and name: "vs ! 11 = of_nat (length name + 1)" "length name + 1 < 2 ^ 32"
    and data: "vs ! 6 = of_nat (length data)" "length data < 2 ^ 32"
    and bs: "bs = pre @ record_bytes vs name data @ rest" and len: "length bs < 2 ^ 64"
  shows "record_parse bs (length pre) =
    Inr \<lparr>raw_mode = vs ! 1, r_uid = vs ! 2, r_gid = vs ! 3, r_mtime = vs ! 5,
         rdevmajor = vs ! 9, rdevminor = vs ! 10, r_name = utf8_lossy name, r_data = data,
         r_end = length pre + length (record_bytes vs name data)\<rparr>"
proof -
  let ?head = "MAGIC_NEWC @ concat (map hex8 vs) @ name @ [0]"
  let ?z = "zeros (length ?head)" and ?w = "zeros (length data)"
  have h: "length ?head = 110 + (length name + 1)" using vs by simp
  have b: "bs = pre @ MAGIC_NEWC @ concat (map hex8 vs) @ (name @ [0] @ ?z @ data @ ?w @ rest)"
    by (simp add: bs record_bytes_def Let_def)
  have f: "field bs (length pre) i s = Inr (vs ! i)" if "i < 13" for i s
    unfolding b by (rule field_written) (simp add: vs that)
  have magic: "slice_of (length pre) 6 bs = MAGIC_NEWC"
    unfolding b using slice_of_append [of pre 0 6] by (simp add: slice_of_def)
  have un: "unat (vs ! 11) = length name + 1" "unat (vs ! 6) = length data"
    using name data by (simp_all only: unat_of_nat) simp_all
  have nm: "slice_of (length pre + 110) (length name) bs = name"
    unfolding bs record_bytes_def Let_def
    using slice_of_append [of "pre @ MAGIC_NEWC @ concat (map hex8 vs)" 0 "length name"] vs
    by (simp add: slice_of_def)
  have dt: "slice_of (align4 (length ?head) + length pre) (length data) bs = data"
  proof -
    have "length (pre @ ?head @ ?z) = align4 (length ?head) + length pre"
      using length_zeros [of "length ?head"] by simp
    moreover have "bs = (pre @ ?head @ ?z) @ data @ ?w @ rest" by (simp add: b)
    ultimately show ?thesis by (simp only: slice_of_def append_eq_conv_conj drop_append) simp
  qed
  have total: "length bs = length pre + align4 (length ?head) + length data + length ?w + length rest"
    using length_zeros [of "length ?head"] by (simp add: b)
  have e: "align4 (align4 (length ?head) + length data) = length (record_bytes vs name data)"
    using length_zeros [of "length ?head"] length_zeros [of "length data"]
    by (simp add: record_bytes_def Let_def align4_plus [OF align4_dvd])
  have small: "length ?head \<le> align4 (length ?head)" by (rule align4_ge)
  show ?thesis
    unfolding record_parse_def HEADER_LEN_def Let_def magic
    using h total small len nm dt e
    by (simp add: f un checked_add_def)
qed


section \<open>Reading back what was written\<close>

text \<open>
  Entries a written archive can hold: an absolute path in UTF-8 with one leading slash, no
  backslash and not the trailer's name, permission bits only, and sizes that fit the fields.
\<close>

definition entry_ok :: "entry \<Rightarrow> bool" where
  "entry_ok e =
     (case e_path e of
        [] \<Rightarrow> False
      | s # n \<Rightarrow>
          s = SLASH \<and> n \<noteq> [] \<and> hd n \<noteq> SLASH \<and> BACKSLASH \<notin> set n \<and> n \<noteq> TRAILER \<and>
          utf8_valid n \<and> length n + 1 < 2 ^ 32 \<and> e_mode e AND PERM = e_mode e \<and>
          length (payload_of (e_kind e)) < 2 ^ 32 \<and>
          (case e_kind e of Symlink t \<Rightarrow> utf8_valid t | _ \<Rightarrow> True))"

lemma archive_name_ok:
  assumes "utf8_valid n" and "n \<noteq> []" and "hd n \<noteq> SLASH" and "BACKSLASH \<notin> set n"
  shows "archive_name (SLASH # n) = n"
proof -
  have "utf8_next SLASH n = Inr (1, unat SLASH)" by (rule utf8_next_ascii) (simp add: SLASH_def)
  then have "utf8_valid (SLASH # n)" using assms(1) by (auto simp: utf8_valid_def)
  then have "utf8_lossy (SLASH # n) = SLASH # n" by (rule utf8_lossy_valid)
  moreover have "map (\<lambda>b. if b = BACKSLASH then SLASH else b) (SLASH # n) = SLASH # n"
    using assms(4) by (auto simp: SLASH_def BACKSLASH_def intro!: map_idI)
  ultimately show ?thesis
    using assms(2,3) unfolding archive_name_def Let_def by (cases n) (auto simp: trim_start_by_def)
qed

lemma mode_split:
  "(type_bits k OR (m AND PERM)) AND S_IFMT = type_bits k"
  "(type_bits k OR (m AND PERM)) AND PERM = m AND PERM"
  by (cases k; simp add: bit.conj_disj_distrib2 and.assoc S_IFMT_def S_IFREG_def S_IFDIR_def
      S_IFLNK_def S_IFCHR_def PERM_def)+

lemma skip_nul_record: "skip_nul (pre @ record_bytes vs name data @ rest) (length pre) = length pre"
  by (simp add: skip_nul_def record_bytes_def Let_def MAGIC_NEWC_def)

definition entry_bytes :: "nat \<Rightarrow> entry \<Rightarrow> bytes" where
  "entry_bytes i e =
     record_bytes (header_of e (of_nat i + 1) (archive_name (e_path e))) (archive_name (e_path e))
       (payload_of (e_kind e))"

definition trailer_bytes :: bytes where
  "trailer_bytes = record_bytes [0, 0, 0, 0, 1, 0, 0, 0, 0, 0, 0, 11, 0] TRAILER []"

lemma cpio_write_bytes:
  "cpio_write es = concat (map (\<lambda>(i, e). entry_bytes i e) (enumerate 0 es)) @ trailer_bytes"
proof -
  have "fold (\<lambda>(i, e) out. write_record e (of_nat i + 1) out) ies out =
      out @ concat (map (\<lambda>(i, e). entry_bytes i e) ies)" for ies out
    by (induction ies arbitrary: out) (auto simp: write_record_bytes entry_bytes_def)
  then show ?thesis by (simp add: cpio_write_def write_trailer_bytes trailer_bytes_def)
qed

lemma length_record_bytes: "0 < length (record_bytes vs name data)"
  by (simp add: record_bytes_def Let_def)

text \<open>The kind a record of a known type reads as.\<close>

definition read_kind :: "cpio_record \<Rightarrow> kind \<Rightarrow> kind" where
  "read_kind r k =
     (case k of
        File _ \<Rightarrow> File (r_data r)
      | Dir \<Rightarrow> Dir
      | Symlink _ \<Rightarrow> Symlink (utf8_lossy (r_data r))
      | CharDev _ _ \<Rightarrow> CharDev (rdevmajor r) (rdevminor r))"

lemma into_entry_typed:
  "raw_mode r AND S_IFMT = type_bits k \<Longrightarrow>
   into_entry r =
     Inr \<lparr>e_path = SLASH # trim_start_by (\<lambda>b. b = SLASH) (r_name r), e_kind = read_kind r k,
          e_mode = raw_mode r AND PERM, e_uid = r_uid r, e_gid = r_gid r, e_mtime = r_mtime r\<rparr>"
  by (cases k) (simp_all add: into_entry_def read_kind_def Let_def S_IFREG_def S_IFDIR_def S_IFLNK_def
      S_IFCHR_def)

lemma entry_parsed:
  assumes ok: "entry_ok e" and bs: "bs = pre @ entry_bytes i e @ rest" and len: "length bs < 2 ^ 64"
  shows "\<exists>r. record_parse bs (length pre) = Inr r \<and> r_name r \<noteq> TRAILER \<and> into_entry r = Inr e \<and>
    r_end r = length pre + length (entry_bytes i e)"
proof -
  obtain n where p: "e_path e = SLASH # n" and n: "n \<noteq> []" "hd n \<noteq> SLASH" "BACKSLASH \<notin> set n"
    "n \<noteq> TRAILER" "utf8_valid n" "length n + 1 < 2 ^ 32" and m: "e_mode e AND PERM = e_mode e"
    and d: "length (payload_of (e_kind e)) < 2 ^ 32"
    and sym: "case e_kind e of Symlink t \<Rightarrow> utf8_valid t | _ \<Rightarrow> True"
    using ok by (auto simp: entry_ok_def split: list.splits)
  have t: "utf8_valid t" if "e_kind e = Symlink t" for t using sym that by simp
  have an: "archive_name (e_path e) = n" unfolding p using n by (intro archive_name_ok)
  let ?vs = "header_of e (of_nat i + 1) n"
  have parse: "record_parse bs (length pre) =
    Inr \<lparr>raw_mode = ?vs ! 1, r_uid = ?vs ! 2, r_gid = ?vs ! 3, r_mtime = ?vs ! 5,
         rdevmajor = ?vs ! 9, rdevminor = ?vs ! 10, r_name = utf8_lossy n, r_data = payload_of (e_kind e),
         r_end = length pre + length (entry_bytes i e)\<rparr>"
    unfolding entry_bytes_def an
    by (rule record_parse_bytes [where rest = rest])
      (use n d bs len in \<open>simp_all add: header_of_def entry_bytes_def an\<close>)
  have "into_entry \<lparr>raw_mode = ?vs ! 1, r_uid = ?vs ! 2, r_gid = ?vs ! 3, r_mtime = ?vs ! 5,
         rdevmajor = ?vs ! 9, rdevminor = ?vs ! 10, r_name = utf8_lossy n, r_data = payload_of (e_kind e),
         r_end = length pre + length (entry_bytes i e)\<rparr> = Inr e"
    (is "into_entry ?r = _")
  proof -
    have raw: "raw_mode ?r = type_bits (e_kind e) OR (e_mode e AND PERM)" by (simp add: header_of_def)
    then have "raw_mode ?r AND S_IFMT = type_bits (e_kind e)" by (simp only: mode_split)
    note into_entry_typed [OF this]
    moreover have "raw_mode ?r AND PERM = e_mode e" unfolding raw mode_split by (rule m)
    moreover have "read_kind ?r (e_kind e) = e_kind e"
      using t by (cases "e_kind e") (simp_all add: read_kind_def header_of_def payload_of_def
          rdev_of_def utf8_lossy_valid)
    moreover have "trim_start_by (\<lambda>b. b = SLASH) (utf8_lossy n) = n"
      using n by (simp add: utf8_lossy_valid trim_start_by_id)
    ultimately show ?thesis using p by (cases e) (simp add: header_of_def)
  qed
  with parse n(4,5) show ?thesis by (simp add: utf8_lossy_valid)
qed

lemma read_from_written:
  assumes "\<forall>e \<in> set es. entry_ok e"
    and "bs = pre @ concat (map (\<lambda>(i, e). entry_bytes i e) (enumerate k es)) @ trailer_bytes"
    and "length bs < 2 ^ 64"
  shows "read_from bs (length pre) acc = Inr (acc @ es)"
  using assms
proof (induction es arbitrary: pre k acc)
  case Nil
  then have bs: "bs = pre @ trailer_bytes @ []" by simp
  then have "record_parse bs (length pre) = Inr \<lparr>raw_mode = 0, r_uid = 0, r_gid = 0, r_mtime = 0,
      rdevmajor = 0, rdevminor = 0, r_name = utf8_lossy TRAILER, r_data = [],
      r_end = length pre + length trailer_bytes\<rparr>"
    using record_parse_bytes [of "[0, 0, 0, 0, 1, 0, 0, 0, 0, 0, 0, 11, 0]" TRAILER "[]" bs pre "[]"] Nil(3)
    unfolding trailer_bytes_def by (simp add: TRAILER_def)
  moreover have "utf8_lossy TRAILER = TRAILER"
    by (intro utf8_lossy_valid utf8_valid_ascii) (simp add: TRAILER_def)
  moreover have "skip_nul bs (length pre) = length pre" "length pre < length bs"
    using skip_nul_record length_record_bytes by (simp_all add: bs trailer_bytes_def del: append_Nil2)
  ultimately show ?case by (simp add: read_from.simps [of bs "length pre"])
next
  case (Cons e es)
  let ?rest = "concat (map (\<lambda>(i, e). entry_bytes i e) (enumerate (Suc k) es)) @ trailer_bytes"
  have bs: "bs = pre @ entry_bytes k e @ ?rest" using Cons.prems(2) by simp
  obtain r where r: "record_parse bs (length pre) = Inr r" "r_name r \<noteq> TRAILER" "into_entry r = Inr e"
    "r_end r = length pre + length (entry_bytes k e)"
    using entry_parsed [OF _ bs] Cons.prems(1,3) by auto
  have "skip_nul bs (length pre) = length pre" "length pre < length bs"
    using skip_nul_record length_record_bytes by (simp_all add: bs entry_bytes_def)
  then have "read_from bs (length pre) acc = read_from bs (length (pre @ entry_bytes k e)) (acc @ [e])"
    using r by (simp add: read_from.simps [of bs "length pre"])
  also have "\<dots> = Inr ((acc @ [e]) @ es)"
    by (rule Cons.IH) (use Cons.prems(1,3) bs in auto)
  finally show ?case by simp
qed


section \<open>Properties\<close>

text \<open>C3: reading a written archive gives back the entries it was written from, in order, for
  entries of every kind whose path and sizes the format can hold.\<close>

theorem cpio_read_write:
  assumes "\<forall>e \<in> set es. entry_ok e" and "length (cpio_write es) < 2 ^ 64"
  shows "cpio_read (cpio_write es) = Inr es"
  using read_from_written [OF assms(1) _ assms(2), of "[]" 0 "[]"]
  by (simp add: cpio_read_def cpio_write_bytes)

theorem cpio_read_write_witness:
  "cpio_read (cpio_write [entry_dir [0x2F, 0x61] 0x1ED, entry_file [0x2F, 0x61, 0x2F, 0x62] [1, 2, 3] 0x1A4,
       entry_symlink [0x2F, 0x63] [0x61]]) =
     Inr [entry_dir [0x2F, 0x61] 0x1ED, entry_file [0x2F, 0x61, 0x2F, 0x62] [1, 2, 3] 0x1A4,
       entry_symlink [0x2F, 0x63] [0x61]]"
proof (rule cpio_read_write)
  have v: "utf8_valid [0x61]" "utf8_valid [0x61, 0x2F, 0x62]" "utf8_valid [0x63]"
    by (rule utf8_valid_ascii; simp)+
  then show "\<forall>e \<in> set [entry_dir [0x2F, 0x61] 0x1ED, entry_file [0x2F, 0x61, 0x2F, 0x62] [1, 2, 3] 0x1A4,
       entry_symlink [0x2F, 0x63] [0x61]]. entry_ok e"
    by (simp add: entry_ok_def entry_dir_def entry_file_def entry_symlink_def entry_new_def SLASH_def
        BACKSLASH_def TRAILER_def PERM_def payload_of_def)
  show "length (cpio_write [entry_dir [0x2F, 0x61] 0x1ED, entry_file [0x2F, 0x61, 0x2F, 0x62] [1, 2, 3] 0x1A4,
       entry_symlink [0x2F, 0x63] [0x61]]) < 2 ^ 64"
  proof -
    have "archive_name [0x2F, 0x61] = [0x61]" "archive_name [0x2F, 0x61, 0x2F, 0x62] = [0x61, 0x2F, 0x62]"
      "archive_name [0x2F, 0x63] = [0x63]"
      using archive_name_ok [of "[0x61]"] archive_name_ok [of "[0x61, 0x2F, 0x62]"] archive_name_ok [of "[0x63]"] v
      by (simp_all add: SLASH_def BACKSLASH_def)
    then show ?thesis
      by (simp add: cpio_write_bytes entry_bytes_def trailer_bytes_def record_bytes_def Let_def zeros_def
          align4_def TRAILER_def entry_dir_def entry_file_def entry_symlink_def entry_new_def
          payload_of_def header_of_def)
  qed
qed

lemma fold_fold_concat: "fold (\<lambda>xs m. fold f xs m) xss m = fold f (concat xss) m"
  by (induction xss arbitrary: m) simp_all

lemma last_filter_iff:
  "filter P xs \<noteq> [] \<and> last (filter P xs) = e \<longleftrightarrow>
     (\<exists>before after. xs = before @ e # after \<and> P e \<and> (\<forall>x \<in> set after. \<not> P x))"
proof
  assume f: "filter P xs \<noteq> [] \<and> last (filter P xs) = e"
  then have "\<exists>x \<in> set xs. P x" by (auto simp: filter_empty_conv)
  then obtain ys x zs where "xs = ys @ x # zs" "P x" "\<forall>z \<in> set zs. \<not> P z"
    using split_list_last_prop [of xs P] by blast
  moreover from this have "filter P zs = []" by (simp add: filter_empty_conv)
  ultimately show "\<exists>before after. xs = before @ e # after \<and> P e \<and> (\<forall>x \<in> set after. \<not> P x)"
    using f by auto
next
  assume "\<exists>before after. xs = before @ e # after \<and> P e \<and> (\<forall>x \<in> set after. \<not> P x)"
  then obtain ys zs where "xs = ys @ e # zs" "P e" "filter P zs = []"
    by (auto simp: filter_empty_conv)
  then show "filter P xs \<noteq> [] \<and> last (filter P xs) = e" by simp
qed

lemma bt_insert_subset: "(l, w) \<in> set (bt_insert k v m) \<Longrightarrow> (l, w) = (k, v) \<or> (l, w) \<in> set m"
  by (induction k v m rule: bt_insert.induct) (auto split: if_splits)

lemma merge_keys:
  assumes "\<And>k e. (k, e) \<in> set m \<Longrightarrow> k = components (e_path e)"
  shows "(k, e) \<in> set (fold (\<lambda>e m. bt_insert (components (e_path e)) e m) es m) \<Longrightarrow> k = components (e_path e)"
  using assms
proof (induction es arbitrary: m)
  case (Cons x es)
  have "(k, e) \<in> set (fold (\<lambda>e m. bt_insert (components (e_path e)) e m) es (bt_insert (components (e_path x)) x m))"
    using Cons.prems(1) by simp
  then show ?case
    by (rule Cons.IH) (use Cons.prems(2) in \<open>auto dest: bt_insert_subset\<close>)
qed simp

text \<open>C15: a merge holds exactly one entry for each path given, the last one in archive order, and
  lists them in the order of their path components.\<close>

theorem merge_last_wins:
  "sorted_wrt (<) (map (\<lambda>e. components (e_path e)) (merge archives)) \<and>
   (e \<in> set (merge archives) \<longleftrightarrow>
      (\<exists>before after. concat archives = before @ e # after \<and>
         (\<forall>x \<in> set after. components (e_path x) \<noteq> components (e_path e))))"
proof -
  let ?key = "\<lambda>e. components (e_path e)"
  let ?m = "fold (\<lambda>e m. bt_insert (?key e) e m) (concat archives) []"
  have m: "merge archives = map snd ?m" by (simp add: merge_def fold_fold_concat)
  have ins: "?m = bt.insert_all ?key id (concat archives) []" by (simp add: bt.insert_all_def)
  have sorted: "bt_sorted ?m" unfolding ins by (rule bt.invar_insert_all) (rule bt.invar_empty)
  have keys: "\<forall>(k, e) \<in> set ?m. k = ?key e" using merge_keys [of "[]"] by auto
  then have fst: "map ?key (map snd ?m) = map fst ?m" by (auto simp: case_prod_unfold)
  have "e \<in> set (merge archives) \<longleftrightarrow> (?key e, e) \<in> set ?m" using keys by (force simp: m)
  also have "\<dots> \<longleftrightarrow> bt_get ?m (?key e) = Some e" using sorted by (simp add: bt_get_iff)
  also have "\<dots> \<longleftrightarrow> filter (\<lambda>x. ?key x = ?key e) (concat archives) \<noteq> [] \<and>
      last (filter (\<lambda>x. ?key x = ?key e) (concat archives)) = e"
    unfolding ins bt.get_insert_all [OF bt.invar_empty] by (simp add: bt.get_empty split: list.splits)
  finally have "e \<in> set (merge archives) \<longleftrightarrow>
      (\<exists>before after. concat archives = before @ e # after \<and> (\<forall>x \<in> set after. ?key x \<noteq> ?key e))"
    unfolding last_filter_iff by simp
  moreover have "sorted_wrt (<) (map ?key (merge archives))"
    unfolding m fst using sorted by (simp only: bt_sorted_def)
  ultimately show ?thesis by (rule conjI [rotated])
qed

theorem merge_last_wins_witness:
  "entry_file [0x61] [2] 0x1A4 \<in> set (merge [[entry_file [0x61] [1] 0x1A4], [entry_file [0x61] [2] 0x1A4]]) \<and>
   entry_file [0x61] [1] 0x1A4 \<notin> set (merge [[entry_file [0x61] [1] 0x1A4], [entry_file [0x61] [2] 0x1A4]])"
proof -
  have "entry_file [0x61] [1] 0x1A4 \<noteq> entry_file [0x61] [2] 0x1A4"
    and "e_path (entry_file [0x61] [1] 0x1A4) = e_path (entry_file [0x61] [2] 0x1A4)"
    by (simp_all add: entry_file_def entry_new_def)
  then show ?thesis
    using merge_last_wins [of "[[entry_file [0x61] [1] 0x1A4], [entry_file [0x61] [2] 0x1A4]]"]
    by (auto simp: Cons_eq_append_conv)
qed

end
