(* ===== verification/PcLink.thy ===== *)
theory PcLink
  imports Utf8 RustText OrderedMap
begin

text \<open>
  The PC link of \<open>crates/cdj3k-emu-runtime/src/pc_link\<close>: the frame format of \<open>frame.rs\<close> and the
  gadget identity of \<open>gadget.rs\<close>. A reader is the bytes still to come before end of file, a
  writer the bytes sent so far; other I/O errors of the channel are not modelled. The
  properties: any sequence of frames is read back in order, the identity parser accepts hex
  as it is printed, and the report descriptor scan ends on every descriptor.
\<close>

section \<open>Frames\<close>

definition FRAME_HID :: u8 where "FRAME_HID = 0x01"
definition FRAME_MIDI :: u8 where "FRAME_MIDI = 0x02"
definition FRAME_HELLO :: u8 where "FRAME_HELLO = 0x03"
definition FRAME_IDENTITY :: u8 where "FRAME_IDENTITY = 0x04"

datatype io_error = UnexpectedEof | InvalidInput

text \<open>\<open>read_exact\<close>: \<open>n\<close> bytes and the rest of the stream, or \<open>None\<close> for an early end.\<close>

definition read_exact :: "nat \<Rightarrow> bytes \<Rightarrow> (bytes \<times> bytes) option" where
  "read_exact n s = (if n \<le> length s then Some (take n s, drop n s) else None)"

definition read_frame :: "bytes \<Rightarrow> io_error + (u8 \<times> bytes \<times> bytes) option" where
  "read_frame s =
     (case read_exact 3 s of
        None \<Rightarrow> Inr None
      | Some (hdr, s) \<Rightarrow>
          let kind = hdr ! 0;
              len = unat (from_be [hdr ! 1, hdr ! 2] :: u16)
          in if len > 0 then
               (case read_exact len s of
                  None \<Rightarrow> Inl UnexpectedEof
                | Some (payload, s) \<Rightarrow> Inr (Some (kind, payload, s)))
             else Inr (Some (kind, [], s)))"

definition write_frame :: "u8 \<Rightarrow> bytes \<Rightarrow> bytes \<Rightarrow> io_error + bytes" where
  "write_frame kind payload out =
     (if length payload > 65535 then Inl InvalidInput
      else let len = (of_nat (length payload) :: u16);
               hdr = [kind, ucast (drop_bit 8 len), ucast (len AND 0xFF)]
           in Inr ((out @ hdr) @ payload))"

section \<open>The gadget identity\<close>

record gadget_identity =
  vendor_id :: u16
  product_id :: u16
  bcd_device :: u16
  manufacturer :: bytes
  product :: bytes
  serial :: bytes
  report_descriptor :: bytes

datatype gadget_error =
    NotUtf8
  | Missing bytes
  | OddDigits
  | BadHexByte bytes
  | EmptyDescriptor
  | NotHex bytes bytes

definition hex_u16 :: "bytes \<Rightarrow> bytes \<Rightarrow> gadget_error + u16" where
  "hex_u16 key v =
     (let digits = (case strip_prefix [0x30, 0x78] v of None \<Rightarrow> v | Some d \<Rightarrow> d)
      in case parse_radix 16 16 (map unat digits) of
           None \<Rightarrow> Inl (NotHex key v)
         | Some n \<Rightarrow> Inr (of_nat n))"

fun hex_pairs :: "bytes \<Rightarrow> gadget_error + bytes" where
  "hex_pairs (a # b # rest) =
     (case (to_digit 16 (unat a), to_digit 16 (unat b)) of
        (Some hi, Some lo) \<Rightarrow>
          (case hex_pairs rest of
             Inl e \<Rightarrow> Inl e
           | Inr ds \<Rightarrow> Inr (ucast (push_bit 4 (of_nat hi :: u32) OR of_nat lo) # ds))
      | _ \<Rightarrow> Inl (BadHexByte [a, b]))"
| "hex_pairs _ = Inr []"

definition hex_bytes :: "bytes \<Rightarrow> gadget_error + bytes" where
  "hex_bytes v = (if odd (length v) then Inl OddDigits else hex_pairs v)"

definition text_bytes :: "string \<Rightarrow> bytes" where
  "text_bytes s = map of_char s"

definition identity_map :: "bytes \<Rightarrow> (bytes, bytes) btree" where
  "identity_map text =
     fold (\<lambda>line m. case split_once (\<lambda>b. b = 0x3D) line of Some (k, v) \<Rightarrow> bt_insert k v m | None \<Rightarrow> m)
       (lines_by 0x0A 0x0D text) []"

definition need :: "(bytes, bytes) btree \<Rightarrow> string \<Rightarrow> gadget_error + bytes" where
  "need m k = ok_or (Missing (text_bytes k)) (bt_get m (text_bytes k))"

definition identity_parse :: "bytes \<Rightarrow> gadget_error + gadget_identity" where
  "identity_parse payload =
     (if utf8_chars payload = None then Inl NotUtf8
      else let m = identity_map payload in
        bindR (need m ''report_desc'') (\<lambda>v.
        bindR (hex_bytes v) (\<lambda>desc.
        if desc = [] then Inl EmptyDescriptor
        else
          bindR (need m ''idVendor'') (\<lambda>v.
          bindR (hex_u16 (text_bytes ''idVendor'') v) (\<lambda>vid.
          bindR (need m ''idProduct'') (\<lambda>v.
          bindR (hex_u16 (text_bytes ''idProduct'') v) (\<lambda>pid.
          bindR (need m ''bcdDevice'') (\<lambda>v.
          bindR (hex_u16 (text_bytes ''bcdDevice'') v) (\<lambda>bcd.
          bindR (need m ''manufacturer'') (\<lambda>man.
          bindR (need m ''product'') (\<lambda>prod.
          bindR (need m ''serialnumber'') (\<lambda>ser.
            Inr \<lparr>vendor_id = vid, product_id = pid, bcd_device = bcd, manufacturer = man,
                 product = prod, serial = ser, report_descriptor = desc\<rparr>))))))))))))"

section \<open>The report descriptor\<close>

definition item_size :: "u8 \<Rightarrow> nat" where
  "item_size prefix = (if prefix AND 0x03 = 3 then 4 else unat (prefix AND 0x03))"

definition item_value :: "bytes \<Rightarrow> u32" where
  "item_value data = fold (\<lambda>b acc. push_bit 8 acc OR ucast b) (rev data) 0"

function usage_from :: "bytes \<Rightarrow> nat \<Rightarrow> u32 option \<Rightarrow> u32 option \<Rightarrow> (u32 \<times> u32) option" where
  "usage_from d i page usage =
     (if i < length d then
        let prefix = d ! i
        in if prefix = 0xFE then
             (if i + 1 < length d then usage_from d (i + (3 + unat (d ! (i + 1)))) page usage
              else None)
           else
             let size = item_size prefix
             in case get_range (i + 1) (i + 1 + size) d of
                  None \<Rightarrow> None
                | Some data \<Rightarrow>
                    let value = item_value data; tag = prefix AND 0xFC
                    in if tag = 0x04 then usage_from d (i + (1 + size)) (Some value) usage
                       else if tag = 0x08 then usage_from d (i + (1 + size)) page (Some value)
                       else if tag = 0xA0 then
                         (case (page, usage) of (Some p, Some u) \<Rightarrow> Some (p, u) | _ \<Rightarrow> None)
                       else usage_from d (i + (1 + size)) page usage
      else None)"
  by auto
termination
  by (relation "measure (\<lambda>(d, i, _). length d - i)") auto

declare usage_from.simps [simp del]

definition primary_usage :: "gadget_identity \<Rightarrow> (u32 \<times> u32) option" where
  "primary_usage g = usage_from (report_descriptor g) 0 None None"

section \<open>Lemmas\<close>

lemma header_length:
  assumes "length payload \<le> 65535"
  shows "from_be [ucast (drop_bit 8 (of_nat (length payload) :: u16)),
           ucast ((of_nat (length payload) :: u16) AND 0xFF)] = (of_nat (length payload) :: u16)"
proof -
  have m: "(0xFF :: u16) = mask 8" by (simp add: mask_numeral)
  show ?thesis
    unfolding from_be_two m by (intro bit_word_eqI) (auto simp: bit_simps dest: bit_imp_le_length)
qed

lemma write_frame_Inr:
  "write_frame k p out = Inr out' \<longleftrightarrow>
     length p \<le> 65535 \<and>
     out' = out @ [k, ucast (drop_bit 8 (of_nat (length p) :: u16)), ucast ((of_nat (length p) :: u16) AND 0xFF)] @ p"
  by (auto simp: write_frame_def Let_def)

lemma read_written:
  assumes "length p \<le> 65535"
  shows "read_frame ([k, ucast (drop_bit 8 (of_nat (length p) :: u16)), ucast ((of_nat (length p) :: u16) AND 0xFF)]
      @ p @ rest) = Inr (Some (k, p, rest))"
proof -
  have "unat (of_nat (length p) :: u16) = length p" using assms by (simp add: unat_of_nat)
  then show ?thesis
    using header_length [OF assms] by (auto simp: read_frame_def read_exact_def Let_def)
qed

text \<open>Reading frames until the end of the stream; each frame takes at least three bytes.\<close>

lemma read_frame_shorter: "read_frame s = Inr (Some (k, p, r)) \<Longrightarrow> length r < length s"
  by (auto simp: read_frame_def read_exact_def Let_def split: if_splits)

function read_frames :: "bytes \<Rightarrow> io_error + (u8 \<times> bytes) list" where
  "read_frames s =
     (case read_frame s of
        Inl e \<Rightarrow> Inl e
      | Inr None \<Rightarrow> Inr []
      | Inr (Some (k, p, rest)) \<Rightarrow> bindR (read_frames rest) (\<lambda>fs. Inr ((k, p) # fs)))"
  by pat_completeness auto
termination
  by (relation "measure length") (auto dest: read_frame_shorter)

declare read_frames.simps [simp del]

definition write_frames :: "(u8 \<times> bytes) list \<Rightarrow> bytes \<Rightarrow> io_error + bytes" where
  "write_frames fs out = fold (\<lambda>(k, p) r. bindR r (write_frame k p)) fs (Inr out)"

lemma write_frames_fail: "fold (\<lambda>(k, p) r. bindR r (write_frame k p)) fs (Inl e) = Inl e"
  by (induction fs) auto

section \<open>Properties\<close>

text \<open>C23: whatever frames are written to the link, in whatever order, the peer reads exactly these
  frames in this order and then a clean end; a frame is refused only for a payload over 65535
  bytes.\<close>

theorem frames_round_trip:
  "(case write_frames fs [] of
      Inr s \<Rightarrow> read_frames s = Inr fs
    | Inl e \<Rightarrow> e = InvalidInput \<and> (\<exists>(k, p) \<in> set fs. length p > 65535))"
proof -
  have "(case write_frames fs out of
      Inr s \<Rightarrow> \<exists>t. s = out @ t \<and> read_frames t = Inr fs
    | Inl e \<Rightarrow> e = InvalidInput \<and> (\<exists>(k, p) \<in> set fs. length p > 65535))" for out
  proof (induction fs arbitrary: out)
    case Nil
    then show ?case
      by (simp add: write_frames_def read_frames.simps [of "[]"] read_frame_def read_exact_def)
  next
    case (Cons f fs)
    obtain k p where f: "f = (k, p)" by (cases f)
    show ?case
    proof (cases "length p \<le> 65535")
      case False
      then show ?thesis by (simp add: f write_frames_def write_frame_def write_frames_fail)
    next
      case True
      let ?h = "[k, ucast (drop_bit 8 (of_nat (length p) :: u16)), ucast ((of_nat (length p) :: u16) AND 0xFF)]"
      have w: "write_frames (f # fs) out = write_frames fs (out @ ?h @ p)"
        using True by (simp add: f write_frames_def write_frame_def Let_def)
      have "read_frames (?h @ p @ t) = Inr ((k, p) # fs)" if "read_frames t = Inr fs" for t
        using that read_written [OF True, of k t] by (subst read_frames.simps) simp
      then show ?thesis
        using Cons.IH [of "out @ ?h @ p"] unfolding w by (auto simp: f split: sum.splits)
    qed
  qed
  from this [of "[]"] show ?thesis by (auto split: sum.splits)
qed

text \<open>The descriptor as \<open>gadget.c\<close> prints it, two lower-case digits a byte.\<close>

definition nibble_char :: "nat \<Rightarrow> u8" where
  "nibble_char d = (if d < 10 then of_nat (48 + d) else of_nat (87 + d))"

definition hex2 :: "u8 \<Rightarrow> bytes" where
  "hex2 b = [nibble_char (unat b div 16), nibble_char (unat b mod 16)]"

lemma to_digit_nibble: "d < 16 \<Longrightarrow> to_digit 16 (unat (nibble_char d)) = Some d"
proof -
  assume d: "d < 16"
  then have "unat (nibble_char d) = (if d < 10 then 48 + d else 87 + d)"
    by (simp only: nibble_char_def if_distrib [of unat] unat_of_nat) simp
  with d show ?thesis by (auto simp: to_digit_def)
qed

lemma nibbles_join:
  "(ucast (push_bit 4 (of_nat (unat b div 16) :: u32) OR of_nat (unat b mod 16)) :: u8) = (b :: u8)"
proof -
  have d: "unat b div 16 = drop_bit 4 (unat b)" "unat b mod 16 = take_bit 4 (unat b)"
    by (simp_all add: drop_bit_eq_div take_bit_eq_mod)
  show ?thesis unfolding d by (rule bit_word_eqI) (auto simp: bit_simps)
qed

text \<open>The descriptor parser inverts the printer for every descriptor, and whatever it accepts
  has two digits for each byte.\<close>

theorem descriptor_hex:
  "hex_bytes (concat (map hex2 bs)) = Inr bs \<and>
   (hex_bytes v = Inr ds \<longrightarrow> length v = 2 * length ds)"
proof
  have "even (length (concat (map hex2 bs)))" by (induction bs) (simp_all add: hex2_def)
  moreover have "hex_pairs (concat (map hex2 bs)) = Inr bs"
  proof (induction bs)
    case (Cons b bs)
    have "unat b div 16 < 16" using unsigned_less [of b, where 'a = nat] by simp
    then show ?case using Cons by (simp add: hex2_def to_digit_nibble nibbles_join)
  qed simp
  ultimately show "hex_bytes (concat (map hex2 bs)) = Inr bs" by (simp add: hex_bytes_def)
  have "even (length v) \<Longrightarrow> hex_pairs v = Inr ds \<Longrightarrow> length v = 2 * length ds"
    by (induction v arbitrary: ds rule: hex_pairs.induct) (auto split: option.splits sum.splits)
  then show "hex_bytes v = Inr ds \<longrightarrow> length v = 2 * length ds" by (simp add: hex_bytes_def)
qed

theorem descriptor_hex_witness:
  "hex_bytes (text_bytes ''06a0ff'') = Inr [0x06, 0xA0, 0xFF] \<and> length (text_bytes ''06a0ff'') = 2 * 3"
proof -
  have "hex_bytes (text_bytes ''06a0ff'') = Inr [0x06, 0xA0, 0xFF]" by code_simp
  then show ?thesis using descriptor_hex [of "[]" "text_bytes ''06a0ff''" "[0x06, 0xA0, 0xFF]"] by simp
qed

end
