(* ===== verification/FloatText.thy ===== *)
theory FloatText
  imports Floats RustText
begin

text \<open>
  \<open>str::parse::<f32>\<close>: the decimal grammar of the standard library and the value rounded to the
  nearest \<open>f32\<close>. A float read from text can be infinite or not a number; \<open>float_text\<close> keeps these
  apart from the finite values, and the comparisons below are false for them where Rust's are.
\<close>

datatype float_text = Fin f32 | Inf bool | NaN

definition all_digits :: "string \<Rightarrow> bool" where
  "all_digits s = list_all is_digit s"

definition digits_nat :: "string \<Rightarrow> nat" where
  "digits_nat s = digits_value 10 (map (\<lambda>c. code c - 48) s)"

text \<open>An optional sign: whether it is a minus, and the rest.\<close>

definition take_sign :: "string \<Rightarrow> bool \<times> string" where
  "take_sign s =
     (case s of
        [] \<Rightarrow> (False, [])
      | c # r \<Rightarrow> if c = CHR ''-'' then (True, r) else if c = CHR ''+'' then (False, r) else (False, s))"

definition parse_exponent :: "string \<Rightarrow> int option" where
  "parse_exponent s =
     (case take_sign s of (neg, ds) \<Rightarrow>
        if ds \<noteq> [] \<and> all_digits ds then Some (if neg then - int (digits_nat ds) else int (digits_nat ds))
        else None)"

definition parse_mantissa :: "string \<Rightarrow> rat option" where
  "parse_mantissa s =
     (case split_once (\<lambda>c. c = CHR ''.'') s of
        None \<Rightarrow> if s \<noteq> [] \<and> all_digits s then Some (of_nat (digits_nat s)) else None
      | Some (i, f) \<Rightarrow>
          if (i \<noteq> [] \<or> f \<noteq> []) \<and> all_digits i \<and> all_digits f
          then Some (of_nat (digits_nat (i @ f)) / 10 ^ length f)
          else None)"

definition parse_decimal :: "string \<Rightarrow> rat option" where
  "parse_decimal s =
     (case split_once (\<lambda>c. c = CHR ''e'' \<or> c = CHR ''E'') s of
        None \<Rightarrow> parse_mantissa s
      | Some (m, e) \<Rightarrow>
          (case (parse_mantissa m, parse_exponent e) of
             (Some v, Some x) \<Rightarrow> Some (v * 10 powi x)
           | _ \<Rightarrow> None))"

definition parse_f32 :: "string \<Rightarrow> float_text option" where
  "parse_f32 s =
     (case take_sign s of (neg, r) \<Rightarrow>
        if to_ascii_lowercase r = ''inf'' \<or> to_ascii_lowercase r = ''infinity'' then Some (Inf neg)
        else if to_ascii_lowercase r = ''nan'' then Some NaN
        else (case parse_decimal r of
                None \<Rightarrow> None
              | Some v \<Rightarrow>
                  let x = rnd32 v
                  in if x \<ge> 2 ^ 128 then Some (Inf neg) else Some (Fin (if neg then - x else x))))"

text \<open>\<open>(0.0..=1.0).contains(&v)\<close>.\<close>

fun in_unit :: "float_text \<Rightarrow> bool" where
  "in_unit (Fin v) = (0 \<le> v \<and> v \<le> 1)"
| "in_unit _ = False"

fun fin_value :: "float_text \<Rightarrow> f32" where
  "fin_value (Fin v) = v"
| "fin_value _ = 0"

lemma in_unitD: "in_unit v \<Longrightarrow> \<exists>x. v = Fin x \<and> 0 \<le> x \<and> x \<le> 1"
  by (cases v) auto

section \<open>Printing\<close>

text \<open>
  \<open>Display\<close> of an \<open>f32\<close>: the fewest decimals that still parse to the same float, without an
  exponent. Every float has at most 149 binary, and so at most 149 decimal, places. The
  definition is for values below \<open>2 ^ 24\<close>, where the integer part is printed in full.
\<close>

definition decimal_at :: "nat \<Rightarrow> f32 \<Rightarrow> int" where
  "decimal_at n x = round_half_even (x * 10 ^ n)"

definition decimal_exact :: "nat \<Rightarrow> f32 \<Rightarrow> bool" where
  "decimal_exact n x = (rnd32 (of_int (decimal_at n x) / 10 ^ n) = x)"

fun find_places :: "nat \<Rightarrow> nat \<Rightarrow> f32 \<Rightarrow> nat" where
  "find_places 0 n x = n"
| "find_places (Suc fuel) n x = (if decimal_exact n x then n else find_places fuel (Suc n) x)"

definition pad_zeros :: "nat \<Rightarrow> string \<Rightarrow> string" where
  "pad_zeros n s = replicate (n - length s) (CHR ''0'') @ s"

definition show_f32 :: "f32 \<Rightarrow> string" where
  "show_f32 x =
     (let n = find_places 149 0 \<bar>x\<bar>;
          k = nat (decimal_at n \<bar>x\<bar>);
          whole = show_nat (k div 10 ^ n)
      in (if x < 0 then ''-'' else []) @
         (if n = 0 then whole else whole @ ''.'' @ pad_zeros n (show_nat (k mod 10 ^ n))))"

lemma digits_value_append: "digits_value r (a @ b) = digits_value r a * r ^ length b + digits_value r b"
proof (induction b rule: rev_induct)
  case (snoc d b)
  then show ?case
    using digits_value_snoc [of r "a @ b" d] digits_value_snoc [of r b d]
    by (simp add: algebra_simps)
qed (simp add: digits_value_def)

lemma digits_nat_append: "digits_nat (a @ b) = digits_nat a * 10 ^ length b + digits_nat b"
  by (simp add: digits_nat_def digits_value_append)

lemma digits_nat_show [simp]: "digits_nat (show_nat n) = n"
proof (induction n rule: show_nat.induct)
  case (1 n)
  have one: "d < 10 \<Longrightarrow> digits_nat [char_of (48 + d)] = d" for d
    by (simp add: digits_nat_def digits_value_def code_digit)
  show ?case
  proof (cases "n < 10")
    case True
    then show ?thesis by (simp add: show_nat.simps [of n] one)
  next
    case False
    then show ?thesis using 1 by (simp add: show_nat.simps [of n] digits_nat_append one)
  qed
qed

lemma digits_nat_zeros [simp]: "digits_nat (replicate n (CHR ''0'')) = 0"
  by (induction n) (simp_all add: digits_nat_def digits_value_def)

lemma show_nat_digits_all [simp]: "all_digits (show_nat n)"
  using show_nat_all_digits by (auto simp: all_digits_def list_all_iff)

lemma length_show_nat: "n < 10 ^ Suc k \<Longrightarrow> length (show_nat n) \<le> Suc k"
proof (induction k arbitrary: n)
  case (Suc k)
  show ?case
  proof (cases "n < 10")
    case False
    have "n div 10 < 10 ^ Suc k" using Suc.prems by (simp add: less_mult_imp_div_less)
    with Suc.IH False show ?thesis by (simp add: show_nat.simps [of n])
  qed (simp add: show_nat.simps [of n])
qed (simp add: show_nat.simps)

lemma pad_zeros_digits:
  assumes "f < 10 ^ Suc n"
  shows "all_digits (pad_zeros (Suc n) (show_nat f))" "length (pad_zeros (Suc n) (show_nat f)) = Suc n"
    "digits_nat (pad_zeros (Suc n) (show_nat f)) = f"
proof -
  have "is_digit (CHR ''0'')" by code_simp
  then show "all_digits (pad_zeros (Suc n) (show_nat f))"
    using show_nat_all_digits by (auto simp: all_digits_def list_all_iff pad_zeros_def)
  show "length (pad_zeros (Suc n) (show_nat f)) = Suc n" using length_show_nat [OF assms] by (simp add: pad_zeros_def)
  show "digits_nat (pad_zeros (Suc n) (show_nat f)) = f" by (simp add: pad_zeros_def digits_nat_append)
qed

lemma parse_decimal_show:
  assumes "0 < n"
  shows "parse_decimal (show_nat (k div 10 ^ n) @ ''.'' @ pad_zeros n (show_nat (k mod 10 ^ n))) =
    Some (of_nat k / 10 ^ n)"
proof -
  obtain m where n: "n = Suc m" using assms by (cases n) auto
  let ?i = "show_nat (k div 10 ^ n)" and ?f = "pad_zeros n (show_nat (k mod 10 ^ n))"
  have f: "all_digits ?f" "length ?f = n" "digits_nat ?f = k mod 10 ^ n"
    using pad_zeros_digits [of "k mod 10 ^ n" m] by (simp_all add: n)
  have digit: "is_digit c \<Longrightarrow> c \<noteq> CHR ''e'' \<and> c \<noteq> CHR ''E'' \<and> c \<noteq> CHR ''.''" for c
    by (auto simp: is_digit_def)
  have i: "\<forall>c \<in> set ?i. is_digit c" using show_nat_all_digits by blast
  then have "split_once (\<lambda>c. c = CHR ''.'') (?i @ CHR ''.'' # ?f) = Some (?i, ?f)"
    using digit by (intro split_once_append) blast+
  moreover have "digits_nat (?i @ ?f) = k" unfolding digits_nat_append f digits_nat_show by (rule div_mult_mod_eq)
  moreover have "?i \<noteq> []" using show_nat_hd [of "k div 10 ^ n"] by auto
  ultimately have "parse_mantissa (?i @ ''.'' @ ?f) = Some (of_nat k / 10 ^ n)"
    using f by (simp add: parse_mantissa_def)
  moreover have "split_once (\<lambda>c. c = CHR ''e'' \<or> c = CHR ''E'') (?i @ ''.'' @ ?f) = None"
    using i f(1) digit unfolding split_once_None all_digits_def list_all_iff by auto
  ultimately show ?thesis by (simp add: parse_decimal_def)
qed

lemma parse_decimal_nat: "parse_decimal (show_nat k) = Some (of_nat k)"
proof -
  have digit: "is_digit c \<Longrightarrow> c \<noteq> CHR ''e'' \<and> c \<noteq> CHR ''E'' \<and> c \<noteq> CHR ''.''" for c
    by (auto simp: is_digit_def)
  then have "split_once (\<lambda>c. c = CHR ''e'' \<or> c = CHR ''E'') (show_nat k) = None"
    "split_once (\<lambda>c. c = CHR ''.'') (show_nat k) = None"
    using show_nat_all_digits [of _ k] unfolding split_once_None by blast+
  moreover have "show_nat k \<noteq> []" using show_nat_hd [of k] by auto
  ultimately show ?thesis by (simp add: parse_decimal_def parse_mantissa_def)
qed

text \<open>A float is a multiple of \<open>2 powi - 149\<close>, so some number of places is exact.\<close>

lemma f32_dyadic: "rnd32 x = x \<Longrightarrow> \<exists>m. x = of_int m / 2 ^ 149"
proof (cases "x = 0")
  case True
  then show ?thesis by (intro exI [of _ 0]) simp
next
  case False
  assume x: "rnd32 x = x"
  let ?e = "rnd_exp 24 (-149) x"
  define r where "r = round_half_even (x / 2 powi ?e)"
  have e: "-149 \<le> ?e" by (simp add: rnd_exp_def)
  have "x = of_int r * 2 powi ?e" using x False by (simp add: rnd32_def rnd_nonzero r_def)
  also have "(2::rat) powi ?e = 2 powi (?e + int 149) / 2 powi int 149"
    using power_int_diff [of "2::rat" "?e + int 149" "int 149"] by simp
  also have "(2::rat) powi (?e + int 149) = of_int (2 ^ nat (?e + int 149))"
    using e by (simp only: of_int_two_power) simp
  also have "(2::rat) powi int 149 = 2 ^ 149" by (simp only: power_int_of_nat)
  finally have "x = of_int (r * 2 ^ nat (?e + int 149)) / 2 ^ 149" by (simp only: of_int_mult times_divide_eq_right)
  then show ?thesis by blast
qed

lemma decimal_exact_dyadic:
  assumes "rnd32 x = x" and "x = of_int m / 2 ^ p"
  shows "decimal_exact p x"
proof -
  have "(10::rat) ^ p = 2 ^ p * 5 ^ p" by (simp flip: power_mult_distrib)
  then have x: "x * 10 ^ p = of_int (m * 5 ^ p)" by (simp add: assms(2))
  then have "of_int (decimal_at p x) = x * 10 ^ p" unfolding decimal_at_def by (simp only: round_half_even_of_int)
  then show ?thesis using assms(1) by (simp add: decimal_exact_def)
qed

lemma find_places_exact: "n \<le> k \<Longrightarrow> k \<le> n + fuel \<Longrightarrow> decimal_exact k x \<Longrightarrow> decimal_exact (find_places fuel n x) x"
proof (induction fuel n x rule: find_places.induct)
  case (2 fuel n x)
  then show ?case by (cases "k = n") auto
qed auto

lemma decimal_at_nonneg: "0 \<le> x \<Longrightarrow> 0 \<le> decimal_at n x"
  using round_half_even_mono [of 0 "x * 10 ^ n"] round_half_even_of_int [of 0] by (simp add: decimal_at_def)

text \<open>Parsing inverts printing.\<close>

lemma parse_show_f32:
  assumes "rnd32 x = x" and "0 \<le> x" and "x < 2 ^ 24"
  shows "parse_f32 (show_f32 x) = Some (Fin x)"
proof -
  define n where "n = find_places 149 0 x"
  define k where "k = nat (decimal_at n x)"
  have "decimal_exact n x"
  proof -
    obtain m where "x = of_int m / 2 ^ 149" using f32_dyadic [OF assms(1)] by blast
    then have "decimal_exact 149 x" by (rule decimal_exact_dyadic [OF assms(1)])
    then show ?thesis unfolding n_def by (rule find_places_exact [of 0 149 149, rotated 2]) simp_all
  qed
  then have r: "rnd32 (of_nat k / 10 ^ n) = x"
    using decimal_at_nonneg [OF assms(2), of n] by (simp add: decimal_exact_def k_def)
  have s: "show_f32 x = (if n = 0 then show_nat (k div 10 ^ n)
      else show_nat (k div 10 ^ n) @ ''.'' @ pad_zeros n (show_nat (k mod 10 ^ n)))"
    using assms(2) by (simp add: show_f32_def n_def k_def Let_def)
  obtain d ds where d: "show_nat (k div 10 ^ n) = d # ds" "is_digit d" using show_nat_hd by blast
  then obtain ds' where s': "show_f32 x = d # ds'" unfolding s by (cases "n = 0") auto
  have "d \<noteq> CHR ''-''" "d \<noteq> CHR ''+''" using d(2) is_digit_not_sign by blast+
  then have sign: "take_sign (show_f32 x) = (False, show_f32 x)" by (simp add: s' take_sign_def)
  have "lower d = d" "d \<noteq> CHR ''i''" "d \<noteq> CHR ''n''"
    using d(2) by (auto simp: lower_def is_upper_def is_digit_def Let_def)
  then have word: "to_ascii_lowercase (show_f32 x) \<noteq> ''inf''" "to_ascii_lowercase (show_f32 x) \<noteq> ''infinity''"
    "to_ascii_lowercase (show_f32 x) \<noteq> ''nan''"
    by (simp_all add: s' to_ascii_lowercase_def)
  have "parse_decimal (show_f32 x) = Some (of_nat k / 10 ^ n)"
    unfolding s using parse_decimal_nat [of k] parse_decimal_show [of n k] by simp
  moreover have "\<not> (2 ^ 128 \<le> x)" using assms(3) by simp
  ultimately show ?thesis using sign word r by (simp add: parse_f32_def Let_def)
qed

lemma show_f32_examples: "show_f32 (1 / 2) = ''0.5''" "show_f32 1 = ''1''" "show_f32 (rnd32 (7 / 10)) = ''0.7''"
  by code_simp+

end
