(* ===== verification/ImageDiff.thy ===== *)
theory ImageDiff
  imports FloatText
begin

text \<open>
  Pixel comparison, \<open>crates/cdj3k-emu-control/src/diff.rs\<close> and \<open>Image::new\<close> of \<open>image.rs\<close>: regions
  in fractions of the image, mask files, the comparison with its skip of equal rows, and the
  difference picture. Widths, heights and counters are natural numbers: the counters count
  pixels of images that fit in memory. The main result is that \<open>compare\<close>, with its row skip and
  running box, equals counting every visible pixel one by one.
\<close>

section \<open>Images and regions\<close>

datatype diff_error =
    BadImageSize nat nat nat
  | NotFourNumbers string
  | NotRegion string
  | SizesDiffer "nat \<times> nat" "nat \<times> nat"
  | MaskLine nat diff_error

record image =
  img_width :: nat
  img_height :: nat
  rgba :: bytes

definition image_new :: "nat \<Rightarrow> nat \<Rightarrow> bytes \<Rightarrow> diff_error + image" where
  "image_new w h px =
     (if length px \<noteq> w * h * 4 then Inl (BadImageSize (length px) w h)
      else Inr \<lparr>img_width = w, img_height = h, rgba = px\<rparr>)"

record region =
  rg_x0 :: f32
  rg_y0 :: f32
  rg_x1 :: f32
  rg_y1 :: f32

definition region_parse :: "string \<Rightarrow> diff_error + region" where
  "region_parse s =
     (case mapM_opt parse_f32
             (filter (\<lambda>w. w \<noteq> []) (split_by (\<lambda>c. c = CHR '','' \<or> is_ws c) s)) of
        Some [x0, y0, x1, y1] \<Rightarrow>
          if \<not> (in_unit x0 \<and> in_unit y0 \<and> in_unit x1 \<and> in_unit y1) \<or>
             fin_value x0 \<ge> fin_value x1 \<or> fin_value y0 \<ge> fin_value y1
          then Inl (NotRegion s)
          else Inr \<lparr>rg_x0 = fin_value x0, rg_y0 = fin_value y0, rg_x1 = fin_value x1, rg_y1 = fin_value y1\<rparr>
      | _ \<Rightarrow> Inl (NotFourNumbers s))"

definition region_contains :: "region \<Rightarrow> nat \<Rightarrow> nat \<Rightarrow> nat \<Rightarrow> nat \<Rightarrow> bool" where
  "region_contains r x y w h =
     (let fx = rnd32 (rnd32 (rnd32 (of_nat x) + 1 / 2) / rnd32 (of_nat w));
          fy = rnd32 (rnd32 (rnd32 (of_nat y) + 1 / 2) / rnd32 (of_nat h))
      in fx \<ge> rg_x0 r \<and> fx < rg_x1 r \<and> fy \<ge> rg_y0 r \<and> fy < rg_y1 r)"

text \<open>The regions of a mask file's text; the error names the line, counted from one.\<close>

definition mask_line :: "string \<Rightarrow> string" where
  "mask_line line = trim (hd (split_by (\<lambda>c. c = CHR ''#'') line))"

definition read_masks :: "string \<Rightarrow> diff_error + region list" where
  "read_masks txt =
     mapM_sum (\<lambda>(n, l). case region_parse l of Inl e \<Rightarrow> Inl (MaskLine (n + 1) e) | Inr r \<Rightarrow> Inr r)
       (filter (\<lambda>(n, l). l \<noteq> []) (map (\<lambda>(n, l). (n, mask_line l)) (enumerate 0 (lines txt))))"

section \<open>Comparison\<close>

record options =
  threshold :: u8
  masks :: "region list"
  only :: "region option"

definition masked :: "options \<Rightarrow> nat \<Rightarrow> nat \<Rightarrow> nat \<Rightarrow> nat \<Rightarrow> bool" where
  "masked opts x y w h =
     ((case only opts of None \<Rightarrow> False | Some r \<Rightarrow> \<not> region_contains r x y w h) \<or>
      list_ex (\<lambda>m. region_contains m x y w h) (masks opts))"

definition masks_anything :: "options \<Rightarrow> bool" where
  "masks_anything opts = (only opts \<noteq> None \<or> masks opts \<noteq> [])"

definition abs_diff :: "u8 \<Rightarrow> u8 \<Rightarrow> u8" where
  "abs_diff p q = (if p \<le> q then q - p else p - q)"

definition differs :: "options \<Rightarrow> bytes \<Rightarrow> bytes \<Rightarrow> bool" where
  "differs opts a b = list_ex (\<lambda>(p, q). abs_diff p q > threshold opts) (zip a b)"

record report =
  rep_width :: nat
  rep_height :: nat
  compared :: nat
  changed :: nat
  bbox :: "(nat \<times> nat \<times> nat \<times> nat) option"

definition U32_MAX :: nat where
  "U32_MAX = 2 ^ 32 - 1"

text \<open>The loop's state: pixels compared, pixels changed, and the running box.\<close>

record tally =
  t_compared :: nat
  t_changed :: nat
  t_x0 :: nat
  t_y0 :: nat
  t_x1 :: nat
  t_y1 :: nat

definition tally_init :: tally where
  "tally_init = \<lparr>t_compared = 0, t_changed = 0, t_x0 = U32_MAX, t_y0 = U32_MAX, t_x1 = 0, t_y1 = 0\<rparr>"

definition same_size :: "image \<Rightarrow> image \<Rightarrow> bool" where
  "same_size a b = ((img_width a, img_height a) = (img_width b, img_height b))"

definition pixel_step :: "image \<Rightarrow> image \<Rightarrow> options \<Rightarrow> nat \<Rightarrow> nat \<Rightarrow> tally \<Rightarrow> tally" where
  "pixel_step ref act opts y x t =
     (let w = img_width act; h = img_height act
      in if masked opts x y w h then t
         else
           let t = t\<lparr>t_compared := t_compared t + 1\<rparr>;
               i = y * (w * 4) + x * 4
           in if differs opts (slice_of i 4 (rgba ref)) (slice_of i 4 (rgba act))
              then t\<lparr>t_changed := t_changed t + 1, t_x0 := min (t_x0 t) x, t_y0 := min (t_y0 t) y,
                     t_x1 := max (t_x1 t) x, t_y1 := max (t_y1 t) y\<rparr>
              else t)"

definition row_step :: "image \<Rightarrow> image \<Rightarrow> options \<Rightarrow> nat \<Rightarrow> tally \<Rightarrow> tally" where
  "row_step ref act opts y t =
     (let w = img_width act; h = img_height act; row_bytes = w * 4
      in if slice_of (y * row_bytes) row_bytes (rgba ref) = slice_of (y * row_bytes) row_bytes (rgba act)
         then t\<lparr>t_compared := t_compared t +
                  (if masks_anything opts
                   then length (filter (\<lambda>x. \<not> masked opts x y w h) [0..<w]) else w)\<rparr>
         else fold (pixel_step ref act opts y) [0..<w] t)"

definition compare :: "image \<Rightarrow> image \<Rightarrow> options \<Rightarrow> diff_error + report" where
  "compare ref act opts =
     (if \<not> same_size ref act
      then Inl (SizesDiffer (img_width ref, img_height ref) (img_width act, img_height act))
      else
        let t = fold (row_step ref act opts) [0..<img_height act] tally_init
        in Inr \<lparr>rep_width = img_width act, rep_height = img_height act,
                compared = t_compared t, changed = t_changed t,
                bbox = (if t_changed t > 0
                        then Some (t_x0 t, t_y0 t, t_x1 t - t_x0 t + 1, t_y1 t - t_y0 t + 1)
                        else None)\<rparr>)"

section \<open>The difference picture\<close>

datatype pixel = Same | Changed | Masked

definition pixel_kind :: "image \<Rightarrow> image \<Rightarrow> options \<Rightarrow> nat \<Rightarrow> nat \<Rightarrow> pixel" where
  "pixel_kind ref act opts x y =
     (let w = img_width act; h = img_height act
      in if masked opts x y w h then Masked
         else let i = (y * w + x) * 4
              in if differs opts (slice_of i 4 (rgba ref)) (slice_of i 4 (rgba act)) then Changed
                 else Same)"

definition grey_of :: "bytes \<Rightarrow> u8" where
  "grey_of p =
     of_nat ((unat (p ! 0) * 3 + unat (p ! 1) * 6 + unat (p ! 2)) div 10 div 3)"

definition diff_pixel :: "pixel \<Rightarrow> u8 \<Rightarrow> bytes" where
  "diff_pixel k grey =
     (case k of
        Same \<Rightarrow> [grey, grey, grey, 0xFF]
      | Masked \<Rightarrow> [grey div 2, grey div 2, grey div 2 + 0x60, 0xFF]
      | Changed \<Rightarrow> [0xFF, 0x10, 0x40, 0xFF])"

definition diff_step :: "image \<Rightarrow> image \<Rightarrow> options \<Rightarrow> nat \<Rightarrow> nat \<Rightarrow> bytes \<Rightarrow> bytes" where
  "diff_step ref act opts y x out =
     (let i = (y * img_width act + x) * 4;
          p = slice_of i 4 (rgba act)
      in put_at i (diff_pixel (pixel_kind ref act opts x y) (grey_of p)) out)"

definition diff_image :: "image \<Rightarrow> image \<Rightarrow> options \<Rightarrow> diff_error + image" where
  "diff_image ref act opts =
     (if \<not> same_size ref act
      then Inl (SizesDiffer (img_width ref, img_height ref) (img_width act, img_height act))
      else
        let out = fold (\<lambda>y out. fold (diff_step ref act opts y) [0..<img_width act] out)
                    [0..<img_height act] (replicate (length (rgba act)) 0)
        in image_new (img_width act) (img_height act) out)"

section \<open>Reference definition\<close>

text \<open>Every pixel of the image, the visible ones and the changed ones among them.\<close>

definition pixels :: "nat \<Rightarrow> nat \<Rightarrow> (nat \<times> nat) list" where
  "pixels w h = concat (map (\<lambda>y. map (\<lambda>x. (x, y)) [0..<w]) [0..<h])"

definition visible :: "image \<Rightarrow> options \<Rightarrow> (nat \<times> nat) list" where
  "visible act opts =
     filter (\<lambda>(x, y). \<not> masked opts x y (img_width act) (img_height act)) (pixels (img_width act) (img_height act))"

definition changed_pixels :: "image \<Rightarrow> image \<Rightarrow> options \<Rightarrow> (nat \<times> nat) list" where
  "changed_pixels ref act opts =
     filter (\<lambda>(x, y). pixel_kind ref act opts x y = Changed) (visible act opts)"

definition image_ok :: "image \<Rightarrow> bool" where
  "image_ok i = (length (rgba i) = img_width i * img_height i * 4)"

section \<open>Lemmas\<close>

lemma differs_refl: "\<not> differs opts a a"
proof -
  have "abs_diff p q = 0" if "(p, q) \<in> set (zip a a)" for p q
    using that by (auto simp: abs_diff_def in_set_zip)
  then show ?thesis by (fastforce simp: differs_def list_ex_iff)
qed

lemma slice_of_slice: "k + n \<le> m \<Longrightarrow> slice_of k n (slice_of i m xs) = slice_of (i + k) n xs"
  by (simp add: slice_of_def drop_take min_def add.commute)

lemma pixel_step_row_equal:
  assumes eq: "slice_of (y * (w * 4)) (w * 4) (rgba ref) = slice_of (y * (w * 4)) (w * 4) (rgba act)"
    and w: "w = img_width act" and xs: "\<forall>x \<in> set xs. x < w"
  shows "fold (pixel_step ref act opts y) xs t =
    t\<lparr>t_compared := t_compared t + length (filter (\<lambda>x. \<not> masked opts x y w (img_height act)) xs)\<rparr>"
  using xs
proof (induction xs arbitrary: t)
  case (Cons x xs)
  then have "slice_of (y * (w * 4) + x * 4) 4 (rgba ref) = slice_of (y * (w * 4) + x * 4) 4 (rgba act)"
    using slice_of_slice [of "x * 4" 4 "w * 4" "y * (w * 4)"] eq by (metis Suc_leI add.commute
        list.set_intros(1) mult_Suc mult_le_mono1)
  then have "pixel_step ref act opts y x t =
      (if masked opts x y w (img_height act) then t else t\<lparr>t_compared := t_compared t + 1\<rparr>)"
    by (simp add: pixel_step_def Let_def differs_refl flip: w)
  then show ?case using Cons by simp
qed simp

lemma not_masked: "\<not> masks_anything opts \<Longrightarrow> \<not> masked opts x y w h"
  by (simp add: masks_anything_def masked_def)

text \<open>The row skip changes nothing.\<close>

lemma row_step_pixels: "row_step ref act opts y t = fold (pixel_step ref act opts y) [0..<img_width act] t"
proof (cases "slice_of (y * (img_width act * 4)) (img_width act * 4) (rgba ref) =
    slice_of (y * (img_width act * 4)) (img_width act * 4) (rgba act)")
  case True
  have "length (filter (\<lambda>x. \<not> masked opts x y (img_width act) (img_height act)) [0..<img_width act]) =
      img_width act" if "\<not> masks_anything opts"
    using that by (simp add: not_masked)
  then show ?thesis
    using True pixel_step_row_equal [OF True refl, of "[0..<img_width act]" opts t]
    by (simp add: row_step_def Let_def)
qed (simp add: row_step_def Let_def)

lemma pixel_step_kind:
  "pixel_step ref act opts y x t =
     (case pixel_kind ref act opts x y of
        Masked \<Rightarrow> t
      | Same \<Rightarrow> t\<lparr>t_compared := t_compared t + 1\<rparr>
      | Changed \<Rightarrow>
          t\<lparr>t_compared := t_compared t + 1, t_changed := t_changed t + 1, t_x0 := min (t_x0 t) x,
            t_y0 := min (t_y0 t) y, t_x1 := max (t_x1 t) x, t_y1 := max (t_y1 t) y\<rparr>)"
proof -
  have i: "y * (img_width act * 4) + x * 4 = (y * img_width act + x) * 4" by (simp add: algebra_simps)
  show ?thesis unfolding pixel_step_def pixel_kind_def Let_def i by simp
qed

lemma fold_rows:
  "fold (\<lambda>y t. fold (f y) [0..<w] t) [0..<h] t = fold (\<lambda>(x, y) t. f y x t) (pixels w h) t"
proof (induction h arbitrary: t)
  case (Suc h)
  have "fold (\<lambda>(x, y) t. f y x t) (map (\<lambda>x. (x, h)) xs) t = fold (f h) xs t" for xs t
    by (induction xs arbitrary: t) simp_all
  then show ?case using Suc by (simp add: pixels_def)
qed (simp add: pixels_def)

lemma tally_pixels:
  "fold (\<lambda>(x, y) t. pixel_step ref act opts y x t) ps t =
     (let vis = filter (\<lambda>(x, y). pixel_kind ref act opts x y \<noteq> Masked) ps;
          chg = filter (\<lambda>(x, y). pixel_kind ref act opts x y = Changed) ps
      in \<lparr>t_compared = t_compared t + length vis, t_changed = t_changed t + length chg,
          t_x0 = fold min (map fst chg) (t_x0 t), t_y0 = fold min (map snd chg) (t_y0 t),
          t_x1 = fold max (map fst chg) (t_x1 t), t_y1 = fold max (map snd chg) (t_y1 t)\<rparr>)"
proof (induction ps arbitrary: t)
  case (Cons p ps)
  obtain x y where "p = (x, y)" by (cases p)
  then show ?case
    using Cons by (cases "pixel_kind ref act opts x y") (simp_all add: pixel_step_kind Let_def min.commute max.commute)
qed simp

lemma kind_masked: "pixel_kind ref act opts x y \<noteq> Masked \<longleftrightarrow> \<not> masked opts x y (img_width act) (img_height act)"
  by (simp add: pixel_kind_def Let_def)

lemma changed_filter:
  "filter (\<lambda>(x, y). pixel_kind ref act opts x y = Changed) (pixels (img_width act) (img_height act)) =
     changed_pixels ref act opts"
  unfolding changed_pixels_def visible_def filter_filter
  by (rule filter_cong [OF refl]) (auto simp: pixel_kind_def Let_def)

lemma visible_filter:
  "filter (\<lambda>(x, y). pixel_kind ref act opts x y \<noteq> Masked) (pixels (img_width act) (img_height act)) = visible act opts"
  unfolding visible_def kind_masked ..

lemma set_pixels: "(x, y) \<in> set (pixels w h) \<longleftrightarrow> x < w \<and> y < h"
  by (force simp: pixels_def)

lemma fold_min_Min: "xs \<noteq> [] \<Longrightarrow> \<forall>x \<in> set xs. x \<le> a \<Longrightarrow> fold min xs a = Min (set xs)" for a :: nat
proof -
  assume ne: "xs \<noteq> []" and a: "\<forall>x \<in> set xs. x \<le> a"
  have "fold min xs a = Min (insert a (set xs))" using Min.set_eq_fold [of a xs] by simp
  also have "\<dots> = min a (Min (set xs))" using ne by simp
  also have "\<dots> = Min (set xs)" using ne a by (simp add: min_absorb2)
  finally show ?thesis .
qed

lemma fold_max_Max: "xs \<noteq> [] \<Longrightarrow> fold max xs 0 = Max (set xs)" for xs :: "nat list"
proof -
  assume ne: "xs \<noteq> []"
  have "fold max xs 0 = Max (insert 0 (set xs))" using Max.set_eq_fold [of 0 xs] by simp
  then show ?thesis using ne by simp
qed

section \<open>Properties\<close>

text \<open>C4: on two images of one size, the comparison reports exactly the number of visible pixels,
  the number of changed ones among them, and the smallest box around the changed ones; skipping
  equal rows and keeping a running box lose nothing.\<close>

theorem compare_counts:
  assumes "same_size ref act" and "img_width act \<le> U32_MAX" and "img_height act \<le> U32_MAX"
  shows "compare ref act opts =
    (let chg = changed_pixels ref act opts; xs = fst ` set chg; ys = snd ` set chg
     in Inr \<lparr>rep_width = img_width act, rep_height = img_height act,
             compared = length (visible act opts), changed = length chg,
             bbox = (if chg = [] then None
                     else Some (Min xs, Min ys, Max xs - Min xs + 1, Max ys - Min ys + 1))\<rparr>)"
proof -
  let ?w = "img_width act" and ?h = "img_height act"
  let ?chg = "changed_pixels ref act opts"
  let ?t = "fold (row_step ref act opts) [0..<?h] tally_init"
  have "row_step ref act opts = (\<lambda>y t. fold (pixel_step ref act opts y) [0..<?w] t)"
    by (simp add: fun_eq_iff row_step_pixels)
  then have t: "?t = \<lparr>t_compared = length (visible act opts), t_changed = length ?chg,
      t_x0 = fold min (map fst ?chg) U32_MAX, t_y0 = fold min (map snd ?chg) U32_MAX,
      t_x1 = fold max (map fst ?chg) 0, t_y1 = fold max (map snd ?chg) 0\<rparr>"
    by (simp add: fold_rows tally_pixels tally_init_def Let_def changed_filter visible_filter)
  have le: "x \<le> U32_MAX \<and> y \<le> U32_MAX" if "(x, y) \<in> set ?chg" for x y
    using that assms(2,3) by (auto simp: changed_pixels_def visible_def set_pixels)
  show ?thesis
  proof (cases "?chg = []")
    case True
    then show ?thesis using assms(1) by (simp add: compare_def t Let_def)
  next
    case False
    have "fold min (map fst ?chg) U32_MAX = Min (fst ` set ?chg)"
      "fold min (map snd ?chg) U32_MAX = Min (snd ` set ?chg)"
      "fold max (map fst ?chg) 0 = Max (fst ` set ?chg)"
      "fold max (map snd ?chg) 0 = Max (snd ` set ?chg)"
      using False le fold_min_Min [of "map fst ?chg" U32_MAX] fold_min_Min [of "map snd ?chg" U32_MAX]
        fold_max_Max [of "map fst ?chg"] fold_max_Max [of "map snd ?chg"] by force+
    then show ?thesis using False assms(1) by (simp add: compare_def t Let_def)
  qed
qed


definition gray :: "u8 \<Rightarrow> image" where
  "gray v = \<lparr>img_width = 2, img_height = 1, rgba = [0, 0, 0, 0xFF, v, v, v, 0xFF]\<rparr>"

definition plain :: options where
  "plain = \<lparr>threshold = 3, masks = [], only = None\<rparr>"

theorem compare_counts_witness:
  "compare (gray 0) (gray 9) plain =
     Inr \<lparr>rep_width = 2, rep_height = 1, compared = 2, changed = 1, bbox = Some (1, 0, 1, 1)\<rparr>"
proof -
  have c: "changed_pixels (gray 0) (gray 9) plain = [(1, 0)]" "length (visible (gray 9) plain) = 2"
    by code_simp+
  show ?thesis
    using compare_counts [of "gray 0" "gray 9" plain]
    by (simp add: c) (simp add: same_size_def gray_def U32_MAX_def)
qed

lemma slice_put_other_cell:
  assumes "i \<noteq> j" and "length v = n" and "i * n + n \<le> length out" and "j * n + n \<le> length out"
  shows "slice_of (i * n) n (put_at (j * n) v out) = slice_of (i * n) n out"
proof (rule slice_put_at_other)
  have "Suc i * n \<le> j * n \<or> Suc j * n \<le> i * n"
    using assms(1) by (cases "i < j") (auto simp only: mult_le_mono1 Suc_leI not_less)
  then show "i * n + n \<le> j * n \<or> j * n + length v \<le> i * n" using assms(2) by (auto simp: add.commute)
qed (use assms in auto)

lemma fold_cells:
  assumes g: "\<And>k. length (g k) = n" and "\<forall>k \<in> set ks. idx k * n + n \<le> length out"
    and "inj_on idx (set ks)"
  defines "res \<equiv> \<lambda>out. fold (\<lambda>k out. put_at (idx k * n) (g k) out) ks out"
  shows "length (res out) = length out \<and>
    (\<forall>k \<in> set ks. slice_of (idx k * n) n (res out) = g k) \<and>
    (\<forall>i. i \<notin> idx ` set ks \<longrightarrow> i * n + n \<le> length out \<longrightarrow> slice_of (i * n) n (res out) = slice_of (i * n) n out)"
  using assms(2,3) unfolding res_def
proof (induction ks arbitrary: out)
  case (Cons j ks)
  let ?out = "put_at (idx j * n) (g j) out"
  have len: "length ?out = length out" using Cons.prems g by simp
  have ih: "length (fold (\<lambda>k out. put_at (idx k * n) (g k) out) ks ?out) = length ?out"
    "\<forall>k \<in> set ks. slice_of (idx k * n) n (fold (\<lambda>k out. put_at (idx k * n) (g k) out) ks ?out) = g k"
    "\<forall>i. i \<notin> idx ` set ks \<longrightarrow> i * n + n \<le> length ?out \<longrightarrow>
      slice_of (i * n) n (fold (\<lambda>k out. put_at (idx k * n) (g k) out) ks ?out) = slice_of (i * n) n ?out"
    using Cons.IH [of ?out] Cons.prems len by auto
  have j: "idx j \<notin> idx ` set ks \<or> j \<in> set ks" using Cons.prems(2) by (auto simp: inj_on_def)
  have "slice_of (idx j * n) n (fold (\<lambda>k out. put_at (idx k * n) (g k) out) ks ?out) = g j"
    using j ih(2,3) len Cons.prems(1) g by auto
  moreover have "slice_of (i * n) n ?out = slice_of (i * n) n out"
    if "i \<noteq> idx j" "i * n + n \<le> length out" for i
    using slice_put_other_cell [of i "idx j" "g j" n out] that g Cons.prems(1) by simp
  ultimately show ?case using ih len by simp
qed simp

text \<open>The difference picture of two images of one size is a well-formed image of that size in
  which every pixel has the colour of its kind: grey for equal, red for changed, blue for
  masked.\<close>

theorem diff_image_pixels:
  assumes "same_size ref act" and "image_ok act"
  shows "\<exists>img. diff_image ref act opts = Inr img \<and> same_size img act \<and> image_ok img \<and>
    (\<forall>x < img_width act. \<forall>y < img_height act.
       slice_of ((y * img_width act + x) * 4) 4 (rgba img) =
         diff_pixel (pixel_kind ref act opts x y)
           (grey_of (slice_of ((y * img_width act + x) * 4) 4 (rgba act))))"
proof -
  let ?w = "img_width act" and ?h = "img_height act"
  let ?idx = "\<lambda>(x, y). y * ?w + x"
  let ?g = "\<lambda>(x, y). diff_pixel (pixel_kind ref act opts x y) (grey_of (slice_of ((y * ?w + x) * 4) 4 (rgba act)))"
  let ?out = "fold (\<lambda>k out. put_at (?idx k * 4) (?g k) out) (pixels ?w ?h) (replicate (length (rgba act)) 0)"
  have idx: "y * ?w + x < ?w * ?h" if "x < ?w" "y < ?h" for x y
  proof -
    have "y * ?w + x < Suc y * ?w" using that(1) by simp
    also have "\<dots> \<le> ?h * ?w" using that(2) by (intro mult_le_mono1) simp
    finally show ?thesis by (simp add: mult.commute)
  qed
  have g: "length (?g k) = 4" for k by (simp add: diff_pixel_def split: prod.splits pixel.splits)
  have fit: "\<forall>k \<in> set (pixels ?w ?h). ?idx k * 4 + 4 \<le> length (replicate (length (rgba act)) (0 :: u8))"
    using idx assms(2) by (force simp: set_pixels image_ok_def Suc_le_eq)
  have inj: "inj_on ?idx (set (pixels ?w ?h))"
  proof (rule inj_onI, clarify)
    fix x y a b
    assume p: "(x, y) \<in> set (pixels ?w ?h)" "(a, b) \<in> set (pixels ?w ?h)" and eq: "y * ?w + x = b * ?w + a"
    then have x: "x < ?w" "a < ?w" by (simp_all add: set_pixels)
    have "(y * ?w + x) div ?w = y" "(b * ?w + a) div ?w = b" using x by simp_all
    with eq have "y = b" by simp
    then show "x = a \<and> y = b" using eq by simp
  qed
  note cells = fold_cells [of ?g 4 "pixels ?w ?h" ?idx "replicate (length (rgba act)) 0", OF g fit inj]
  have "fold (\<lambda>y out. fold (diff_step ref act opts y) [0..<?w] out) [0..<?h] (replicate (length (rgba act)) 0) = ?out"
    unfolding fold_rows by (rule fold_cong) (auto simp: diff_step_def Let_def)
  then have img: "diff_image ref act opts = Inr \<lparr>img_width = ?w, img_height = ?h, rgba = ?out\<rparr>"
    using assms cells by (simp add: diff_image_def image_new_def image_ok_def)
  have "slice_of ((y * ?w + x) * 4) 4 ?out = ?g (x, y)" if "x < ?w" "y < ?h" for x y
  proof -
    have "(x, y) \<in> set (pixels ?w ?h)" using that by (simp add: set_pixels)
    from bspec [OF conjunct1 [OF conjunct2 [OF cells]] this] show ?thesis by simp
  qed
  then show ?thesis
    using img cells assms(2) by (simp add: same_size_def image_ok_def)
qed

theorem diff_image_pixels_witness:
  "\<exists>img. diff_image (gray 0) (gray 9) plain = Inr img \<and> slice_of 4 4 (rgba img) = [0xFF, 0x10, 0x40, 0xFF]"
proof -
  have "same_size (gray 0) (gray 9)" "image_ok (gray 9)" by code_simp+
  from diff_image_pixels [OF this, of plain] obtain img
    where i: "diff_image (gray 0) (gray 9) plain = Inr img"
      and p: "\<forall>x < img_width (gray 9). \<forall>y < img_height (gray 9).
        slice_of ((y * img_width (gray 9) + x) * 4) 4 (rgba img) =
        diff_pixel (pixel_kind (gray 0) (gray 9) plain x y)
          (grey_of (slice_of ((y * img_width (gray 9) + x) * 4) 4 (rgba (gray 9))))"
    by blast
  have "pixel_kind (gray 0) (gray 9) plain 1 0 = Changed" by code_simp
  then have "slice_of 4 4 (rgba img) = [0xFF, 0x10, 0x40, 0xFF]"
    using p [rule_format, of 1 0] by (simp add: diff_pixel_def) (simp add: gray_def)
  with i show ?thesis by blast
qed

end
