(* ===== verification/Command.thy ===== *)
theory Command
  imports ImageDiff
begin

text \<open>
  The request grammar of the control socket, \<open>crates/cdj3k-emu-control/src/command.rs\<close>: every verb
  with its parser, in the order the code tries them, and the time the connection waits for an
  answer. Times are whole milliseconds; the error strings of the code are values of \<open>cmd_error\<close>
  that carry the same data. The properties: every accepted request is inside the documented
  bounds, no accepted journal name can leave its shell word, and commands and paths that
  contain spaces arrive as they were written.
\<close>

section \<open>Constants\<close>

definition DEFAULT_HOLD :: nat where "DEFAULT_HOLD = 200"
definition DEFAULT_WAIT :: nat where "DEFAULT_WAIT = 10000"
definition MAX_WAIT :: nat where "MAX_WAIT = 600000"
definition ANSWER_WAIT :: nat where "ANSWER_WAIT = 10000"
definition MAX_DETENTS :: int where "MAX_DETENTS = 100"
definition MEDIA_WAIT :: nat where "MEDIA_WAIT = 30000"
definition SH_WAIT :: nat where "SH_WAIT = 30000"
definition DEVD_WAIT :: nat where "DEVD_WAIT = 20000"
definition MAX_JOG_DEGREES :: f32 where "MAX_JOG_DEGREES = 36000"
definition MAX_JOG_RPS :: f32 where "MAX_JOG_RPS = 20"
definition DEFAULT_JOG_TIME :: nat where "DEFAULT_JOG_TIME = 500"

section \<open>Requests\<close>

datatype cmd_error =
    EmptyRequest
  | NotCommand string
  | MissingArg string \<comment> \<open>the verb whose argument is missing\<close>
  | NotMillis string
  | NotFraction string
  | NotDetents string
  | NotGrip string
  | NotNumber string f32
  | TurnTooLong
  | NotTurnMillis string
  | Usage string \<comment> \<open>the verb whose arguments have no meaning\<close>
  | NotMediaCommand string
  | NotModsCommand string
  | NeedsModName string
  | NotName string string
  | NeedsName string
  | BadRegion diff_error
  | NotWatchNumber string
  | NotLampState string
  | WaitTooLong

datatype screen = Main | Jog

definition screen_parse :: "string \<Rightarrow> screen option" where
  "screen_parse s =
     (let l = to_ascii_lowercase s
      in if l = ''main'' then Some Main else if l = ''jog'' then Some Jog else None)"

primrec screen_as_str :: "screen \<Rightarrow> string" where
  "screen_as_str Main = ''main''"
| "screen_as_str Jog = ''jog''"

datatype target = Bit string | TouchTarget | AllTargets

datatype log_source = LogAll | LogKernel | LogUnit string | LogMod string

definition LOG_BASE :: string where
  "LOG_BASE = ''exec journalctl -f -n 0 --no-pager -o short-monotonic''"

fun log_command :: "log_source \<Rightarrow> string" where
  "log_command LogAll = LOG_BASE"
| "log_command LogKernel = LOG_BASE @ '' -k''"
| "log_command (LogUnit u) = LOG_BASE @ '' -u '' @ u"
| "log_command (LogMod n) = LOG_BASE @ '' -u cdj3k-mod-'' @ n @ ''.service''"

datatype topic =
    Lamps "string list"
  | LcdTopic screen "region option"
  | Emulation
  | Log log_source "string option"

datatype jog_grip = Top | Side

datatype jog_move =
    Turn f32 nat jog_grip
  | Spin f32 jog_grip

datatype media_command = MediaStatus | MediaAttach string | MediaEject

datatype knob = VinylSpeed | JogAdjust

datatype lever = LeverForward | LeverReverse | LeverSlipReverse

datatype mods_command =
    ModsList
  | ModsPush string
  | ModsEnable string bool
  | ModsRemove string
  | ModsLog string

datatype json = JStr string | JBool bool | JNum nat | JArr "nat list"

datatype lamp_want = WantOn | WantOff | WantIs json

datatype wait_for = WaitBoot | WaitLamp string lamp_want

datatype command =
    Hello | Buttons | LampsCmd | State
  | Press string "nat option"
  | Clear string "nat option"
  | Touch f32 f32 "nat option"
  | Release target
  | Rotary int
  | Tempo f32
  | Tilt
  | Lcd screen
  | Shot
  | Wait wait_for nat
  | Watch topic
  | Unwatch "nat option"
  | Sh string
  | Mods mods_command
  | JogCmd jog_move
  | Media media_command
  | Setting "(string \<times> string) option"
  | Encoder int
  | Knob knob f32
  | Direction lever
  | Restart | Reset | Quit

section \<open>Words\<close>

definition arg :: "string list \<Rightarrow> nat \<Rightarrow> string \<Rightarrow> cmd_error + string" where
  "arg args i verb = (if i < length args then Inr (args ! i) else Inl (MissingArg verb))"

definition get_arg :: "string list \<Rightarrow> nat \<Rightarrow> string option" where
  "get_arg args i = (if i < length args then Some (args ! i) else None)"

text \<open>\<open>args.first().map(|s| s.to_ascii_lowercase())\<close>.\<close>

definition first_lower :: "string list \<Rightarrow> string option" where
  "first_lower args = map_option to_ascii_lowercase (get_arg args 0)"

definition millis :: "string \<Rightarrow> cmd_error + nat" where
  "millis s = (case parse_uint 64 s of None \<Rightarrow> Inl (NotMillis s) | Some n \<Rightarrow> Inr n)"

definition hold :: "string option \<Rightarrow> nat option \<Rightarrow> cmd_error + nat option" where
  "hold s dflt =
     (case s of
        None \<Rightarrow> Inr dflt
      | Some s \<Rightarrow> bindR (millis s) (\<lambda>ms. if ms = 0 then Inr None else Inr (Some ms)))"

definition fraction :: "string \<Rightarrow> cmd_error + f32" where
  "fraction s =
     (case parse_f32 s of
        Some v \<Rightarrow> if in_unit v then Inr (fin_value v) else Inl (NotFraction s)
      | None \<Rightarrow> Inl (NotFraction s))"

definition detents :: "string \<Rightarrow> cmd_error + int" where
  "detents s =
     (case parse_sint 32 s of
        Some n \<Rightarrow> if n \<noteq> 0 \<and> \<bar>n\<bar> \<le> MAX_DETENTS then Inr n else Inl (NotDetents s)
      | None \<Rightarrow> Inl (NotDetents s))"

definition lamp_want_parse :: "string \<Rightarrow> cmd_error + lamp_want" where
  "lamp_want_parse s =
     (let l = to_ascii_lowercase s
      in if l = ''on'' then Inr WantOn
         else if l = ''off'' then Inr WantOff
         else if l = ''full'' \<or> l = ''medium'' then Inr (WantIs (JStr l))
         else if l = ''true'' then Inr (WantIs (JBool True))
         else if l = ''false'' then Inr (WantIs (JBool False))
         else (case mapM_opt (parse_uint 8) (split_by (\<lambda>c. c = CHR '','') s) of
                 Some vs \<Rightarrow>
                   if length vs = 3 then Inr (WantIs (JArr vs))
                   else if length vs = 1 then Inr (WantIs (JNum (vs ! 0)))
                   else Inl (NotLampState s)
               | None \<Rightarrow> Inl (NotLampState s)))"

section \<open>The verbs\<close>

definition parse_press :: "string list \<Rightarrow> cmd_error + command" where
  "parse_press args =
     bindR (arg args 0 ''press'') (\<lambda>b.
     bindR (hold (get_arg args 1) (Some DEFAULT_HOLD)) (\<lambda>h. Inr (Press b h)))"

definition parse_touch :: "string list \<Rightarrow> cmd_error + command" where
  "parse_touch args =
     bindR (bindR (arg args 0 ''touch'') fraction) (\<lambda>x.
     bindR (bindR (arg args 1 ''touch'') fraction) (\<lambda>y.
     bindR (hold (get_arg args 2) (Some DEFAULT_HOLD)) (\<lambda>h. Inr (Touch x y h))))"

definition parse_release :: "string list \<Rightarrow> cmd_error + command" where
  "parse_release args =
     bindR (arg args 0 ''release'') (\<lambda>t.
       Inr (Release (if eq_ignore_ascii_case t ''all'' then AllTargets
                     else if eq_ignore_ascii_case t ''touch'' then TouchTarget
                     else Bit t)))"

definition sh_command :: "string \<Rightarrow> cmd_error + string" where
  "sh_command line =
     (case split_once is_ws (trim line) of
        None \<Rightarrow> Inl (MissingArg ''sh'')
      | Some (_, r) \<Rightarrow> if trim r \<noteq> [] then Inr (trim r) else Inl (MissingArg ''sh''))"

definition grip :: "string option \<Rightarrow> cmd_error + jog_grip" where
  "grip s =
     (case map_option to_ascii_lowercase s of
        None \<Rightarrow> Inr Top
      | Some l \<Rightarrow> if l = ''top'' then Inr Top else if l = ''side'' then Inr Side else Inl (NotGrip l))"

definition jog_number :: "string \<Rightarrow> f32 \<Rightarrow> cmd_error + f32" where
  "jog_number s mx =
     (case parse_f32 s of
        Some (Fin v) \<Rightarrow> if \<bar>v\<bar> \<le> mx then Inr v else Inl (NotNumber s mx)
      | _ \<Rightarrow> Inl (NotNumber s mx))"

definition jog_time :: "string list \<Rightarrow> cmd_error + nat \<times> string option" where
  "jog_time rest =
     (case rest of
        [] \<Rightarrow> Inr (DEFAULT_JOG_TIME, None)
      | s # _ \<Rightarrow>
          (case parse_uint 64 s of
             Some ms \<Rightarrow>
               if ms > MAX_WAIT then Inl TurnTooLong else Inr (max ms 1, get_arg rest 1)
           | None \<Rightarrow>
               if length rest = 1 then Inr (DEFAULT_JOG_TIME, Some s) else Inl (NotTurnMillis s)))"

definition parse_jog :: "string list \<Rightarrow> cmd_error + jog_move" where
  "parse_jog args =
     (let turn =
            (case args of
               d # rest \<Rightarrow>
                 if length rest \<le> 2 then
                   bindR (jog_number d MAX_JOG_DEGREES) (\<lambda>deg.
                   bindR (jog_time rest) (\<lambda>(time, g).
                   bindR (grip g) (\<lambda>g. Inr (Turn deg time g))))
                 else Inl (Usage ''jog'')
             | [] \<Rightarrow> Inl (Usage ''jog''))
      in case args of
           sp # rps # rest \<Rightarrow>
             if eq_ignore_ascii_case sp ''spin'' \<and> length rest \<le> 1 then
               bindR (jog_number rps MAX_JOG_RPS) (\<lambda>r.
               bindR (grip (get_arg rest 0)) (\<lambda>g. Inr (Spin r g)))
             else turn
         | _ \<Rightarrow> turn)"

definition text_after_subcommand :: "string \<Rightarrow> string option" where
  "text_after_subcommand line =
     (case split_once is_ws (trim line) of
        None \<Rightarrow> None
      | Some (_, after_verb) \<Rightarrow>
          (case split_once is_ws (trim_start_by is_ws after_verb) of
             None \<Rightarrow> None
           | Some (_, r) \<Rightarrow> if trim r \<noteq> [] then Some (trim r) else None))"

definition parse_media :: "string \<Rightarrow> string list \<Rightarrow> cmd_error + media_command" where
  "parse_media line args =
     (case first_lower args of
        None \<Rightarrow> Inr MediaStatus
      | Some l \<Rightarrow>
          if l = ''status'' then Inr MediaStatus
          else if l = ''eject'' then Inr MediaEject
          else if l = ''attach'' then
            ok_or (MissingArg ''media'') (map_option MediaAttach (text_after_subcommand line))
          else Inl (NotMediaCommand l))"

definition mod_name_arg :: "string list \<Rightarrow> cmd_error + string" where
  "mod_name_arg args =
     (case args of [_, name] \<Rightarrow> Inr name | _ \<Rightarrow> Inl (NeedsModName (args ! 0)))"

definition parse_mods :: "string \<Rightarrow> string list \<Rightarrow> cmd_error + mods_command" where
  "parse_mods line args =
     (case first_lower args of
        None \<Rightarrow> Inr ModsList
      | Some l \<Rightarrow>
          if l = ''list'' then Inr ModsList
          else if l = ''push'' then
            ok_or (MissingArg ''mods'') (map_option ModsPush (text_after_subcommand line))
          else if l = ''enable'' then bindR (mod_name_arg args) (\<lambda>n. Inr (ModsEnable n True))
          else if l = ''disable'' then bindR (mod_name_arg args) (\<lambda>n. Inr (ModsEnable n False))
          else if l = ''remove'' then bindR (mod_name_arg args) (\<lambda>n. Inr (ModsRemove n))
          else if l = ''log'' then bindR (mod_name_arg args) (\<lambda>n. Inr (ModsLog n))
          else Inl (NotModsCommand l))"

definition log_char :: "string \<Rightarrow> char \<Rightarrow> bool" where
  "log_char kind c =
     (if kind = ''mod'' then is_lower c \<or> is_digit c \<or> c \<in> set ''._-''
      else is_alnum c \<or> c \<in> set ''@._:-'')"

definition log_name :: "string \<Rightarrow> string option \<Rightarrow> cmd_error + string" where
  "log_name kind name =
     (case name of
        Some n \<Rightarrow>
          if n \<noteq> [] \<and> str_len n \<le> 128 \<and> list_all (log_char kind) n then Inr n
          else Inl (NotName kind n)
      | None \<Rightarrow> Inl (NeedsName kind))"

definition log_source_of :: "string list \<Rightarrow> cmd_error + log_source \<times> string list" where
  "log_source_of args =
     (let rest = drop 2 args
      in case first_lower args of
           Some l \<Rightarrow>
             if l = ''kernel'' then Inr (LogKernel, drop 1 args)
             else if l = ''unit'' then
               bindR (log_name ''unit'' (get_arg args 1)) (\<lambda>n. Inr (LogUnit n, rest))
             else if l = ''mod'' then
               bindR (log_name ''mod'' (get_arg args 1)) (\<lambda>n. Inr (LogMod n, rest))
             else Inr (LogAll, args)
         | None \<Rightarrow> Inr (LogAll, args))"

definition parse_log :: "string list \<Rightarrow> cmd_error + topic" where
  "parse_log args =
     bindR (log_source_of args) (\<lambda>(source, rest).
       case rest of
         [] \<Rightarrow> Inr (Log source None)
       | g # txt \<Rightarrow>
           if eq_ignore_ascii_case g ''grep'' \<and> txt \<noteq> [] then Inr (Log source (Some (join '' '' txt)))
           else Inl (Usage ''log''))"

definition parse_topic :: "string list \<Rightarrow> cmd_error + topic" where
  "parse_topic args =
     (let rest = drop 1 args
      in case first_lower args of
           None \<Rightarrow> Inl (Usage ''watch'')
         | Some l \<Rightarrow>
             if l = ''lamps'' then Inr (Lamps rest)
             else if l = ''lcd'' then
               (let (screen, rest) =
                      (case Option.bind (get_arg rest 0) screen_parse of
                         Some s \<Rightarrow> (s, drop 1 rest)
                       | None \<Rightarrow> (Main, rest))
                in case rest of
                     [] \<Rightarrow> Inr (LcdTopic screen None)
                   | [r] \<Rightarrow>
                       (case region_parse r of
                          Inl e \<Rightarrow> Inl (BadRegion e)
                        | Inr rg \<Rightarrow> Inr (LcdTopic screen (Some rg)))
                   | _ \<Rightarrow> Inl (Usage ''lcd''))
             else if l = ''emulation'' then
               (if rest = [] then Inr Emulation else Inl (Usage ''emulation''))
             else if l = ''log'' then parse_log rest
             else Inl (Usage ''watch''))"

definition parse_unwatch :: "string list \<Rightarrow> cmd_error + nat option" where
  "parse_unwatch args =
     bindR (arg args 0 ''unwatch'') (\<lambda>a.
       if eq_ignore_ascii_case a ''all'' then Inr None
       else (case parse_uint 32 a of None \<Rightarrow> Inl (NotWatchNumber a) | Some n \<Rightarrow> Inr (Some n)))"

definition wait_target :: "string list \<Rightarrow> cmd_error + wait_for \<times> string list" where
  "wait_target args =
     (case first_lower args of
        None \<Rightarrow> Inl (Usage ''wait'')
      | Some l \<Rightarrow>
          if l = ''boot'' then Inr (WaitBoot, drop 1 args)
          else if l = ''lamp'' then
            bindR (arg args 1 ''wait lamp'') (\<lambda>name.
            bindR (bindR (arg args 2 ''wait lamp'') lamp_want_parse) (\<lambda>want.
              Inr (WaitLamp name want, drop 3 args)))
          else Inl (Usage ''wait''))"

definition parse_wait :: "string list \<Rightarrow> cmd_error + command" where
  "parse_wait args =
     bindR (wait_target args) (\<lambda>(what, rest).
     bindR (case get_arg rest 0 of None \<Rightarrow> Inr DEFAULT_WAIT | Some s \<Rightarrow> millis s) (\<lambda>timeout.
       if timeout > MAX_WAIT then Inl WaitTooLong else Inr (Wait what timeout)))"

definition parse_hold :: "string list \<Rightarrow> cmd_error + command" where
  "parse_hold a = bindR (arg a 0 ''hold'') (\<lambda>b. Inr (Press b None))"

definition parse_clear :: "string list \<Rightarrow> cmd_error + command" where
  "parse_clear a =
     bindR (arg a 0 ''clear'') (\<lambda>b. bindR (hold (get_arg a 1) None) (\<lambda>h. Inr (Clear b h)))"

definition parse_lcd :: "string list \<Rightarrow> cmd_error + command" where
  "parse_lcd a =
     (case get_arg a 0 of
        None \<Rightarrow> Inr (Lcd Main)
      | Some s \<Rightarrow> ok_or (Usage ''lcd'') (map_option Lcd (screen_parse s)))"

definition parse_setting :: "string list \<Rightarrow> cmd_error + command" where
  "parse_setting a =
     (case a of
        [] \<Rightarrow> Inr (Setting None)
      | [name, v] \<Rightarrow> Inr (Setting (Some (to_ascii_lowercase name, v)))
      | _ \<Rightarrow> Inl (Usage ''setting''))"

definition parse_encoder :: "string list \<Rightarrow> cmd_error + command" where
  "parse_encoder a =
     (case a of
        [name, n] \<Rightarrow>
          if eq_ignore_ascii_case name ''beatloop'' then bindR (detents n) (\<lambda>d. Inr (Encoder d))
          else Inl (Usage ''encoder'')
      | _ \<Rightarrow> Inl (Usage ''encoder''))"

definition parse_knob :: "string list \<Rightarrow> cmd_error + command" where
  "parse_knob a =
     bindR (case first_lower a of
              None \<Rightarrow> Inl (Usage ''knob'')
            | Some l \<Rightarrow> if l = ''vinyl'' then Inr VinylSpeed
                        else if l = ''jog_adjust'' then Inr JogAdjust else Inl (Usage ''knob''))
       (\<lambda>k. bindR (bindR (arg a 1 ''knob'') fraction) (\<lambda>v. Inr (Knob k v)))"

definition parse_direction :: "string list \<Rightarrow> cmd_error + command" where
  "parse_direction a =
     (case first_lower a of
        None \<Rightarrow> Inl (Usage ''direction'')
      | Some l \<Rightarrow>
          if l = ''fwd'' then Inr (Direction LeverForward)
          else if l = ''rev'' then Inr (Direction LeverReverse)
          else if l = ''slip_rev'' then Inr (Direction LeverSlipReverse)
          else Inl (Usage ''direction''))"

type_synonym verb_parser = "string \<Rightarrow> string list \<Rightarrow> cmd_error + command"

definition VERBS :: "(string \<times> verb_parser) list" where
  "VERBS =
     [(''hello'', \<lambda>_ _. Inr Hello),
      (''buttons'', \<lambda>_ _. Inr Buttons),
      (''lamps'', \<lambda>_ _. Inr LampsCmd),
      (''state'', \<lambda>_ _. Inr State),
      (''press'', \<lambda>_ a. parse_press a),
      (''hold'', \<lambda>_ a. parse_hold a),
      (''clear'', \<lambda>_ a. parse_clear a),
      (''touch'', \<lambda>_ a. parse_touch a),
      (''release'', \<lambda>_ a. parse_release a),
      (''rotary'', \<lambda>_ a. bindR (bindR (arg a 0 ''rotary'') detents) (\<lambda>n. Inr (Rotary n))),
      (''tempo'', \<lambda>_ a. bindR (bindR (arg a 0 ''tempo'') fraction) (\<lambda>v. Inr (Tempo v))),
      (''tilt'', \<lambda>_ _. Inr Tilt),
      (''lcd'', \<lambda>_ a. parse_lcd a),
      (''shot'', \<lambda>_ _. Inr Shot),
      (''wait'', \<lambda>_ a. parse_wait a),
      (''watch'', \<lambda>_ a. bindR (parse_topic a) (\<lambda>t. Inr (Watch t))),
      (''unwatch'', \<lambda>_ a. bindR (parse_unwatch a) (\<lambda>n. Inr (Unwatch n))),
      (''sh'', \<lambda>line _. bindR (sh_command line) (\<lambda>s. Inr (Sh s))),
      (''mods'', \<lambda>line a. bindR (parse_mods line a) (\<lambda>m. Inr (Mods m))),
      (''jog'', \<lambda>_ a. bindR (parse_jog a) (\<lambda>j. Inr (JogCmd j))),
      (''media'', \<lambda>line a. bindR (parse_media line a) (\<lambda>m. Inr (Media m))),
      (''setting'', \<lambda>_ a. parse_setting a),
      (''encoder'', \<lambda>_ a. parse_encoder a),
      (''knob'', \<lambda>_ a. parse_knob a),
      (''direction'', \<lambda>_ a. parse_direction a),
      (''restart'', \<lambda>_ _. Inr Restart),
      (''reset'', \<lambda>_ _. Inr Reset),
      (''quit'', \<lambda>_ _. Inr Quit)]"

definition command_parse :: "string \<Rightarrow> cmd_error + command" where
  "command_parse line =
     (case split_whitespace line of
        [] \<Rightarrow> Inl EmptyRequest
      | v # args \<Rightarrow>
          let verb = to_ascii_lowercase v
          in case find (\<lambda>(name, _). name = verb) VERBS of
               None \<Rightarrow> Inl (NotCommand verb)
             | Some (_, parse) \<Rightarrow> parse line args)"

fun answer_wait :: "command \<Rightarrow> nat" where
  "answer_wait (Wait _ timeout) = timeout + ANSWER_WAIT"
| "answer_wait (Sh _) = DEVD_WAIT + SH_WAIT + ANSWER_WAIT"
| "answer_wait (JogCmd (Turn _ time _)) = time + ANSWER_WAIT"
| "answer_wait (Media _) = MEDIA_WAIT + ANSWER_WAIT"
| "answer_wait _ = ANSWER_WAIT"

section \<open>What an accepted request satisfies\<close>

definition unit_ok :: "f32 \<Rightarrow> bool" where
  "unit_ok v = (0 \<le> v \<and> v \<le> 1)"

definition detents_ok :: "int \<Rightarrow> bool" where
  "detents_ok n = (n \<noteq> 0 \<and> \<bar>n\<bar> \<le> MAX_DETENTS)"

definition region_ok :: "region \<Rightarrow> bool" where
  "region_ok r =
     (0 \<le> rg_x0 r \<and> rg_x0 r < rg_x1 r \<and> rg_x1 r \<le> 1 \<and> 0 \<le> rg_y0 r \<and> rg_y0 r < rg_y1 r \<and> rg_y1 r \<le> 1)"

definition hold_ok :: "nat option \<Rightarrow> bool" where
  "hold_ok h = (case h of None \<Rightarrow> True | Some ms \<Rightarrow> 0 < ms \<and> ms < 2 ^ 64)"

definition shell_safe :: "char \<Rightarrow> bool" where
  "shell_safe c = (is_alnum c \<or> c \<in> set '' @._:-'')"

fun topic_ok :: "topic \<Rightarrow> bool" where
  "topic_ok (LcdTopic _ (Some r)) = region_ok r"
| "topic_ok (Log source _) = list_all shell_safe (log_command source)"
| "topic_ok _ = True"

fun command_ok :: "command \<Rightarrow> bool" where
  "command_ok (Press _ h) = hold_ok h"
| "command_ok (Clear _ h) = hold_ok h"
| "command_ok (Touch x y h) = (unit_ok x \<and> unit_ok y \<and> hold_ok h)"
| "command_ok (Rotary n) = detents_ok n"
| "command_ok (Encoder n) = detents_ok n"
| "command_ok (Tempo v) = unit_ok v"
| "command_ok (Knob _ v) = unit_ok v"
| "command_ok (Wait _ t) = (t \<le> MAX_WAIT)"
| "command_ok (JogCmd (Turn d t _)) = (\<bar>d\<bar> \<le> MAX_JOG_DEGREES \<and> 1 \<le> t \<and> t \<le> MAX_WAIT)"
| "command_ok (JogCmd (Spin r _)) = (\<bar>r\<bar> \<le> MAX_JOG_RPS)"
| "command_ok (Watch t) = topic_ok t"
| "command_ok (Unwatch (Some n)) = (n < 2 ^ 32)"
| "command_ok _ = True"

named_theorems verb_ok

lemma hold_okI: "hold s d = Inr h \<Longrightarrow> hold_ok d \<Longrightarrow> hold_ok h"
  by (auto simp: hold_def hold_ok_def millis_def bindR_eq_Inr parse_uint_def dest: parse_radix_bound
      split: option.splits if_splits)

lemma default_hold_ok: "hold_ok (Some DEFAULT_HOLD)" "hold_ok None"
  by (simp_all add: hold_ok_def DEFAULT_HOLD_def)

lemmas hold_oks = hold_okI [OF _ default_hold_ok(1)] hold_okI [OF _ default_hold_ok(2)]

lemma fraction_ok: "fraction s = Inr v \<Longrightarrow> unit_ok v"
  by (auto simp: fraction_def unit_ok_def dest!: in_unitD split: option.splits if_splits)

lemma detents_okI: "detents s = Inr n \<Longrightarrow> detents_ok n"
  by (auto simp: detents_def detents_ok_def split: option.splits if_splits)

lemma region_parse_ok: "region_parse s = Inr r \<Longrightarrow> region_ok r"
  by (auto simp: region_parse_def region_ok_def dest!: in_unitD split: option.splits list.splits if_splits)

lemma press_ok [verb_ok]: "parse_press a = Inr c \<Longrightarrow> command_ok c"
  by (auto simp: parse_press_def bindR_eq_Inr dest!: hold_oks)

lemma hold_verb_ok [verb_ok]: "parse_hold a = Inr c \<Longrightarrow> command_ok c"
  by (auto simp: parse_hold_def bindR_eq_Inr intro: default_hold_ok)

lemma clear_ok [verb_ok]: "parse_clear a = Inr c \<Longrightarrow> command_ok c"
  by (auto simp: parse_clear_def bindR_eq_Inr dest!: hold_oks)

lemma touch_ok [verb_ok]: "parse_touch a = Inr c \<Longrightarrow> command_ok c"
  by (auto simp: parse_touch_def bindR_eq_Inr dest!: hold_oks fraction_ok)

lemma release_ok [verb_ok]: "parse_release a = Inr c \<Longrightarrow> command_ok c"
  by (auto simp: parse_release_def bindR_eq_Inr)

lemma lcd_ok [verb_ok]: "parse_lcd a = Inr c \<Longrightarrow> command_ok c"
  by (auto simp: parse_lcd_def split: option.splits)

lemma wait_ok [verb_ok]: "parse_wait a = Inr c \<Longrightarrow> command_ok c"
  by (auto simp: parse_wait_def bindR_eq_Inr split: if_splits)

lemma unwatch_ok [verb_ok]: "parse_unwatch a = Inr n \<Longrightarrow> command_ok (Unwatch n)"
  by (auto simp: parse_unwatch_def bindR_eq_Inr parse_uint_def dest: parse_radix_bound
      split: if_splits option.splits)

lemma jog_ok [verb_ok]: "parse_jog a = Inr j \<Longrightarrow> command_ok (JogCmd j)"
proof -
  have num: "jog_number s m = Inr v \<Longrightarrow> \<bar>v\<bar> \<le> m" for s m v
    by (auto simp: jog_number_def split: option.splits float_text.splits if_splits)
  have time: "jog_time r = Inr (t, g) \<Longrightarrow> 1 \<le> t \<and> t \<le> MAX_WAIT" for r t g
    by (auto simp: jog_time_def MAX_WAIT_def DEFAULT_JOG_TIME_def split: list.splits option.splits if_splits)
  show "parse_jog a = Inr j \<Longrightarrow> command_ok (JogCmd j)"
    by (auto simp: parse_jog_def bindR_eq_Inr Let_def dest!: num time split: list.splits if_splits)
qed

lemma setting_ok [verb_ok]: "parse_setting a = Inr c \<Longrightarrow> command_ok c"
  by (auto simp: parse_setting_def split: list.splits)

lemma encoder_ok [verb_ok]: "parse_encoder a = Inr c \<Longrightarrow> command_ok c"
  by (auto simp: parse_encoder_def bindR_eq_Inr intro: detents_okI split: list.splits if_splits)

lemma knob_ok [verb_ok]: "parse_knob a = Inr c \<Longrightarrow> command_ok c"
  by (auto simp: parse_knob_def bindR_eq_Inr intro: fraction_ok)

lemma direction_ok [verb_ok]: "parse_direction a = Inr c \<Longrightarrow> command_ok c"
  by (auto simp: parse_direction_def split: option.splits if_splits)

lemma log_base_safe: "list_all shell_safe LOG_BASE" "list_all shell_safe '' -k''"
  "list_all shell_safe '' -u ''" "list_all shell_safe '' -u cdj3k-mod-''" "list_all shell_safe ''.service''"
  by code_simp+

lemma log_char_safe: "log_char k c \<Longrightarrow> shell_safe c"
  by (auto simp: log_char_def shell_safe_def is_alnum_def is_alpha_def split: if_splits)

lemma log_name_safe: "log_name k n = Inr s \<Longrightarrow> list_all shell_safe s"
  by (auto simp: log_name_def list_all_iff dest: log_char_safe split: option.splits if_splits)

lemma log_command_safe:
  "list_all shell_safe (log_command LogAll)" "list_all shell_safe (log_command LogKernel)"
  "list_all shell_safe n \<Longrightarrow> list_all shell_safe (log_command (LogUnit n))"
  "list_all shell_safe n \<Longrightarrow> list_all shell_safe (log_command (LogMod n))"
  by (simp_all only: log_command.simps list_all_append log_base_safe)

lemma log_source_safe: "log_source_of a = Inr (src, r) \<Longrightarrow> list_all shell_safe (log_command src)"
  by (auto simp: log_source_of_def bindR_eq_Inr Let_def dest!: log_name_safe
      simp del: log_command.simps intro: log_command_safe split: option.splits if_splits)

lemma parse_log_ok:
  assumes "parse_log a = Inr t"
  shows "topic_ok t"
proof -
  from assms obtain src rest where s: "log_source_of a = Inr (src, rest)" and "\<exists>g. t = Log src g"
    by (cases "log_source_of a") (auto simp: parse_log_def split: list.splits if_splits)
  then show ?thesis using log_source_safe [OF s] by auto
qed

lemma topic_okI [verb_ok]: "parse_topic a = Inr t \<Longrightarrow> topic_ok t"
  by (auto simp: parse_topic_def Let_def dest!: parse_log_ok region_parse_ok
      split: option.splits if_splits list.splits sum.splits)

lemma verbs_ok:
  "(name, p) \<in> set VERBS \<Longrightarrow> p line args = Inr c \<Longrightarrow> command_ok c"
  unfolding VERBS_def
  by (auto simp: bindR_eq_Inr dest!: verb_ok fraction_ok detents_okI)

lemma command_parse_verb:
  "command_parse line = Inr c \<Longrightarrow> \<exists>name p args. (name, p) \<in> set VERBS \<and> p line args = Inr c"
  by (auto simp: command_parse_def Let_def find_Some_iff split: list.splits option.splits)
    (metis nth_mem)

section \<open>Properties\<close>



text \<open>C13: the guest command built for a journal that a request may follow contains only letters,
  digits, spaces and \<open>@._:-\<close>, so the name cannot end the shell word it is placed in or start
  another command.\<close>

theorem log_command_shell_safe:
  assumes "command_parse line = Inr (Watch (Log source grep))"
  shows "\<forall>c \<in> set (log_command source). is_alnum c \<or> c \<in> set '' @._:-''"
proof -
  have "command_ok (Watch (Log source grep))" using command_parse_verb [OF assms] verbs_ok by blast
  then show ?thesis by (simp add: list_all_iff shell_safe_def)
qed

theorem log_command_shell_safe_witness:
  "command_parse ''watch log unit EP122.service'' = Inr (Watch (Log (LogUnit ''EP122.service'') None)) \<and>
   list_all (\<lambda>c. is_alnum c \<or> c \<in> set '' @._:-'') (log_command (LogUnit ''EP122.service''))"
proof -
  have "command_parse ''watch log unit EP122.service'' = Inr (Watch (Log (LogUnit ''EP122.service'') None))"
    by code_simp
  then show ?thesis using log_command_shell_safe unfolding list_all_iff by blast
qed

section \<open>Text with spaces\<close>

lemma ws_space [simp]: "is_ws (CHR '' '')"
  by (simp add: is_ws_def)

lemma trim_after_word:
  assumes "trim t = t" and "t \<noteq> []" and "w \<noteq> []" and "\<not> is_ws (hd w)"
  shows "trim (w @ '' '' @ t) = w @ '' '' @ t"
proof -
  have "\<not> is_ws (last t)" using trim_by_ends [of is_ws t] assms(1,2) by (simp add: trim_def)
  then show ?thesis
    unfolding trim_def using assms by (intro trim_by_id) simp
qed

lemma split_first_word: "\<forall>c \<in> set w. \<not> is_ws c \<Longrightarrow> split_once is_ws (w @ '' '' @ t) = Some (w, t)"
  using split_once_append [of w is_ws "CHR '' ''" t] by simp

lemma words_first: "w \<noteq> [] \<Longrightarrow> \<forall>c \<in> set w. \<not> is_ws c \<Longrightarrow>
  split_whitespace (w @ '' '' @ t) = w # split_whitespace t"
  using split_by_append [of w is_ws "CHR '' ''" t] by (simp add: split_whitespace_def)

lemma trim_start_trimmed: "trim t = t \<Longrightarrow> trim_start_by is_ws t = t"
  using trim_by_ends [of is_ws t] by (cases "t = []") (auto simp: trim_def intro: trim_start_by_id)

lemma word_chars:
  "\<forall>c \<in> set ''sh''. \<not> is_ws c" "\<forall>c \<in> set ''media''. \<not> is_ws c" "\<forall>c \<in> set ''attach''. \<not> is_ws c"
  "\<forall>c \<in> set ''mods''. \<not> is_ws c" "\<forall>c \<in> set ''push''. \<not> is_ws c"
  by code_simp+

lemma subcommand_text:
  assumes "trim t = t" and "t \<noteq> []" and "v \<noteq> []" "\<forall>c \<in> set v. \<not> is_ws c" and "s \<noteq> []" "\<forall>c \<in> set s. \<not> is_ws c"
  shows "text_after_subcommand (v @ '' '' @ s @ '' '' @ t) = Some t"
proof -
  have inner: "trim (s @ '' '' @ t) = s @ '' '' @ t"
    using assms by (intro trim_after_word) auto
  have "trim (v @ '' '' @ s @ '' '' @ t) = v @ '' '' @ s @ '' '' @ t"
    using assms inner by (intro trim_after_word) auto
  then show ?thesis
    unfolding text_after_subcommand_def
    using split_first_word [OF assms(4), of "s @ '' '' @ t"] split_first_word [OF assms(6), of t]
      trim_start_trimmed [OF inner] assms(1,2) by simp
qed

text \<open>A shell command, and the path given to \<open>media attach\<close> or \<open>mods push\<close>, reach the window
  exactly as written after the verb, spaces included.\<close>

theorem spaces_kept:
  assumes "trim t = t" and "t \<noteq> []"
  shows "command_parse (''sh'' @ '' '' @ t) = Inr (Sh t) \<and>
    command_parse (''media'' @ '' '' @ ''attach'' @ '' '' @ t) = Inr (Media (MediaAttach t)) \<and>
    command_parse (''mods'' @ '' '' @ ''push'' @ '' '' @ t) = Inr (Mods (ModsPush t))"
proof (intro conjI)
  have low: "to_ascii_lowercase ''sh'' = ''sh''" "to_ascii_lowercase ''media'' = ''media''"
    "to_ascii_lowercase ''mods'' = ''mods''" "to_ascii_lowercase ''attach'' = ''attach''"
    "to_ascii_lowercase ''push'' = ''push''"
    by code_simp+
  have "sh_command (''sh'' @ '' '' @ t) = Inr t"
    unfolding sh_command_def
    using trim_after_word [OF assms, of "''sh''"] split_first_word [OF word_chars(1), of t] word_chars(1) assms
    by simp
  then show "command_parse (''sh'' @ '' '' @ t) = Inr (Sh t)"
    unfolding command_parse_def words_first [OF list.discI [OF refl] word_chars(1)] Let_def low list.case
    by (simp add: VERBS_def)
  have "text_after_subcommand (''media'' @ '' '' @ ''attach'' @ '' '' @ t) = Some t"
    by (rule subcommand_text [OF assms _ word_chars(2) _ word_chars(3)]) simp_all
  then show "command_parse (''media'' @ '' '' @ ''attach'' @ '' '' @ t) = Inr (Media (MediaAttach t))"
    unfolding command_parse_def words_first [OF list.discI [OF refl] word_chars(2)]
      words_first [OF list.discI [OF refl] word_chars(3)] Let_def low list.case
    by (simp add: VERBS_def parse_media_def first_lower_def get_arg_def low)
  have "text_after_subcommand (''mods'' @ '' '' @ ''push'' @ '' '' @ t) = Some t"
    by (rule subcommand_text [OF assms _ word_chars(4) _ word_chars(5)]) simp_all
  then show "command_parse (''mods'' @ '' '' @ ''push'' @ '' '' @ t) = Inr (Mods (ModsPush t))"
    unfolding command_parse_def words_first [OF list.discI [OF refl] word_chars(4)]
      words_first [OF list.discI [OF refl] word_chars(5)] Let_def low list.case
    by (simp add: VERBS_def parse_mods_def first_lower_def get_arg_def low)
qed

theorem spaces_kept_witness:
  "command_parse (''media'' @ '' '' @ ''attach'' @ '' '' @ ''/tmp/My USB.img'') =
     Inr (Media (MediaAttach ''/tmp/My USB.img''))"
proof -
  have "trim ''/tmp/My USB.img'' = ''/tmp/My USB.img''" by code_simp
  then show ?thesis using spaces_kept [of "''/tmp/My USB.img''"] by blast
qed

end
