(* ===== verification/Version.thy ===== *)
theory Version
  imports RustText
begin

text \<open>
  Release versions, \<open>crates/cdj3k-emu-update/src/version.rs\<close>: the parser, \<open>Display\<close> and
  the semver precedence of \<open>Ord\<close>. A comparison function is described by the contract
  \<open>comparison\<close> (reflexive, antisymmetric, transitive), which the element-wise order of
  two lists inherits; it is interpreted on \<open>cmp_pre\<close> and on the order of versions.
\<close>

datatype ordering = Less | Equal | Greater

fun reversed :: "ordering \<Rightarrow> ordering" where
  "reversed Less = Greater"
| "reversed Equal = Equal"
| "reversed Greater = Less"

definition then_with :: "ordering \<Rightarrow> ordering \<Rightarrow> ordering" where
  "then_with a b = (if a = Equal then b else a)"

definition cmp_nat :: "nat \<Rightarrow> nat \<Rightarrow> ordering" where
  "cmp_nat a b = (if a < b then Less else if a = b then Equal else Greater)"

text \<open>\<open>Ord\<close> of slices, arrays and strings: the first difference decides, then the length.\<close>

fun cmp_list :: "('a \<Rightarrow> 'a \<Rightarrow> ordering) \<Rightarrow> 'a list \<Rightarrow> 'a list \<Rightarrow> ordering" where
  "cmp_list c [] [] = Equal"
| "cmp_list c [] (y # ys) = Less"
| "cmp_list c (x # xs) [] = Greater"
| "cmp_list c (x # xs) (y # ys) = then_with (c x y) (cmp_list c xs ys)"

definition cmp_str :: "string \<Rightarrow> string \<Rightarrow> ordering" where
  "cmp_str a b = cmp_list (\<lambda>c d. cmp_nat (code c) (code d)) a b"

section \<open>Versions\<close>

text \<open>The three numbers of the core are \<open>u64\<close>; \<open>version_ok\<close> states it.\<close>

record version =
  core :: "nat \<times> nat \<times> nat"
  pre :: "string list"

definition dot :: "char \<Rightarrow> bool" where "dot c = (c = CHR ''.'')"

definition core_field :: "string \<Rightarrow> nat option" where
  "core_field p = (if p = [] \<or> \<not> list_all is_digit p then None else parse_uint 64 p)"

definition pre_id :: "string \<Rightarrow> bool" where
  "pre_id p = (p \<noteq> [] \<and> list_all (\<lambda>c. is_alnum c \<or> c = CHR ''-'') p)"

definition core_parse :: "string \<Rightarrow> (nat \<times> nat \<times> nat) option" where
  "core_parse s =
     (case split_by dot s of
        [a, b, c] \<Rightarrow>
          (case (core_field a, core_field b, core_field c) of
             (Some a, Some b, Some c) \<Rightarrow> Some (a, b, c)
           | _ \<Rightarrow> None)
      | _ \<Rightarrow> None)"

definition pre_parse :: "string option \<Rightarrow> string list option" where
  "pre_parse p =
     (case p of
        None \<Rightarrow> Some []
      | Some p \<Rightarrow> (let ids = split_by dot p in if list_all pre_id ids then Some ids else None))"

definition version_parse :: "string \<Rightarrow> version option" where
  "version_parse s =
     (let s = trim_start_by (\<lambda>c. c = CHR ''v'') (trim s);
          s = (case split_once (\<lambda>c. c = CHR ''+'') s of Some (v, _) \<Rightarrow> v | None \<Rightarrow> s);
          (c, p) = (case split_once (\<lambda>c. c = CHR ''-'') s of
                      Some (c, p) \<Rightarrow> (c, Some p)
                    | None \<Rightarrow> (s, None))
      in (case core_parse c of
            None \<Rightarrow> None
          | Some parsed \<Rightarrow>
              (case pre_parse p of
                 None \<Rightarrow> None
               | Some ids \<Rightarrow> Some \<lparr>core = parsed, pre = ids\<rparr>)))"

definition is_pre :: "version \<Rightarrow> bool" where
  "is_pre v = (pre v \<noteq> [])"

text \<open>One round of the loop of \<open>cmp_pre\<close>.\<close>

definition cmp_id :: "string \<Rightarrow> string \<Rightarrow> ordering" where
  "cmp_id x y =
     (case (parse_uint 64 x, parse_uint 64 y) of
        (Some x, Some y) \<Rightarrow> cmp_nat x y
      | (Some _, None) \<Rightarrow> Less
      | (None, Some _) \<Rightarrow> Greater
      | (None, None) \<Rightarrow> cmp_str x y)"

primrec cmp_pre_loop :: "(string \<times> string) list \<Rightarrow> ordering option" where
  "cmp_pre_loop [] = None"
| "cmp_pre_loop (p # ps) =
     (let ord = cmp_id (fst p) (snd p) in if ord \<noteq> Equal then Some ord else cmp_pre_loop ps)"

definition cmp_pre :: "string list \<Rightarrow> string list \<Rightarrow> ordering" where
  "cmp_pre a b =
     (case cmp_pre_loop (zip a b) of
        Some ord \<Rightarrow> ord
      | None \<Rightarrow> cmp_nat (length a) (length b))"

definition core_list :: "version \<Rightarrow> nat list" where
  "core_list v = (case core v of (a, b, c) \<Rightarrow> [a, b, c])"

definition version_cmp :: "version \<Rightarrow> version \<Rightarrow> ordering" where
  "version_cmp v w =
     then_with (cmp_list cmp_nat (core_list v) (core_list w))
       (case (pre v = [], pre w = []) of
          (True, True) \<Rightarrow> Equal
        | (True, False) \<Rightarrow> Greater
        | (False, True) \<Rightarrow> Less
        | (False, False) \<Rightarrow> cmp_pre (pre v) (pre w))"

abbreviation version_le :: "version \<Rightarrow> version \<Rightarrow> bool" where
  "version_le v w \<equiv> version_cmp v w \<noteq> Greater"

definition version_show :: "version \<Rightarrow> string" where
  "version_show v =
     (case core v of (major, minor, patch) \<Rightarrow>
        show_nat major @ ''.'' @ show_nat minor @ ''.'' @ show_nat patch)
     @ (if pre v \<noteq> [] then ''-'' @ join ''.'' (pre v) else [])"

text \<open>What the parser makes: numbers of 64 bits and well-formed identifiers.\<close>

definition version_ok :: "version \<Rightarrow> bool" where
  "version_ok v = (list_all (\<lambda>n. n < 2 ^ 64) (core_list v) \<and> list_all pre_id (pre v))"

section \<open>Comparison functions\<close>

locale comparison =
  fixes cmp :: "'a \<Rightarrow> 'a \<Rightarrow> ordering"
  assumes refl: "cmp x x = Equal"
    and swap: "cmp y x = reversed (cmp x y)"
    and trans: "cmp x y \<noteq> Greater \<Longrightarrow> cmp y z \<noteq> Greater \<Longrightarrow> cmp x z \<noteq> Greater"
begin

lemma swap_iff: "cmp y x = Less \<longleftrightarrow> cmp x y = Greater" "cmp y x = Equal \<longleftrightarrow> cmp x y = Equal"
  "cmp y x = Greater \<longleftrightarrow> cmp x y = Less"
  using swap [of y x] by (cases "cmp x y"; simp)+

lemma total: "cmp x y \<noteq> Greater \<or> cmp y x \<noteq> Greater"
  using swap [of y x] by (cases "cmp x y") auto

lemma less_le_trans: "cmp x y = Less \<Longrightarrow> cmp y z \<noteq> Greater \<Longrightarrow> cmp x z = Less"
  by (metis ordering.distinct(5) ordering.exhaust swap_iff(1,2) trans)

lemma le_less_trans: "cmp x y \<noteq> Greater \<Longrightarrow> cmp y z = Less \<Longrightarrow> cmp x z = Less"
  by (metis ordering.exhaust swap_iff(1,2) trans)

lemma equal_trans: "cmp x y = Equal \<Longrightarrow> cmp y z = Equal \<Longrightarrow> cmp x z = Equal"
  by (metis ordering.distinct(3) ordering.distinct(5) ordering.exhaust swap_iff(1,2) trans)

text \<open>Along a chain either something drops, or everything is equal.\<close>

lemma chain:
  assumes "cmp x y \<noteq> Greater" and "cmp y z \<noteq> Greater"
  shows "cmp x z = Less \<or> (cmp x y = Equal \<and> cmp y z = Equal \<and> cmp x z = Equal)"
proof (cases "cmp x y")
  case Less
  with assms show ?thesis using less_le_trans by blast
next
  case Equal
  show ?thesis
  proof (cases "cmp y z")
    case Less
    with assms show ?thesis using le_less_trans by blast
  next
    case Equal2: Equal
    with Equal show ?thesis using equal_trans by blast
  next
    case Greater
    with assms show ?thesis by simp
  qed
next
  case Greater
  with assms show ?thesis by simp
qed

end

text \<open>How orders are combined: by a key, by a first and then a second criterion, along lists.\<close>

lemma comparison_image:
  assumes C: "comparison c"
  shows "comparison (\<lambda>x y. c (f x) (f y))"
  by unfold_locales
    (rule comparison.refl [OF C], rule comparison.swap [OF C], rule comparison.trans [OF C])

lemma comparison_then_with:
  assumes "comparison a" and "comparison b"
  shows "comparison (\<lambda>x y. then_with (a x y) (b x y))"
proof -
  note A = assms(1) and B = assms(2)
  show ?thesis
  proof
    fix x y z
    show "then_with (a x x) (b x x) = Equal"
      by (simp add: then_with_def comparison.refl [OF A] comparison.refl [OF B])
    show "then_with (a y x) (b y x) = reversed (then_with (a x y) (b x y))"
      using comparison.swap [OF A, of y x] comparison.swap [OF B, of y x]
      by (cases "a x y") (simp_all add: then_with_def)
    assume le: "then_with (a x y) (b x y) \<noteq> Greater" "then_with (a y z) (b y z) \<noteq> Greater"
    then have "a x y \<noteq> Greater" "a y z \<noteq> Greater" by (auto simp: then_with_def split: if_splits)
    from comparison.chain [OF A this]
    show "then_with (a x z) (b x z) \<noteq> Greater"
    proof
      assume "a x z = Less"
      then show ?thesis by (simp add: then_with_def)
    next
      assume eq: "a x y = Equal \<and> a y z = Equal \<and> a x z = Equal"
      with le have "b x y \<noteq> Greater" "b y z \<noteq> Greater" by (simp_all add: then_with_def)
      then have "b x z \<noteq> Greater" by (rule comparison.trans [OF B])
      with eq show ?thesis by (simp add: then_with_def)
    qed
  qed
qed

lemma cmp_list_trans:
  assumes C: "comparison c"
  shows "cmp_list c xs ys \<noteq> Greater \<Longrightarrow> cmp_list c ys zs \<noteq> Greater \<Longrightarrow> cmp_list c xs zs \<noteq> Greater"
proof (induction xs arbitrary: ys zs)
  case Nil
  then show ?case by (cases zs) auto
next
  case (Cons x xs)
  then obtain y ys' z zs' where yz: "ys = y # ys'" "zs = z # zs'"
    by (cases ys; cases zs) simp_all
  with Cons.prems have le: "then_with (c x y) (cmp_list c xs ys') \<noteq> Greater"
    "then_with (c y z) (cmp_list c ys' zs') \<noteq> Greater" by simp_all
  then have "c x y \<noteq> Greater" "c y z \<noteq> Greater" by (auto simp: then_with_def split: if_splits)
  from comparison.chain [OF C this] show ?case
  proof
    assume "c x z = Less"
    then show ?thesis by (simp add: yz then_with_def)
  next
    assume eq: "c x y = Equal \<and> c y z = Equal \<and> c x z = Equal"
    with le have "cmp_list c xs ys' \<noteq> Greater" "cmp_list c ys' zs' \<noteq> Greater"
      by (simp_all add: then_with_def)
    then have "cmp_list c xs zs' \<noteq> Greater" by (rule Cons.IH)
    with eq show ?thesis by (simp add: yz then_with_def)
  qed
qed

lemma cmp_list_swap: "comparison c \<Longrightarrow> cmp_list c ys xs = reversed (cmp_list c xs ys)"
proof (induction c xs ys rule: cmp_list.induct)
  case (4 c x xs y ys)
  then have "c y x = reversed (c x y)" by (metis comparison.swap)
  with 4 show ?case by (cases "c x y") (simp_all add: then_with_def)
qed simp_all

lemma cmp_list_refl: "comparison c \<Longrightarrow> cmp_list c xs xs = Equal"
  by (induction xs) (auto simp: then_with_def comparison.refl)

lemma comparison_list:
  assumes C: "comparison c"
  shows "comparison (cmp_list c)"
  by unfold_locales (rule cmp_list_refl [OF C], rule cmp_list_swap [OF C], rule cmp_list_trans [OF C])

interpretation nats: comparison cmp_nat
  by unfold_locales (auto simp: cmp_nat_def split: if_splits)

lemma comparison_str: "comparison cmp_str"
  using comparison_list [OF comparison_image [OF nats.comparison_axioms, of code]]
  by (simp add: cmp_str_def [abs_def])

text \<open>Numbers come before words, so an identifier compares by its kind first.\<close>

lemma comparison_kinds:
  assumes C: "comparison c" and D: "comparison d"
  shows "comparison (\<lambda>x y. case (f x, f y) of
           (Some m, Some n) \<Rightarrow> c m n | (Some _, None) \<Rightarrow> Less
         | (None, Some _) \<Rightarrow> Greater | (None, None) \<Rightarrow> d x y)" (is "comparison ?k")
proof
  fix x y z
  show "?k x x = Equal"
    by (simp add: comparison.refl [OF C] comparison.refl [OF D] split: option.split)
  show "?k y x = reversed (?k x y)"
    by (cases "f x"; cases "f y") (simp_all add: comparison.swap [OF C, symmetric] comparison.swap [OF D, symmetric])
  show "?k x y \<noteq> Greater \<Longrightarrow> ?k y z \<noteq> Greater \<Longrightarrow> ?k x z \<noteq> Greater"
    by (cases "f x"; cases "f y"; cases "f z")
      (simp_all, metis comparison.trans [OF D], metis comparison.trans [OF C])
qed

interpretation ids: comparison cmp_id
  using comparison_kinds [OF nats.comparison_axioms comparison_str, of "parse_uint 64"]
  by (simp add: cmp_id_def [abs_def])

text \<open>The loop of \<open>cmp_pre\<close> is the lexicographic order on the identifiers.\<close>

lemma cmp_nat_Suc [simp]: "cmp_nat (Suc a) (Suc b) = cmp_nat a b"
  by (simp add: cmp_nat_def)

lemma cmp_pre_Cons:
  "cmp_pre (x # xs) (y # ys) = then_with (cmp_id x y) (cmp_pre xs ys)"
  by (auto simp: cmp_pre_def then_with_def Let_def split: option.split)

lemma cmp_pre_list: "cmp_pre a b = cmp_list cmp_id a b"
proof (induction cmp_id a b rule: cmp_list.induct)
  case (4 x xs y ys)
  then show ?case by (simp add: cmp_pre_Cons)
qed (simp_all add: cmp_pre_def cmp_nat_def)

interpretation pres: comparison cmp_pre
  using comparison_list [OF ids.comparison_axioms] by (simp add: cmp_pre_list [abs_def])

definition cmp_tail :: "string list \<Rightarrow> string list \<Rightarrow> ordering" where
  "cmp_tail p q =
     (case (p = [], q = []) of
        (True, True) \<Rightarrow> Equal
      | (True, False) \<Rightarrow> Greater
      | (False, True) \<Rightarrow> Less
      | (False, False) \<Rightarrow> cmp_pre p q)"

lemma comparison_tail: "comparison cmp_tail"
proof
  fix x y z
  show "cmp_tail x x = Equal" by (cases x) (simp_all add: cmp_tail_def pres.refl)
  show "cmp_tail y x = reversed (cmp_tail x y)"
    by (cases x; cases y) (simp_all add: cmp_tail_def pres.swap [symmetric])
  show "cmp_tail x y \<noteq> Greater \<Longrightarrow> cmp_tail y z \<noteq> Greater \<Longrightarrow> cmp_tail x z \<noteq> Greater"
    by (cases x; cases y; cases z) (simp_all add: cmp_tail_def, metis pres.trans)
qed

interpretation versions: comparison version_cmp
proof -
  have "comparison (\<lambda>v w. then_with (cmp_list cmp_nat (core_list v) (core_list w)) (cmp_tail (pre v) (pre w)))"
    using nats.comparison_axioms comparison_tail
    by (intro comparison_then_with comparison_image [of _ core_list] comparison_image [of _ pre] comparison_list)
  then show "comparison version_cmp" by (simp add: version_cmp_def [abs_def] cmp_tail_def)
qed

section \<open>Printing and parsing\<close>

lemma is_digit_code: "is_digit c \<longleftrightarrow> 48 \<le> code c \<and> code c \<le> 57"
  by (simp add: is_digit_def Let_def)

lemma core_field_show: "n < 2 ^ 64 \<Longrightarrow> core_field (show_nat n) = Some n"
  using show_nat_hd [of n] show_nat_all_digits [of _ n]
  by (auto simp: core_field_def list_all_iff)

lemma digit_not_dot: "is_digit c \<Longrightarrow> \<not> dot c"
  by (auto simp: is_digit_def dot_def)

lemma core_parse_show:
  assumes "a < 2 ^ 64" and "b < 2 ^ 64" and "c < 2 ^ 64"
  shows "core_parse (show_nat a @ ''.'' @ show_nat b @ ''.'' @ show_nat c) = Some (a, b, c)"
proof -
  have nd: "\<forall>x \<in> set (show_nat n). \<not> dot x" for n using show_nat_all_digits digit_not_dot by blast
  have "dot CHR ''.''" by (simp add: dot_def)
  then have "split_by dot (show_nat a @ ''.'' @ show_nat b @ ''.'' @ show_nat c) = [show_nat a, show_nat b, show_nat c]"
    using nd by (simp add: split_by_append split_by_no_match)
  then show ?thesis using assms by (simp add: core_parse_def core_field_show)
qed

lemma pre_id_char: "pre_id p \<Longrightarrow> c \<in> set p \<Longrightarrow> is_alnum c \<or> c = CHR ''-''"
  by (auto simp: pre_id_def list_all_iff)

lemma pre_parse_join:
  assumes "ids \<noteq> []" and "list_all pre_id ids"
  shows "pre_parse (Some (join ''.'' ids)) = Some ids"
proof -
  have "\<not> is_alnum CHR ''.''" by code_simp
  then have "\<forall>p \<in> set ids. CHR ''.'' \<notin> set p"
    using assms(2) pre_id_char by (fastforce simp: list_all_iff)
  then have "split_by dot (join ''.'' ids) = ids"
    using split_by_join [OF assms(1)] by (simp add: dot_def [abs_def])
  with assms show ?thesis by (simp add: pre_parse_def Let_def)
qed

text \<open>The characters of a printed version.\<close>

lemma set_join: "c \<in> set (join sep ps) \<Longrightarrow> c \<in> set sep \<or> (\<exists>p \<in> set ps. c \<in> set p)"
  by (induction sep ps rule: join.induct) auto

lemma join_last: "ps \<noteq> [] \<Longrightarrow> \<forall>p \<in> set ps. p \<noteq> [] \<Longrightarrow> join sep ps \<noteq> [] \<and> last (join sep ps) = last (last ps)"
  by (induction sep ps rule: join.induct) auto

definition core_text :: "version \<Rightarrow> string" where
  "core_text v = (case core v of (a, b, c) \<Rightarrow> show_nat a @ ''.'' @ show_nat b @ ''.'' @ show_nat c)"

lemma core_text_char: "c \<in> set (core_text v) \<Longrightarrow> is_digit c \<or> c = CHR ''.''"
  by (auto simp: core_text_def dest: show_nat_all_digits split: prod.splits)

lemma version_show_text: "version_show v = core_text v @ (if pre v \<noteq> [] then ''-'' @ join ''.'' (pre v) else [])"
  by (simp add: version_show_def core_text_def)

lemma core_text_ends: "core_text v \<noteq> []" "is_digit (hd (core_text v))" "is_digit (last (core_text v))"
proof -
  obtain a b c where v: "core v = (a, b, c)" by (cases "core v") auto
  obtain d ds where a: "show_nat a = d # ds" "is_digit d" using show_nat_hd by blast
  have c: "show_nat c \<noteq> []" using show_nat_hd [of c] by auto
  then have "is_digit (last (show_nat c))" using show_nat_all_digits last_in_set by blast
  with v a c show "core_text v \<noteq> []" "is_digit (hd (core_text v))" "is_digit (last (core_text v))"
    by (simp_all add: core_text_def)
qed

lemma alnum_not_ws: "is_alnum c \<or> c = CHR ''-'' \<Longrightarrow> \<not> is_ws c \<and> c \<noteq> CHR ''+''"
proof -
  assume c: "is_alnum c \<or> c = CHR ''-''"
  then have "33 \<le> code c \<and> code c < 128 \<and> code c \<noteq> 43"
    by (elim disjE) (simp_all add: is_alnum_def is_alpha_def is_upper_def is_lower_def is_digit_def Let_def, linarith)
  moreover have "code (CHR ''+'') = 43" by simp
  ultimately show ?thesis unfolding is_ws_def Let_def by (intro conjI) (linarith, metis)
qed

lemma version_show_last:
  assumes "list_all pre_id (pre v)"
  shows "is_alnum (last (version_show v)) \<or> last (version_show v) = CHR ''-''"
proof (cases "pre v = []")
  case True
  then have "version_show v = core_text v" by (simp add: version_show_text)
  then have "is_digit (last (version_show v))" using core_text_ends(3) by metis
  then show ?thesis unfolding is_alnum_def by blast
next
  case False
  then have ids: "\<forall>p \<in> set (pre v). p \<noteq> []" using assms by (auto simp: list_all_iff pre_id_def)
  note j = join_last [OF False ids, of "''.''"]
  have "version_show v = (core_text v @ ''-'') @ join ''.'' (pre v)" using False by (simp add: version_show_text)
  with j have l: "last (version_show v) = last (last (pre v))" by (metis last_appendR)
  have "last (pre v) \<in> set (pre v)" using False by (rule last_in_set)
  then have "pre_id (last (pre v))" "last (pre v) \<noteq> []" using assms ids by (auto simp: list_all_iff)
  then show ?thesis unfolding l using pre_id_char last_in_set by blast
qed

lemma version_show_no_plus:
  assumes "list_all pre_id (pre v)" and "c \<in> set (version_show v)"
  shows "c \<noteq> CHR ''+''"
proof -
  have "is_digit c \<or> c = CHR ''.'' \<or> c = CHR ''-'' \<or> (\<exists>p \<in> set (pre v). c \<in> set p)"
    using assms(2) core_text_char set_join [of c "''.''" "pre v"]
    by (fastforce simp: version_show_text split: if_splits)
  then show ?thesis
  proof (elim disjE bexE)
    fix p assume "p \<in> set (pre v)" "c \<in> set p"
    then have "is_alnum c \<or> c = CHR ''-''" using assms(1) pre_id_char by (auto simp: list_all_iff)
    then show ?thesis using alnum_not_ws by blast
  qed (auto simp: is_digit_def)
qed

lemma version_show_trimmed:
  assumes "list_all pre_id (pre v)"
  shows "trim_start_by (\<lambda>c. c = CHR ''v'') (trim (version_show v)) = version_show v"
proof -
  have hd: "is_digit (hd (version_show v))" and ne: "version_show v \<noteq> []"
    using core_text_ends by (auto simp: version_show_text)
  then have "\<not> is_ws (hd (version_show v))" using alnum_not_ws by (auto simp: is_alnum_def)
  moreover have "\<not> is_ws (last (version_show v))" using version_show_last [OF assms] alnum_not_ws by blast
  ultimately have "trim (version_show v) = version_show v" by (simp add: trim_def trim_by_id)
  moreover have "hd (version_show v) \<noteq> CHR ''v''" using hd by (auto simp: is_digit_def)
  ultimately show ?thesis by (simp add: trim_start_by_id)
qed

lemma version_parse_show:
  assumes "version_ok v"
  shows "version_parse (version_show v) = Some v"
proof -
  let ?s = "version_show v"
  have ids: "list_all pre_id (pre v)" using assms by (simp add: version_ok_def)
  have plus: "split_once (\<lambda>c. c = CHR ''+'') ?s = None"
    using version_show_no_plus [OF ids] by (simp add: split_once_None)
  have core: "\<forall>c \<in> set (core_text v). c \<noteq> CHR ''-''" using core_text_char by (fastforce simp: is_digit_def)
  obtain a b c where abc: "core v = (a, b, c)" by (cases "core v") auto
  then have parsed: "core_parse (core_text v) = Some (core v)"
    using assms core_parse_show [of a b c] by (simp add: version_ok_def core_list_def core_text_def)
  show ?thesis
  proof (cases "pre v = []")
    case True
    then have "?s = core_text v" by (simp add: version_show_text)
    moreover have "split_once (\<lambda>c. c = CHR ''-'') (core_text v) = None" using core by (simp add: split_once_None)
    ultimately show ?thesis using True plus parsed version_show_trimmed [OF ids]
      by (simp add: version_parse_def Let_def pre_parse_def)
  next
    case False
    then have s: "?s = core_text v @ CHR ''-'' # join ''.'' (pre v)" by (simp add: version_show_text)
    have "split_once (\<lambda>c. c = CHR ''-'') ?s = Some (core_text v, join ''.'' (pre v))"
      unfolding s using core by (intro split_once_append) auto
    then show ?thesis using plus parsed version_show_trimmed [OF ids] pre_parse_join [OF False ids]
      by (simp add: version_parse_def Let_def)
  qed
qed

lemma version_parse_ok: "version_parse s = Some v \<Longrightarrow> version_ok v"
  by (auto simp: version_parse_def Let_def version_ok_def core_list_def core_parse_def core_field_def
      parse_uint_def pre_parse_def dest!: parse_radix_bound split: option.splits prod.splits list.splits if_splits)

text \<open>A version the parser accepts prints as text that parses back to the same version, whatever
  leading \<open>v\<close>, spaces, leading zeros or build metadata its own text had.\<close>

theorem version_round_trip: "version_parse s = Some v \<Longrightarrow> version_parse (version_show v) = Some v"
  by (intro version_parse_show version_parse_ok)

theorem version_round_trip_witness:
  "version_parse '' v01.2.3-beta.2+build.7'' = Some \<lparr>core = (1, 2, 3), pre = [''beta'', ''2'']\<rparr> \<and>
   version_parse (version_show \<lparr>core = (1, 2, 3), pre = [''beta'', ''2'']\<rparr>) = Some \<lparr>core = (1, 2, 3), pre = [''beta'', ''2'']\<rparr>"
proof -
  have "version_parse '' v01.2.3-beta.2+build.7'' = Some \<lparr>core = (1, 2, 3), pre = [''beta'', ''2'']\<rparr>" by code_simp
  with version_round_trip show ?thesis by blast
qed



text \<open>
  Two versions can compare equal without being equal: the order reads numeric identifiers as
  numbers, the derived equality compares their text.
\<close>

lemma equal_versions_differ:
  "\<exists>v w. version_parse ''1.0.0-1'' = Some v \<and> version_parse ''1.0.0-01'' = Some w \<and>
         version_cmp v w = Equal \<and> v \<noteq> w"
proof -
  have "version_parse ''1.0.0-1'' = Some \<lparr>core = (1, 0, 0), pre = [''1'']\<rparr>" by code_simp
  moreover have "version_parse ''1.0.0-01'' = Some \<lparr>core = (1, 0, 0), pre = [''01'']\<rparr>" by code_simp
  moreover have "version_cmp \<lparr>core = (1, 0, 0), pre = [''1'']\<rparr> \<lparr>core = (1, 0, 0), pre = [''01'']\<rparr> = Equal"
    by code_simp
  ultimately show ?thesis by fastforce
qed

end
