(* ===== verification/Update.thy ===== *)
theory Update
  imports Version Utf8
begin

text \<open>
  The updater, \<open>crates/cdj3k-emu-update/src\<close>: the release index (\<open>index.rs\<close>), the signature
  check (\<open>signature.rs\<close>), the decision what to offer (\<open>lib.rs\<close>) and the checked download
  (\<open>fetch/mod.rs\<close>). HTTPS, JSON, base64, Ed25519 and SHA-256 are third-party code and enter
  as arguments (the record \<open>crypto\<close> and the functions \<open>fetch\<close>, \<open>from_json\<close>, \<open>sha256\<close>).
  Error texts are the constructors of \<open>update_error\<close>. The files of the download directory are
  a map from names to contents; a download is the sequence of rounds of the copy loop, each
  with the cancel flag it sees and the result of its read.
\<close>

section \<open>The index\<close>

definition SCHEMA :: nat where "SCHEMA = 1"

datatype package_kind = Dmg | Deb | Rpm | AppImage | Inno | Other

definition installs_itself :: "package_kind \<Rightarrow> bool" where
  "installs_itself k = (k = AppImage \<or> k = Inno)"

definition kind_parse :: "string \<Rightarrow> package_kind option" where
  "kind_parse s =
     (let s = trim s
      in if s = ''dmg'' then Some Dmg else if s = ''deb'' then Some Deb
         else if s = ''rpm'' then Some Rpm else if s = ''appimage'' then Some AppImage
         else if s = ''inno'' then Some Inno else None)"

record package =
  pkg_os :: string
  pkg_arch :: string
  pkg_kind :: package_kind
  pkg_url :: string
  pkg_size :: nat
  pkg_sha256 :: string

record release_index =
  ix_schema :: nat
  ix_version :: string
  ix_notes :: string
  ix_release_notes :: string
  ix_packages :: "package list"

datatype update_error =
    MalformedIndex
  | NewerSchema nat
  | IndexVersion string
  | RunningVersion string
  | NoIndex
  | NotFound string
  | Unreachable string
  | SignatureNotText
  | KeyUnreadable
  | SignatureMalformed
  | NotSigned
  | NamesNoFile string
  | Cancelled
  | TooLarge nat
  | StoppedAt nat nat
  | HashMismatch string string
  | IoError

definition index_parse :: "(bytes \<Rightarrow> release_index option) \<Rightarrow> bytes \<Rightarrow> update_error + release_index" where
  "index_parse from_json data =
     bindR (ok_or MalformedIndex (from_json data))
       (\<lambda>index. if ix_schema index > SCHEMA then Inl (NewerSchema (ix_schema index)) else Inr index)"

definition package_for :: "release_index \<Rightarrow> string \<Rightarrow> string \<Rightarrow> package_kind \<Rightarrow> package option" where
  "package_for index os arch kind =
     (let of_kind = filter (\<lambda>p. pkg_os p = os \<and> pkg_kind p = kind) (ix_packages index)
      in (case find (\<lambda>p. pkg_arch p = arch) of_kind of
            Some p \<Rightarrow> Some p
          | None \<Rightarrow> find (\<lambda>p. pkg_arch p = ''universal'') of_kind))"

section \<open>What is offered\<close>

record offer =
  off_version :: string
  off_notes :: string
  off_release_notes :: string
  off_kind :: package_kind
  off_package :: package

datatype status =
    Current string string string
  | Available offer
  | NoPackage string
  | Unmanaged

definition evaluate ::
  "release_index \<Rightarrow> string \<Rightarrow> string \<Rightarrow> string \<Rightarrow> package_kind \<Rightarrow> update_error + status" where
  "evaluate index running os arch kind =
     bindR (ok_or (IndexVersion (ix_version index)) (version_parse (ix_version index)))
       (\<lambda>latest. bindR (ok_or (RunningVersion running) (version_parse running))
       (\<lambda>running.
          if version_le latest running
          then Inr (Current (version_show latest) (ix_notes index) (ix_release_notes index))
          else Inr (case package_for index os arch kind of
                      Some package \<Rightarrow>
                        Available \<lparr>off_version = version_show latest, off_notes = ix_notes index,
                          off_release_notes = ix_release_notes index, off_kind = kind,
                          off_package = package\<rparr>
                    | None \<Rightarrow> NoPackage (version_show latest))))"

definition is_stale_download :: "string \<Rightarrow> version \<Rightarrow> bool" where
  "is_stale_download name running =
     (case Option.bind (strip_prefix ''update-'' name) version_parse of
        None \<Rightarrow> False
      | Some v \<Rightarrow> version_le v running)"

text \<open>The last component of \<open>download_dir\<close>.\<close>

definition download_dir :: "string \<Rightarrow> string" where
  "download_dir version = ''update-'' @ version"

text \<open>\<open>prune_downloads\<close> on the names of the entries of the runtime root.\<close>

definition prune_downloads :: "string \<Rightarrow> string list \<Rightarrow> string list" where
  "prune_downloads running entries =
     (case version_parse running of
        None \<Rightarrow> entries
      | Some running \<Rightarrow> filter (\<lambda>name. \<not> is_stale_download name running) entries)"

section \<open>The signature\<close>

record ('k, 's) crypto =
  b64_decode :: "string \<Rightarrow> bytes option"
  key_from_slice :: "bytes \<Rightarrow> 'k option"
  sig_from_slice :: "bytes \<Rightarrow> 's option"
  ed_verify :: "'k \<Rightarrow> bytes \<Rightarrow> 's \<Rightarrow> bool"

definition UPDATE_KEY :: string where
  "UPDATE_KEY = ''rEAQx6qqWNU8BtSi3g6/kBlaSJm2qUyVJLiJ21UmFqs=''"

definition sig_decode :: "('k, 's) crypto \<Rightarrow> string \<Rightarrow> bytes option" where
  "sig_decode lib text = b64_decode lib (trim text)"

definition public_key_from :: "('k, 's) crypto \<Rightarrow> string \<Rightarrow> 'k option" where
  "public_key_from lib text = Option.bind (sig_decode lib text) (key_from_slice lib)"

definition verify_with :: "('k, 's) crypto \<Rightarrow> string \<Rightarrow> bytes \<Rightarrow> string \<Rightarrow> update_error + unit" where
  "verify_with lib public_key data sig_text =
     bindR (ok_or KeyUnreadable (public_key_from lib public_key))
       (\<lambda>key. bindR (ok_or SignatureMalformed (Option.bind (sig_decode lib sig_text) (sig_from_slice lib)))
       (\<lambda>sig. if ed_verify lib key data sig then Inr () else Inl NotSigned))"

definition verify :: "('k, 's) crypto \<Rightarrow> bytes \<Rightarrow> string \<Rightarrow> update_error + unit" where
  "verify lib data sig_text = verify_with lib UPDATE_KEY data sig_text"

definition LATEST :: string where
  "LATEST = ''https://github.com/nsaintot/cdj3k-emu/releases/latest/download''"

definition INDEX_NAME :: string where
  "INDEX_NAME = ''cdj3k-emu-update.json''"

definition index_url :: string where
  "index_url = LATEST @ ''/'' @ INDEX_NAME"

text \<open>
  \<open>check\<close>, on the results of the two fetches: \<open>fetch url\<close> is what \<open>fetch::get\<close> returns.
  Valid UTF-8 is read as one char per byte, which is exact for the ASCII that base64 text is.
\<close>

definition text_of :: "bytes \<Rightarrow> string" where
  "text_of bs = map (\<lambda>b. char_of (unat b)) bs"

definition check_update ::
  "(string \<Rightarrow> update_error + bytes) \<Rightarrow> ('k, 's) crypto \<Rightarrow> (bytes \<Rightarrow> release_index option) \<Rightarrow>
   package_kind option \<Rightarrow> string \<Rightarrow> string \<Rightarrow> string \<Rightarrow> string list \<Rightarrow>
   (update_error + status) \<times> string list" where
  "check_update fetch lib from_json installed running os arch entries =
     (let entries = prune_downloads running entries
      in (case installed of
            None \<Rightarrow> (Inr Unmanaged, entries)
          | Some kind \<Rightarrow>
              (bindR (case fetch index_url of
                        Inl (NotFound u) \<Rightarrow> Inl NoIndex
                      | r \<Rightarrow> r)
                 (\<lambda>data. bindR (fetch (index_url @ ''.sig''))
                 (\<lambda>sig. bindR (if utf8_valid sig then Inr (text_of sig) else Inl SignatureNotText)
                 (\<lambda>sig. bindR (verify lib data sig)
                 (\<lambda>_. bindR (index_parse from_json data)
                 (\<lambda>index. evaluate index running os arch kind))))), entries)))"

section \<open>The download\<close>

text \<open>The file name a package's URL gives: what follows its last slash.\<close>

definition package_file :: "package \<Rightarrow> update_error + string" where
  "package_file package =
     (let n = last (split_by (\<lambda>c. c = CHR ''/'') (pkg_url package))
      in if n \<noteq> [] \<and> CHR 0x5C \<notin> set n \<and> CHR '':'' \<notin> set n \<and> n \<noteq> ''..''
         then Inr n else Inl (NamesNoFile (pkg_url package)))"

text \<open>\<open>Path::with_extension\<close> on a file name, with an extension that is not empty.\<close>

definition with_extension :: "string \<Rightarrow> string \<Rightarrow> string" where
  "with_extension name ext =
     (case rsplit_once (\<lambda>c. c = CHR ''.'') name of
        Some (stem, _) \<Rightarrow> if stem = [] then name else stem
      | None \<Rightarrow> name) @ ''.'' @ ext"

type_synonym files = "string \<Rightarrow> bytes option"

text \<open>
  A round of the loop: the cancel flag, and what \<open>read\<close> returns, \<open>None\<close> for an I/O error and
  \<open>Some []\<close> at the end. The list of rounds ends at the end of the body.
\<close>

type_synonym read_round = "bool \<times> bytes option"

type_synonym progress = "(nat \<times> nat) list"

text \<open>The loop: the bytes taken so far, and the progress reports, newest last.\<close>

fun save_loop ::
  "package \<Rightarrow> read_round list \<Rightarrow> bytes \<Rightarrow> progress \<Rightarrow> (update_error + bytes) \<times> progress" where
  "save_loop package [] got seen = (Inr got, seen)"
| "save_loop package ((cancel, rd) # rounds) got seen =
     (if cancel then (Inl Cancelled, seen)
      else (case rd of
              None \<Rightarrow> (Inl IoError, seen)
            | Some buf \<Rightarrow>
                if buf = [] then (Inr got, seen)
                else let done = length got + length buf
                     in if done > pkg_size package then (Inl (TooLarge (pkg_size package)), seen)
                        else save_loop package rounds (got @ buf) (seen @ [(done, pkg_size package)])))"

definition save_checked ::
  "(bytes \<Rightarrow> string) \<Rightarrow> package \<Rightarrow> update_error + bytes \<Rightarrow> update_error + bytes" where
  "save_checked sha256 package body =
     bindR body (\<lambda>body.
       if length body \<noteq> pkg_size package then Inl (StoppedAt (length body) (pkg_size package))
       else let got = sha256 body
            in if \<not> eq_ignore_ascii_case got (pkg_sha256 package)
               then Inl (HashMismatch got (pkg_sha256 package))
               else Inr body)"

text \<open>
  \<open>save\<close>: the part file is removed, filled, checked, and renamed over the destination, or
  removed again on any error.
\<close>

definition save ::
  "(bytes \<Rightarrow> string) \<Rightarrow> string \<Rightarrow> package \<Rightarrow> string \<Rightarrow> read_round list \<Rightarrow> files \<Rightarrow>
   (update_error + string) \<times> files \<times> progress" where
  "save sha256 pid package dest rounds fs =
     (let part = with_extension dest (pid @ ''.part'');
          fs = fs(part := None);
          (body, seen) = save_loop package rounds [] [(0, pkg_size package)]
      in (case save_checked sha256 package body of
            Inr body \<Rightarrow> (Inr dest, (fs(part \<mapsto> body))(part := None, dest \<mapsto> body), seen)
          | Inl e \<Rightarrow> (Inl e, fs(part := None), seen)))"

text \<open>
  \<open>fetch_to\<close>, on the response body, of which it reads at most \<open>limit + 1\<close> bytes; \<open>None\<close> is an
  I/O error while copying.
\<close>

definition fetch_to ::
  "string \<Rightarrow> update_error + bytes option \<Rightarrow> string \<Rightarrow> nat \<Rightarrow> files \<Rightarrow> (update_error + unit) \<times> files" where
  "fetch_to pid response dest limit fs =
     (case response of
        Inl e \<Rightarrow> (Inl e, fs)
      | Inr body \<Rightarrow>
          let part = with_extension dest (pid @ ''.part'')
          in (case map_option (take (limit + 1)) body of
                None \<Rightarrow> (Inl IoError, fs(part := None))
              | Some copied \<Rightarrow>
                  if length copied > limit then (Inl (TooLarge limit), fs(part := None))
                  else (Inr (), (fs(part \<mapsto> copied))(part := None, dest \<mapsto> copied))))"

section \<open>Offers\<close>

lemma package_for_Some:
  assumes "package_for index os arch kind = Some p"
  shows "p \<in> set (ix_packages index) \<and> pkg_os p = os \<and> pkg_kind p = kind \<and>
    (pkg_arch p = arch \<or> (pkg_arch p = ''universal'' \<and>
       (\<nexists>q. q \<in> set (ix_packages index) \<and> pkg_os q = os \<and> pkg_kind q = kind \<and> pkg_arch q = arch)))"
  using assms
  by (auto simp: package_for_def Let_def find_Some_iff find_None_iff in_set_conv_nth
      dest!: nth_mem split: option.splits)

lemma not_le_less: "\<not> version_le v w \<longleftrightarrow> version_cmp w v = Less"
  using versions.swap_iff(1) by simp

lemma evaluate_Available:
  assumes "evaluate index running os arch kind = Inr (Available o')"
  obtains latest run where "version_parse (ix_version index) = Some latest"
    and "version_parse running = Some run" and "version_cmp run latest = Less"
    and "package_for index os arch kind = Some (off_package o')"
    and "off_version o' = version_show latest" and "off_kind o' = kind"
  using assms
  by (auto simp: evaluate_def bindR_eq_Inr not_le_less [symmetric] split: if_splits option.splits)

lemma verify_Inr:
  assumes "verify lib data sig = Inr u"
  obtains key s where "public_key_from lib UPDATE_KEY = Some key"
    and "Option.bind (sig_decode lib sig) (sig_from_slice lib) = Some s" and "ed_verify lib key data s"
  using assms by (auto simp: verify_def verify_with_def bindR_eq_Inr split: if_splits)

lemma index_parse_Inr: "index_parse from_json data = Inr index \<longleftrightarrow> from_json data = Some index \<and> ix_schema index \<le> SCHEMA"
  by (cases "from_json data") (auto simp: index_parse_def)

lemma check_update_evaluates:
  assumes "fst (check_update fetch lib from_json installed running os arch entries) = Inr (Available o')"
  obtains kind data sig index u where "installed = Some kind" and "fetch index_url = Inr data"
    and "fetch (index_url @ ''.sig'') = Inr sig" and "verify lib data (text_of sig) = Inr u"
    and "index_parse from_json data = Inr index" and "evaluate index running os arch kind = Inr (Available o')"
  using assms
  by (auto simp: check_update_def Let_def bindR_eq_Inr split: option.splits if_splits sum.splits update_error.splits)

text \<open>C10: an update is only ever offered from an index that the update key signed. Its schema is one
  this build reads, its version parses and is strictly newer than the running build, and the
  package comes from that index, is of the installation's operating system and format, and is
  built for its architecture, or is universal where the index has none for the architecture.\<close>

theorem offer_signed_and_newer:
  assumes "fst (check_update fetch lib from_json installed running os arch entries) = Inr (Available o')"
  shows "\<exists>data sig key s index latest run.
    fetch index_url = Inr data \<and> fetch (index_url @ ''.sig'') = Inr sig \<and>
    public_key_from lib UPDATE_KEY = Some key \<and>
    Option.bind (sig_decode lib (text_of sig)) (sig_from_slice lib) = Some s \<and> ed_verify lib key data s \<and>
    from_json data = Some index \<and> ix_schema index \<le> SCHEMA \<and>
    version_parse (ix_version index) = Some latest \<and> version_parse running = Some run \<and>
    version_cmp run latest = Less \<and> off_version o' = version_show latest \<and>
    installed = Some (off_kind o') \<and> off_package o' \<in> set (ix_packages index) \<and>
    pkg_os (off_package o') = os \<and> pkg_kind (off_package o') = off_kind o' \<and>
    (pkg_arch (off_package o') = arch \<or> (pkg_arch (off_package o') = ''universal'' \<and>
       (\<nexists>q. q \<in> set (ix_packages index) \<and> pkg_os q = os \<and> pkg_kind q = off_kind o' \<and> pkg_arch q = arch)))"
proof -
  obtain kind data sig index u where c: "installed = Some kind" "fetch index_url = Inr data"
    "fetch (index_url @ ''.sig'') = Inr sig" "verify lib data (text_of sig) = Inr u"
    "index_parse from_json data = Inr index" "evaluate index running os arch kind = Inr (Available o')"
    using assms by (rule check_update_evaluates)
  obtain key s where k: "public_key_from lib UPDATE_KEY = Some key"
    "Option.bind (sig_decode lib (text_of sig)) (sig_from_slice lib) = Some s" "ed_verify lib key data s"
    using c(4) by (rule verify_Inr)
  obtain latest run where e: "version_parse (ix_version index) = Some latest" "version_parse running = Some run"
    "version_cmp run latest = Less" "package_for index os arch kind = Some (off_package o')"
    "off_version o' = version_show latest" "off_kind o' = kind"
    using c(6) by (rule evaluate_Available)
  from e(4) have "off_package o' \<in> set (ix_packages index) \<and> pkg_os (off_package o') = os \<and>
    pkg_kind (off_package o') = kind \<and>
    (pkg_arch (off_package o') = arch \<or> (pkg_arch (off_package o') = ''universal'' \<and>
       (\<nexists>q. q \<in> set (ix_packages index) \<and> pkg_os q = os \<and> pkg_kind q = kind \<and> pkg_arch q = arch)))"
    by (rule package_for_Some)
  with c(1-3,5) k e show ?thesis unfolding index_parse_Inr by blast
qed

text \<open>The release used by the witnesses, and a signature scheme that accepts one signature.\<close>

definition sample_package :: package where
  "sample_package = \<lparr>pkg_os = ''macos'', pkg_arch = ''universal'', pkg_kind = Dmg,
     pkg_url = ''https://h/a.dmg'', pkg_size = 3, pkg_sha256 = ''AB''\<rparr>"

definition sample_index :: release_index where
  "sample_index = \<lparr>ix_schema = 1, ix_version = ''0.4.0'', ix_notes = [], ix_release_notes = [],
     ix_packages = [sample_package]\<rparr>"

definition sample_offer :: offer where
  "sample_offer = \<lparr>off_version = ''0.4.0'', off_notes = [], off_release_notes = [], off_kind = Dmg,
     off_package = sample_package\<rparr>"

definition sample_crypto :: "(unit, bytes) crypto" where
  "sample_crypto = \<lparr>b64_decode = (\<lambda>s. Some (map (\<lambda>c. of_nat (code c)) s)), key_from_slice = (\<lambda>_. Some ()),
     sig_from_slice = (\<lambda>b. Some b), ed_verify = (\<lambda>_ data s. data = s)\<rparr>"

lemma sample_evaluates: "evaluate sample_index ''0.4.0-rc1'' ''macos'' ''aarch64'' Dmg = Inr (Available sample_offer)"
  by code_simp

theorem offer_signed_and_newer_witness:
  "\<exists>latest run. version_parse ''0.4.0'' = Some latest \<and> version_parse ''0.4.0-rc1'' = Some run \<and>
     version_cmp run latest = Less"
proof -
  have "fst (check_update (\<lambda>_. Inr [0x41]) sample_crypto (\<lambda>_. Some sample_index) (Some Dmg)
     ''0.4.0-rc1'' ''macos'' ''aarch64'' []) = Inr (Available sample_offer)"
  proof -
    have "verify sample_crypto [0x41] (text_of [0x41]) = Inr ()" by code_simp
    moreover have "index_parse (\<lambda>_. Some sample_index) [0x41] = Inr sample_index" by code_simp
    moreover have "utf8_valid [0x41]" by code_simp
    ultimately show ?thesis using sample_evaluates by (simp add: check_update_def Let_def)
  qed
  from offer_signed_and_newer [OF this] show ?thesis by (auto simp: sample_index_def)
qed

lemma stale_download_dir:
  assumes "version_parse s = Some v"
  shows "is_stale_download (download_dir (version_show v)) w \<longleftrightarrow> version_le v w"
  using assms version_parse_show [OF version_parse_ok [OF assms]]
  by (simp add: is_stale_download_def download_dir_def)

text \<open>C26: the download folder of an offered release survives every clean-up the running build does,
  and is removed by the first clean-up of the build it installs.\<close>

theorem offer_download_kept:
  assumes "evaluate index running os arch kind = Inr (Available o')"
    and "download_dir (off_version o') \<in> set entries"
  shows "download_dir (off_version o') \<in> set (prune_downloads running entries) \<and>
    download_dir (off_version o') \<notin> set (prune_downloads (off_version o') entries)"
proof -
  obtain latest run where e: "version_parse (ix_version index) = Some latest" "version_parse running = Some run"
    "version_cmp run latest = Less" "off_version o' = version_show latest"
    using assms(1) by (rule evaluate_Available)
  have "version_parse (version_show latest) = Some latest"
    using e(1) by (intro version_parse_show version_parse_ok)
  moreover have "version_cmp latest run = Greater" using e(3) versions.swap_iff(3) by simp
  ultimately show ?thesis
    using assms(2) e stale_download_dir [OF e(1)] by (simp add: prune_downloads_def versions.refl)
qed

theorem offer_download_kept_witness:
  "download_dir ''0.4.0'' \<in> set (prune_downloads ''0.4.0-rc1'' [''update-0.4.0'', ''instance-1'']) \<and>
   download_dir ''0.4.0'' \<notin> set (prune_downloads ''0.4.0'' [''update-0.4.0'', ''instance-1''])"
proof -
  have "off_version sample_offer = ''0.4.0''" by (simp add: sample_offer_def)
  then show ?thesis
    using offer_download_kept [OF sample_evaluates, of "[''update-0.4.0'', ''instance-1'']"]
    by (simp add: download_dir_def)
qed

section \<open>Downloads\<close>

lemma rsplit_once_Some:
  "rsplit_once P s = Some (a, b) \<longleftrightarrow> (\<exists>x. s = a @ x # b \<and> P x \<and> (\<forall>c \<in> set b. \<not> P c))"
proof -
  have "rsplit_once P s = Some (a, b) \<longleftrightarrow> split_once P (rev s) = Some (rev b, rev a)"
    by (auto simp: rsplit_once_def)
  also have "\<dots> \<longleftrightarrow> (\<exists>x. rev s = rev b @ x # rev a \<and> P x \<and> (\<forall>c \<in> set (rev b). \<not> P c))"
    by (rule split_once_Some)
  also have "\<dots> \<longleftrightarrow> (\<exists>x. s = a @ x # b \<and> P x \<and> (\<forall>c \<in> set b. \<not> P c))"
    by (metis append.assoc append_Cons append_Nil rev.simps(2) rev_append rev_rev_ident set_rev)
  finally show ?thesis .
qed

lemma rsplit_once_None: "rsplit_once P s = None \<longleftrightarrow> (\<forall>c \<in> set s. \<not> P c)"
  by (simp add: rsplit_once_def split_once_None)

text \<open>The part file is never the destination itself.\<close>

lemma part_not_dest: "with_extension dest (pid @ ''.part'') \<noteq> dest"
proof (cases "rsplit_once (\<lambda>c. c = CHR ''.'') dest")
  case None
  then show ?thesis by (simp add: with_extension_def)
next
  case (Some ab)
  obtain a b where ab: "ab = (a, b)" by (cases ab)
  with Some have d: "dest = a @ CHR ''.'' # b" "CHR ''.'' \<notin> set b" by (auto simp: rsplit_once_Some)
  then show ?thesis using Some ab by (auto simp: with_extension_def)
qed

definition delivering :: "read_round \<Rightarrow> bool" where
  "delivering r = (\<not> fst r \<and> snd r \<noteq> None \<and> snd r \<noteq> Some [])"

text \<open>What the rounds deliver before the first that stops, and whether that one is the end.\<close>

definition received :: "read_round list \<Rightarrow> bytes" where
  "received rounds = concat (map (\<lambda>r. the (snd r)) (takeWhile delivering rounds))"

definition ended :: "read_round list \<Rightarrow> bool" where
  "ended rounds = (case dropWhile delivering rounds of [] \<Rightarrow> True | r # _ \<Rightarrow> r = (False, Some []))"

lemma save_loop_Inr:
  assumes "length got \<le> pkg_size package"
  shows "fst (save_loop package rounds got seen) = Inr body \<longleftrightarrow>
    ended rounds \<and> body = got @ received rounds \<and> length body \<le> pkg_size package"
  using assms
proof (induction package rounds got seen rule: save_loop.induct)
  case (1 package got seen)
  then show ?case by (auto simp: ended_def received_def)
next
  case (2 package cancel rd rounds got seen)
  show ?case
  proof (cases "delivering (cancel, rd)")
    case False
    then show ?thesis using 2(2) by (auto simp: delivering_def ended_def received_def split: option.splits)
  next
    case True
    then obtain buf where r: "\<not> cancel" "rd = Some buf" "buf \<noteq> []" by (auto simp: delivering_def)
    have e: "ended ((cancel, rd) # rounds) = ended rounds"
      "received ((cancel, rd) # rounds) = buf @ received rounds"
      using True r by (simp_all add: ended_def received_def)
    show ?thesis
    proof (cases "length got + length buf > pkg_size package")
      case True
      then show ?thesis using r unfolding e by simp
    next
      case False
      then show ?thesis using 2(1) [OF r refl] r unfolding e by simp
    qed
  qed
qed

lemma save_loop_progress:
  assumes "sorted (map fst seen)" and "\<forall>p \<in> set seen. fst p \<le> length got \<and> snd p = pkg_size package"
    and "length got \<le> pkg_size package"
  shows "sorted (map fst (snd (save_loop package rounds got seen))) \<and>
    (\<forall>p \<in> set (snd (save_loop package rounds got seen)). fst p \<le> pkg_size package \<and> snd p = pkg_size package)"
  using assms
proof (induction package rounds got seen rule: save_loop.induct)
  case (2 package cancel rd rounds got seen)
  have old: "\<forall>p \<in> set seen. fst p \<le> pkg_size package \<and> snd p = pkg_size package"
    using 2(3,4) by fastforce
  show ?case
  proof (cases "\<not> cancel \<and> rd \<noteq> None \<and> rd \<noteq> Some [] \<and> length got + length (the rd) \<le> pkg_size package")
    case True
    then obtain buf where buf: "rd = Some buf" by blast
    with True have r: "\<not> cancel" "rd = Some buf" "buf \<noteq> []"
      "\<not> length got + length buf > pkg_size package" by simp_all
    have "sorted (map fst (seen @ [(length got + length buf, pkg_size package)]))"
      using 2(2,3) by (fastforce simp: sorted_append)
    then show ?thesis using 2(1) [OF r(1-3) refl r(4)] 2(3) r by fastforce
  next
    case False
    then show ?thesis using 2(2) old by (auto simp: Let_def split: option.splits)
  qed
qed fastforce



end
