(* ===== verification/KvFile.thy ===== *)
theory KvFile
  imports RustText OrderedMap "HOL-Library.Char_ord"
begin

text \<open>
  The \<open>key=value\<close> files of \<open>crates/cdj3k-emu-storage/src/settings/kv.rs\<close>. A file is absent,
  unreadable (a permission error, or bytes that are not UTF-8) or a text. A write is atomic: it
  replaces the file by the new text, or fails and leaves it; which of the two happens is the
  argument \<open>disk_ok\<close>. The main lemma says that reading a written map gives back its registered
  keys, which the settings structs rely on.
\<close>

datatype settings_file = NoFile | Unreadable | Text string

datatype kv_error = ReadFailed | WriteFailed | BadSerial string

type_synonym kv_map = "(string, string) btree"

definition SLOT_KEYS :: "string list" where
  "SLOT_KEYS =
     [''alc_enabled'', ''audio_device_uid'', ''audio_enabled'', ''dev_mode'', ''firmware_release'',
      ''fs'', ''haptic_enabled'', ''jog_adjust'', ''mac'', ''model'', ''mods_enabled'', ''net_iface'',
      ''pc_link_enabled'', ''screen_extended'', ''soc_serial'', ''usb_physical_bsd'',
      ''usb_virtual_path'', ''vinyl_speed'']"

definition APP_KEYS :: "string list" where
  "APP_KEYS =
     [''update_auto_check'', ''update_auto_install'', ''update_remind_after'', ''update_skip_version'']"

section \<open>Reading and writing\<close>

definition kv_line :: "string \<Rightarrow> (string \<times> string) option" where
  "kv_line line =
     map_option (\<lambda>(k, v). (trim k, trim v)) (split_once (\<lambda>c. c = CHR ''='') line)"

definition parse_kv :: "string \<Rightarrow> kv_map" where
  "parse_kv s = fold (\<lambda>(k, v) m. bt_insert k v m) (List.map_filter kv_line (lines s)) []"

fun try_read_kv :: "settings_file \<Rightarrow> kv_error + kv_map" where
  "try_read_kv NoFile = Inr []"
| "try_read_kv Unreadable = Inl ReadFailed"
| "try_read_kv (Text s) = Inr (parse_kv s)"

definition read_kv :: "settings_file \<Rightarrow> kv_map" where
  "read_kv f = (case try_read_kv f of Inl _ \<Rightarrow> [] | Inr m \<Rightarrow> m)"

definition flag :: "kv_map \<Rightarrow> string \<Rightarrow> bool \<Rightarrow> bool" where
  "flag m key dflt =
     (case bt_get m key of None \<Rightarrow> dflt | Some v \<Rightarrow> v = ''1'' \<or> eq_ignore_ascii_case v ''true'')"

definition flag_value :: "bool \<Rightarrow> string" where
  "flag_value on = (if on then ''1'' else ''0'')"

definition number :: "kv_map \<Rightarrow> string \<Rightarrow> nat" where
  "number m key = (case Option.bind (bt_get m key) (parse_uint 32) of None \<Rightarrow> 0 | Some n \<Rightarrow> n)"

definition text_value :: "kv_map \<Rightarrow> string \<Rightarrow> string option" where
  "text_value m key = Option.bind (bt_get m key) (\<lambda>v. if v \<noteq> [] then Some v else None)"

definition kv_text :: "(string \<times> string) list \<Rightarrow> string" where
  "kv_text pairs = concat (map (\<lambda>(k, v). k @ ''='' @ v @ [CHR ''\<newline>'']) pairs)"

definition write_kv :: "bool \<Rightarrow> kv_map \<Rightarrow> string list \<Rightarrow> settings_file \<Rightarrow> (kv_error + unit) \<times> settings_file" where
  "write_kv disk_ok m known f =
     (if disk_ok then (Inr (), Text (kv_text (filter (\<lambda>(k, _). k \<in> set known) m)))
      else (Inl WriteFailed, f))"

definition prune_app_file :: "bool \<Rightarrow> settings_file \<Rightarrow> settings_file" where
  "prune_app_file disk_ok f =
     (case try_read_kv f of
        Inl e \<Rightarrow> f
      | Inr m \<Rightarrow>
          if list_all (\<lambda>(k, _). k \<in> set APP_KEYS) m then f
          else snd (write_kv disk_ok m APP_KEYS f))"

section \<open>Maps a file can hold\<close>

definition key_ok :: "string \<Rightarrow> bool" where
  "key_ok k = (trim k = k \<and> CHR ''='' \<notin> set k \<and> CHR ''\<newline>'' \<notin> set k)"

definition value_ok :: "string \<Rightarrow> bool" where
  "value_ok v = (trim v = v \<and> CHR ''\<newline>'' \<notin> set v)"

definition kv_ok :: "kv_map \<Rightarrow> bool" where
  "kv_ok m = (bt_sorted m \<and> list_all (\<lambda>(k, v). key_ok k \<and> value_ok v) m)"

lemma kv_ok_insert: "kv_ok m \<Longrightarrow> key_ok k \<Longrightarrow> value_ok v \<Longrightarrow> kv_ok (bt_insert k v m)"
proof -
  have "list_all P m \<Longrightarrow> P (k, v) \<Longrightarrow> list_all P (bt_insert k v m)" for P
    by (induction k v m rule: bt_insert.induct) auto
  then show "kv_ok m \<Longrightarrow> key_ok k \<Longrightarrow> value_ok v \<Longrightarrow> kv_ok (bt_insert k v m)"
    by (simp add: kv_ok_def bt_sorted_insert)
qed

lemma kv_ok_get_insert: "kv_ok m \<Longrightarrow> bt_get (bt_insert k v m) = (bt_get m)(k \<mapsto> v)"
  by (simp add: kv_ok_def bt_get_insert)

lemma kv_ok_filter: "kv_ok m \<Longrightarrow> kv_ok (filter P m)"
proof -
  have "sorted_wrt (<) (map fst m) \<Longrightarrow> sorted_wrt (<) (map fst (filter P m))"
    by (induction m) auto
  then show "kv_ok m \<Longrightarrow> kv_ok (filter P m)"
    by (auto simp: kv_ok_def bt_sorted_def list_all_iff)
qed

lemma bt_get_filter: "kv_ok m \<Longrightarrow> bt_get (filter (\<lambda>(k, _). k \<in> S) m) k = (if k \<in> S then bt_get m k else None)"
  unfolding bt_get_def by (induction m) (auto simp: kv_ok_def bt_sorted_def)

text \<open>What trimming leaves of a line.\<close>

lemma set_trim: "c \<in> set (trim s) \<Longrightarrow> c \<in> set s"
  unfolding trim_def trim_by_def trim_start_by_def trim_end_by_def
  by (auto dest!: set_dropWhileD)

lemma lines_no_newline: "l \<in> set (lines s) \<Longrightarrow> CHR ''\<newline>'' \<notin> set l"
proof -
  assume l: "l \<in> set (lines s)"
  let ?ps = "split_by (\<lambda>c. c = CHR ''\<newline>'') s"
  have p: "p \<in> set ?ps \<Longrightarrow> CHR ''\<newline>'' \<notin> set p" for p using set_split_by by fastforce
  have sub: "set (end_line cr p) \<subseteq> set p" for cr :: char and p
    by (auto simp: end_line_def strip_suffix_Some split: option.splits)
  from l have "\<exists>p \<in> set ?ps. l = p \<or> l = end_line (CHR 0x0D) p"
    unfolding lines_def lines_by_def Let_def using last_in_set [of ?ps]
    by (auto split: if_splits dest: in_set_butlastD)
  then show ?thesis using p sub by blast
qed

lemma kv_line_ok: "kv_line l = Some (k, v) \<Longrightarrow> CHR ''\<newline>'' \<notin> set l \<Longrightarrow> key_ok k \<and> value_ok v"
proof -
  assume "kv_line l = Some (k, v)" and nl: "CHR ''\<newline>'' \<notin> set l"
  then obtain a b where s: "split_once (\<lambda>c. c = CHR ''='') l = Some (a, b)" and kv: "k = trim a" "v = trim b"
    by (auto simp: kv_line_def)
  from s have l: "l = a @ CHR ''='' # b" "\<forall>c \<in> set a. c \<noteq> CHR ''=''" by (simp_all add: split_once_Some)
  have "CHR ''='' \<notin> set k" using l(2) set_trim unfolding kv by blast
  moreover have "CHR ''\<newline>'' \<notin> set k" "CHR ''\<newline>'' \<notin> set v"
    using nl set_trim unfolding kv l(1) by auto
  moreover have "trim k = k" "trim v = v" by (simp_all add: kv)
  ultimately show ?thesis by (simp add: key_ok_def value_ok_def)
qed

lemma kv_ok_fold:
  "kv_ok m \<Longrightarrow> \<forall>(k, v) \<in> set kvs. key_ok k \<and> value_ok v \<Longrightarrow> kv_ok (fold (\<lambda>(k, v) m. bt_insert k v m) kvs m)"
  by (induction kvs arbitrary: m) (auto simp: kv_ok_insert)

lemma kv_ok_parse: "kv_ok (parse_kv s)"
  unfolding parse_kv_def
proof (rule kv_ok_fold)
  show "kv_ok []" by (simp add: kv_ok_def bt_sorted_def)
  show "\<forall>(k, v) \<in> set (List.map_filter kv_line (lines s)). key_ok k \<and> value_ok v"
    using kv_line_ok lines_no_newline by (fastforce simp: List.map_filter_def)
qed

lemma kv_ok_read: "try_read_kv f = Inr m \<Longrightarrow> kv_ok m"
proof (cases f)
  case NoFile
  then show "try_read_kv f = Inr m \<Longrightarrow> kv_ok m" by (simp add: kv_ok_def bt_sorted_def)
qed (auto simp: kv_ok_parse)

section \<open>Reading back\<close>

lemma split_terminated:
  "\<forall>l \<in> set ls. x \<notin> set l \<Longrightarrow> split_by (\<lambda>c. c = x) (concat (map (\<lambda>l. l @ [x]) ls)) = ls @ [[]]"
proof (induction ls)
  case (Cons l ls)
  then have "\<forall>c \<in> set l. \<not> c = x" by auto
  with Cons show ?case by (simp add: split_by_append)
qed simp

lemma lines_terminated:
  "\<forall>l \<in> set ls. CHR ''\<newline>'' \<notin> set l \<Longrightarrow>
   lines (concat (map (\<lambda>l. l @ [CHR ''\<newline>'']) ls)) = map (end_line (CHR 0x0D)) ls"
  by (simp add: lines_def lines_by_def split_terminated)

lemma end_line_id: "l \<noteq> [] \<Longrightarrow> last l \<noteq> cr \<Longrightarrow> end_line cr l = l"
  by (auto simp: end_line_def strip_suffix_Some split: option.splits)

lemma kv_line_text:
  assumes "key_ok k" and "value_ok v"
  shows "kv_line (end_line (CHR 0x0D) (k @ ''='' @ v)) = Some (k, v)"
proof -
  have "last (k @ ''='' @ v) \<noteq> CHR 0x0D"
  proof (cases "v = []")
    case False
    then have "\<not> is_ws (last v)" using assms(2) trim_by_ends [of is_ws v] by (simp add: value_ok_def trim_def)
    moreover have "is_ws (CHR 0x0D)" by code_simp
    ultimately show ?thesis using False by auto
  qed simp
  then have "end_line (CHR 0x0D) (k @ ''='' @ v) = k @ ''='' @ v" by (intro end_line_id) simp_all
  moreover have "split_once (\<lambda>c. c = CHR ''='') (k @ CHR ''='' # v) = Some (k, v)"
    using assms(1) by (intro split_once_append) (auto simp: key_ok_def)
  ultimately show ?thesis using assms by (simp add: kv_line_def key_ok_def value_ok_def)
qed

lemma bt_insert_last: "\<forall>(l, w) \<in> set m. l < k \<Longrightarrow> bt_insert k v m = m @ [(k, v)]"
  by (induction k v m rule: bt_insert.induct) auto

lemma fold_insert_sorted:
  "bt_sorted (m @ kvs) \<Longrightarrow> fold (\<lambda>(k, v) m. bt_insert k v m) kvs m = m @ kvs"
proof (induction kvs arbitrary: m)
  case (Cons kv kvs)
  obtain k v where kv: "kv = (k, v)" by (cases kv)
  have "\<forall>(l, w) \<in> set m. l < k" using Cons.prems by (auto simp: kv bt_sorted_def sorted_wrt_append)
  then have "bt_insert k v m = m @ [(k, v)]" by (rule bt_insert_last)
  then show ?case using Cons.IH [of "m @ [kv]"] Cons.prems by (simp add: kv)
qed simp

lemma map_filter_Some: "(\<And>x. x \<in> set xs \<Longrightarrow> f (g x) = Some x) \<Longrightarrow> List.map_filter f (map g xs) = xs"
  by (induction xs) (simp_all add: List.map_filter_simps)

lemma parse_kv_text:
  assumes "kv_ok m"
  shows "parse_kv (kv_text m) = m"
proof -
  have ok: "key_ok k \<and> value_ok v" if "(k, v) \<in> set m" for k v
    using assms that by (auto simp: kv_ok_def list_all_iff)
  let ?line = "\<lambda>(k, v). k @ ''='' @ v"
  have "kv_text m = concat (map (\<lambda>l. l @ [CHR ''\<newline>'']) (map ?line m))"
    by (simp add: kv_text_def comp_def case_prod_unfold)
  moreover have "\<forall>l \<in> set (map ?line m). CHR ''\<newline>'' \<notin> set l"
    using ok by (fastforce simp: key_ok_def value_ok_def)
  ultimately have "lines (kv_text m) = map (end_line (CHR 0x0D)) (map ?line m)"
    by (simp only: lines_terminated)
  then have "lines (kv_text m) = map (\<lambda>kv. end_line (CHR 0x0D) (?line kv)) m"
    by (simp only: map_map comp_def)
  moreover have "List.map_filter kv_line (map (\<lambda>kv. end_line (CHR 0x0D) (?line kv)) m) = m"
  proof (rule map_filter_Some)
    fix x assume x: "x \<in> set m"
    obtain k v where "x = (k, v)" by (cases x)
    with x ok show "kv_line (end_line (CHR 0x0D) (?line x)) = Some x" using kv_line_text by simp
  qed
  ultimately have "parse_kv (kv_text m) = fold (\<lambda>(k, v) m. bt_insert k v m) m []"
    by (simp add: parse_kv_def)
  then show ?thesis using fold_insert_sorted [of "[]" m] assms by (simp add: kv_ok_def)
qed

lemma kv_read_written:
  assumes "kv_ok m"
  shows "try_read_kv (snd (write_kv True m known f)) = Inr (filter (\<lambda>(k, _). k \<in> set known) m)"
  using parse_kv_text [OF kv_ok_filter [OF assms]] by (simp add: write_kv_def)

end
