(* ===== verification/Settings.thy ===== *)
theory Settings
  imports KvFile FloatText PanelModel
begin

text \<open>
  The settings structs of \<open>crates/cdj3k-emu-storage/src/settings\<close>: the slot's identity and menu
  state (\<open>instance.rs\<close>, \<open>identity.rs\<close>), the deck's knobs (\<open>panel.rs\<close>) and the updater's choices
  (\<open>app.rs\<close>). Each operation takes the file it works on and returns the file it leaves. Random
  bytes of a v4 UUID are an argument. A path is its text. All writers hold one lock, so a run
  of the program is a sequence of these operations.
\<close>

section \<open>Identity\<close>

definition is_hexdigit :: "char \<Rightarrow> bool" where
  "is_hexdigit c = (is_digit c \<or> (let n = code c in (97 \<le> n \<and> n \<le> 102) \<or> (65 \<le> n \<and> n \<le> 70)))"

definition is_valid_mac :: "string \<Rightarrow> bool" where
  "is_valid_mac mac =
     (let parts = split_by (\<lambda>c. c = CHR '':'') mac
      in list_all (\<lambda>p. str_len p = 2 \<and> list_all is_hexdigit p) parts \<and> length parts = 6)"

definition is_valid_soc_serial :: "string \<Rightarrow> bool" where
  "is_valid_soc_serial s =
     (str_len s = 16 \<and> list_all (\<lambda>c. is_digit c \<or> (let n = code c in 97 \<le> n \<and> n \<le> 102)) s)"

text \<open>\<open>{:02x}\<close> of a byte.\<close>

definition hex_lower :: "nat \<Rightarrow> char" where
  "hex_lower d = char_of (if d < 10 then 48 + d else 87 + d)"

definition hex02 :: "u8 \<Rightarrow> string" where
  "hex02 b = [hex_lower (unat b div 16), hex_lower (unat b mod 16)]"

definition generate_soc_serial :: "bytes \<Rightarrow> string" where
  "generate_soc_serial uuid = concat (map hex02 (take 8 uuid))"

definition generate_mac :: "bytes \<Rightarrow> string" where
  "generate_mac uuid =
     (let m0 = (uuid ! 0 AND 0xFE) OR 0x02
      in join '':'' (map hex02 [m0, uuid ! 1, uuid ! 2, uuid ! 3, uuid ! 4, uuid ! 5]))"

section \<open>A slot's settings\<close>

record instance_settings =
  s_mac :: string
  s_soc_serial :: "string option"
  s_audio_enabled :: bool
  s_audio_device_uid :: "string option"
  s_alc_enabled :: bool
  s_haptic_enabled :: bool
  s_pc_link_enabled :: bool
  s_model :: "model option"
  s_firmware_release :: "string option"
  s_fs :: nat
  s_mods_enabled :: bool
  s_dev_mode :: bool
  s_net_iface :: "string option"
  s_usb_virtual_path :: "string option"
  s_usb_physical_bsd :: "string option"

definition kept_or_minted ::
  "kv_map \<Rightarrow> string \<Rightarrow> (string \<Rightarrow> bool) \<Rightarrow> string \<Rightarrow> (string \<times> bool) \<times> kv_map" where
  "kept_or_minted m key valid fresh =
     (case bt_get m key of
        Some v \<Rightarrow> if valid v then ((v, False), m) else ((fresh, True), bt_insert key fresh m)
      | None \<Rightarrow> ((fresh, True), bt_insert key fresh m))"

definition some_valid :: "(string \<Rightarrow> bool) \<Rightarrow> string option \<Rightarrow> string option" where
  "some_valid valid v = Option.bind v (\<lambda>v. if valid v then Some v else None)"

definition from_map :: "bytes \<Rightarrow> kv_map \<Rightarrow> (instance_settings \<times> bool) \<times> kv_map" where
  "from_map uuid m =
     (let ((mac, minted), m) = kept_or_minted m ''mac'' is_valid_mac (generate_mac uuid)
      in ((\<lparr>s_mac = mac,
            s_soc_serial = some_valid is_valid_soc_serial (bt_get m ''soc_serial''),
            s_audio_enabled = flag m ''audio_enabled'' False,
            s_audio_device_uid = text_value m ''audio_device_uid'',
            s_alc_enabled = flag m ''alc_enabled'' True,
            s_haptic_enabled = flag m ''haptic_enabled'' True,
            s_pc_link_enabled = flag m ''pc_link_enabled'' False,
            s_model = Option.bind (bt_get m ''model'') model_parse,
            s_firmware_release = text_value m ''firmware_release'',
            s_fs = number m ''fs'',
            s_mods_enabled = flag m ''mods_enabled'' True,
            s_dev_mode = flag m ''dev_mode'' False,
            s_net_iface = text_value m ''net_iface'',
            s_usb_virtual_path = text_value m ''usb_virtual_path'',
            s_usb_physical_bsd = text_value m ''usb_physical_bsd''\<rparr>, minted), m))"

definition load_or_init_unlocked ::
  "bool \<Rightarrow> bytes \<Rightarrow> settings_file \<Rightarrow> (kv_error + instance_settings) \<times> settings_file" where
  "load_or_init_unlocked disk_ok uuid f =
     (case try_read_kv f of
        Inl e \<Rightarrow> (Inl e, f)
      | Inr m \<Rightarrow>
          let ((settings, minted), m) = from_map uuid m
          in (Inr settings, if minted then snd (write_kv disk_ok m SLOT_KEYS f) else f))"

definition load_or_init :: "bool \<Rightarrow> bytes \<Rightarrow> settings_file \<Rightarrow> instance_settings \<times> settings_file" where
  "load_or_init disk_ok uuid f =
     (case load_or_init_unlocked disk_ok uuid f of
        (Inr s, f) \<Rightarrow> (s, f)
      | (Inl e, f) \<Rightarrow> (fst (fst (from_map uuid [])), f))"

text \<open>The pairs \<open>save_unlocked\<close> inserts, in its order; an absent serial is left out.\<close>

definition saved_pairs :: "instance_settings \<Rightarrow> (string \<times> string) list" where
  "saved_pairs s =
     [(''mac'', s_mac s)] @
     (case s_soc_serial s of Some serial \<Rightarrow> [(''soc_serial'', serial)] | None \<Rightarrow> []) @
     [(''audio_enabled'', flag_value (s_audio_enabled s)),
      (''audio_device_uid'', case s_audio_device_uid s of Some v \<Rightarrow> v | None \<Rightarrow> []),
      (''alc_enabled'', flag_value (s_alc_enabled s)),
      (''haptic_enabled'', flag_value (s_haptic_enabled s)),
      (''pc_link_enabled'', flag_value (s_pc_link_enabled s)),
      (''model'', case s_model s of Some m \<Rightarrow> slug (spec m) | None \<Rightarrow> []),
      (''firmware_release'', case s_firmware_release s of Some v \<Rightarrow> v | None \<Rightarrow> []),
      (''fs'', show_nat (s_fs s)),
      (''mods_enabled'', flag_value (s_mods_enabled s)),
      (''dev_mode'', flag_value (s_dev_mode s)),
      (''net_iface'', case s_net_iface s of Some v \<Rightarrow> v | None \<Rightarrow> []),
      (''usb_virtual_path'', case s_usb_virtual_path s of Some v \<Rightarrow> v | None \<Rightarrow> []),
      (''usb_physical_bsd'', case s_usb_physical_bsd s of Some v \<Rightarrow> v | None \<Rightarrow> [])]"

definition insert_pairs :: "(string \<times> string) list \<Rightarrow> kv_map \<Rightarrow> kv_map" where
  "insert_pairs kvs m = fold (\<lambda>(k, v) m. bt_insert k v m) kvs m"

definition save_unlocked ::
  "bool \<Rightarrow> instance_settings \<Rightarrow> settings_file \<Rightarrow> (kv_error + unit) \<times> settings_file" where
  "save_unlocked disk_ok s f =
     (case try_read_kv f of
        Inl e \<Rightarrow> (Inl e, f)
      | Inr m \<Rightarrow> write_kv disk_ok (insert_pairs (saved_pairs s) m) SLOT_KEYS f)"

text \<open>\<open>update\<close> writes twice when a MAC is minted; \<open>init_ok\<close> and \<open>disk_ok\<close> are the two outcomes.\<close>

definition settings_update ::
  "bool \<Rightarrow> bool \<Rightarrow> bytes \<Rightarrow> (instance_settings \<Rightarrow> instance_settings) \<Rightarrow> settings_file \<Rightarrow>
   (kv_error + unit) \<times> settings_file" where
  "settings_update init_ok disk_ok uuid mutate f =
     (case load_or_init_unlocked init_ok uuid f of
        (Inl e, f) \<Rightarrow> (Inl e, f)
      | (Inr s, f) \<Rightarrow> save_unlocked disk_ok (mutate s) f)"

datatype problem = CannotRead | NoModel | NoValidSerial

definition install_problem :: "settings_file \<Rightarrow> problem option" where
  "install_problem f =
     (case try_read_kv f of
        Inl e \<Rightarrow> Some CannotRead
      | Inr m \<Rightarrow>
          if Option.bind (bt_get m ''model'') model_parse = None then Some NoModel
          else if some_valid is_valid_soc_serial (bt_get m ''soc_serial'') = None then Some NoValidSerial
          else None)"

text \<open>The settings file, and the file it is set aside to.\<close>

definition set_aside_unreadable :: "settings_file \<times> settings_file \<Rightarrow> settings_file \<times> settings_file" where
  "set_aside_unreadable fs =
     (case try_read_kv (fst fs) of Inl e \<Rightarrow> (NoFile, fst fs) | Inr m \<Rightarrow> fs)"

definition saved_model :: "settings_file \<Rightarrow> model option" where
  "saved_model f = Option.bind (bt_get (read_kv f) ''model'') model_parse"

definition saved_firmware_release :: "settings_file \<Rightarrow> string option" where
  "saved_firmware_release f = text_value (read_kv f) ''firmware_release''"

definition saved_fs :: "settings_file \<Rightarrow> nat" where
  "saved_fs f = number (read_kv f) ''fs''"

definition saved_mods_enabled :: "settings_file \<Rightarrow> bool" where
  "saved_mods_enabled f = flag (read_kv f) ''mods_enabled'' True"

definition parse_soc_serial :: "string \<Rightarrow> kv_error + string" where
  "parse_soc_serial serial =
     (let serial = to_ascii_lowercase (trim serial)
      in if is_valid_soc_serial serial then Inr serial else Inl (BadSerial serial))"

definition set_soc_serial ::
  "bool \<Rightarrow> bool \<Rightarrow> bytes \<Rightarrow> string \<Rightarrow> settings_file \<Rightarrow> (kv_error + string) \<times> settings_file" where
  "set_soc_serial init_ok disk_ok uuid serial f =
     (case parse_soc_serial serial of
        Inl e \<Rightarrow> (Inl e, f)
      | Inr serial \<Rightarrow>
          (case settings_update init_ok disk_ok uuid (\<lambda>s. s\<lparr>s_soc_serial := Some serial\<rparr>) f of
             (Inl e, f) \<Rightarrow> (Inl e, f)
           | (Inr _, f) \<Rightarrow> (Inr serial, f)))"

section \<open>The deck's knobs\<close>

record panel_settings =
  p_screen_extended :: bool
  p_jog_adjust :: f32
  p_vinyl_speed :: nat

definition panel_default :: panel_settings where
  "panel_default = \<lparr>p_screen_extended = False, p_jog_adjust = 1 / 2, p_vinyl_speed = 0\<rparr>"

definition jog_adjust_of :: "string option \<Rightarrow> f32" where
  "jog_adjust_of v =
     (case Option.bind v parse_f32 of
        Some (Fin x) \<Rightarrow> clamp01 x
      | _ \<Rightarrow> p_jog_adjust panel_default)"

definition panel_from :: "kv_map \<Rightarrow> panel_settings" where
  "panel_from m =
     \<lparr>p_screen_extended = flag m ''screen_extended'' (p_screen_extended panel_default),
      p_jog_adjust = jog_adjust_of (bt_get m ''jog_adjust''),
      p_vinyl_speed = (case Option.bind (bt_get m ''vinyl_speed'') (parse_uint 8) of
                         Some n \<Rightarrow> n | None \<Rightarrow> p_vinyl_speed panel_default)\<rparr>"

definition panel_load :: "settings_file \<Rightarrow> panel_settings" where
  "panel_load f = panel_from (read_kv f)"

definition panel_pairs :: "panel_settings \<Rightarrow> (string \<times> string) list" where
  "panel_pairs p =
     [(''screen_extended'', flag_value (p_screen_extended p)),
      (''jog_adjust'', show_f32 (p_jog_adjust p)),
      (''vinyl_speed'', show_nat (p_vinyl_speed p))]"

definition panel_save ::
  "bool \<Rightarrow> panel_settings \<Rightarrow> settings_file \<Rightarrow> (kv_error + unit) \<times> settings_file" where
  "panel_save disk_ok p f =
     (case try_read_kv f of
        Inl e \<Rightarrow> (Inl e, f)
      | Inr m \<Rightarrow> write_kv disk_ok (insert_pairs (panel_pairs p) m) SLOT_KEYS f)"

section \<open>The app's settings\<close>

record app_settings =
  a_auto_check :: bool
  a_skip_version :: "string option"
  a_remind_after :: nat
  a_auto_install :: bool

definition app_default :: app_settings where
  "app_default =
     \<lparr>a_auto_check = True, a_skip_version = None, a_remind_after = 0, a_auto_install = False\<rparr>"

definition app_from :: "kv_map \<Rightarrow> app_settings" where
  "app_from m =
     \<lparr>a_auto_check = flag m ''update_auto_check'' (a_auto_check app_default),
      a_skip_version = text_value m ''update_skip_version'',
      a_remind_after = (case Option.bind (bt_get m ''update_remind_after'') (parse_uint 64) of
                          Some n \<Rightarrow> n | None \<Rightarrow> a_remind_after app_default),
      a_auto_install = flag m ''update_auto_install'' (a_auto_install app_default)\<rparr>"

definition app_load :: "settings_file \<Rightarrow> app_settings" where
  "app_load f = app_from (read_kv f)"

definition app_pairs :: "app_settings \<Rightarrow> (string \<times> string) list" where
  "app_pairs s =
     [(''update_auto_check'', flag_value (a_auto_check s)),
      (''update_skip_version'', case a_skip_version s of Some v \<Rightarrow> v | None \<Rightarrow> []),
      (''update_remind_after'', show_nat (a_remind_after s)),
      (''update_auto_install'', flag_value (a_auto_install s))]"

definition app_update ::
  "bool \<Rightarrow> (app_settings \<Rightarrow> app_settings) \<Rightarrow> settings_file \<Rightarrow> (kv_error + unit) \<times> settings_file" where
  "app_update disk_ok mutate f =
     (case try_read_kv f of
        Inl e \<Rightarrow> (Inl e, f)
      | Inr m \<Rightarrow> write_kv disk_ok (insert_pairs (app_pairs (mutate (app_load f))) m) APP_KEYS f)"

section \<open>The contract of a settings struct\<close>

text \<open>
  A struct that lives in a \<open>key=value\<close> file: the pairs it writes, how it is read from a map,
  the registry of its file, the keys it owns and the values that survive the text format.
\<close>

locale settings_struct =
  fixes pairs :: "'s \<Rightarrow> (string \<times> string) list"
    and load :: "kv_map \<Rightarrow> 's"
    and known :: "string list"
    and own :: "string list"
    and storable :: "'s \<Rightarrow> bool"
    and valid :: "'s \<Rightarrow> bool"
  assumes own_known: "set own \<subseteq> set known"
    and own_ok: "k \<in> set own \<Longrightarrow> key_ok k"
    and pairs_own: "(k, v) \<in> set (pairs s) \<Longrightarrow> k \<in> set own"
    and pairs_distinct: "distinct (map fst (pairs s))"
    and valid_storable: "valid s \<Longrightarrow> storable s"
    and pairs_value: "storable s \<Longrightarrow> (k, v) \<in> set (pairs s) \<Longrightarrow> value_ok v"
    and load_pairs: "valid s \<Longrightarrow> (\<And>k v. (k, v) \<in> set (pairs s) \<Longrightarrow> bt_get m k = Some v) \<Longrightarrow> load m = s"
    and load_own: "(\<And>k. k \<in> set own \<Longrightarrow> bt_get m k = bt_get n k) \<Longrightarrow> load m = load n"
begin

definition saved :: "'s \<Rightarrow> kv_map \<Rightarrow> kv_map" where
  "saved s m = filter (\<lambda>(k, _). k \<in> set known) (insert_pairs (pairs s) m)"

lemma kv_ok_insert_pairs:
  assumes "storable s" and "kv_ok m"
  shows "kv_ok (insert_pairs (pairs s) m)"
  unfolding insert_pairs_def using assms(2)
  by (rule kv_ok_fold) (use pairs_value [OF assms(1)] pairs_own own_ok in auto)

lemma read_saved:
  assumes "storable s" and "kv_ok m"
  shows "try_read_kv (snd (write_kv True (insert_pairs (pairs s) m) known f)) = Inr (saved s m)"
  unfolding saved_def by (rule kv_read_written) (rule kv_ok_insert_pairs [OF assms])

lemma get_insert_pairs:
  assumes "kv_ok m" and "\<forall>(k, v) \<in> set kvs. key_ok k \<and> value_ok v"
  shows "bt_get (insert_pairs kvs m) k = (case map_of (rev kvs) k of Some v \<Rightarrow> Some v | None \<Rightarrow> bt_get m k)"
  using assms
proof (induction kvs arbitrary: m)
  case (Cons kv kvs)
  obtain l w where kv: "kv = (l, w)" by (cases kv)
  have "kv_ok (bt_insert l w m)" using Cons.prems by (simp add: kv kv_ok_insert)
  then show ?case
    using Cons.IH [of "bt_insert l w m"] Cons.prems
    by (auto simp: insert_pairs_def kv kv_ok_get_insert map_add_def split: option.splits)
qed (simp add: insert_pairs_def)

lemma get_saved:
  assumes "storable s" and "kv_ok m"
  shows "bt_get (saved s m) k =
    (if k \<in> set known then (case map_of (rev (pairs s)) k of Some v \<Rightarrow> Some v | None \<Rightarrow> bt_get m k) else None)"
proof -
  have "\<forall>(k, v) \<in> set (pairs s). key_ok k \<and> value_ok v"
    using pairs_value [OF assms(1)] pairs_own own_ok by auto
  then show ?thesis
    unfolding saved_def by (simp add: bt_get_filter kv_ok_insert_pairs assms get_insert_pairs)
qed

text \<open>The struct reads back what it saved, and the keys of others keep their values.\<close>

lemma load_saved:
  assumes "valid s" and "kv_ok m"
  shows "load (saved s m) = s"
proof (rule load_pairs [OF assms(1)])
  fix k v assume kv: "(k, v) \<in> set (pairs s)"
  then have "map_of (rev (pairs s)) k = Some v"
    using pairs_distinct [of s] by (simp add: rev_map [symmetric])
  moreover have "k \<in> set known" using kv pairs_own own_known by blast
  ultimately show "bt_get (saved s m) k = Some v"
    by (simp add: get_saved [OF valid_storable [OF assms(1)] assms(2)])
qed

lemma saved_other:
  assumes "storable s" and "kv_ok m" and "k \<in> set known" and "k \<notin> set own"
  shows "bt_get (saved s m) k = bt_get m k"
proof -
  have "k \<notin> fst ` set (rev (pairs s))" using assms(4) pairs_own by force
  then have "map_of (rev (pairs s)) k = None" by (simp add: map_of_eq_None_iff)
  then show ?thesis by (simp add: get_saved [OF assms(1,2)] assms(3))
qed

text \<open>Dropping the keys the registry does not list changes nothing the struct reads.\<close>

lemma load_registered:
  assumes "kv_ok m"
  shows "load (filter (\<lambda>(k, _). k \<in> set known) m) = load m"
  using own_known by (intro load_own) (auto simp: bt_get_filter [OF assms])

end

text \<open>Two structs that own disjoint keys of one file.\<close>

locale shared_file =
  A: settings_struct pairs_a load_a known own_a storable_a valid_a +
  B: settings_struct pairs_b load_b known own_b storable_b valid_b
  for pairs_a :: "'a \<Rightarrow> (string \<times> string) list" and load_a known own_a storable_a valid_a
    and pairs_b :: "'b \<Rightarrow> (string \<times> string) list" and load_b own_b storable_b valid_b +
  assumes disjoint: "set own_a \<inter> set own_b = {}"
begin

lemma a_keeps_b: "storable_a s \<Longrightarrow> kv_ok m \<Longrightarrow> load_b (A.saved s m) = load_b m"
  using disjoint B.own_known by (intro B.load_own A.saved_other) auto

lemma b_keeps_a: "storable_b s \<Longrightarrow> kv_ok m \<Longrightarrow> load_a (B.saved s m) = load_a m"
  using disjoint A.own_known by (intro A.load_own B.saved_other) auto

end

section \<open>Values that survive the text format\<close>

lemma value_ok_no_ws: "\<forall>c \<in> set v. \<not> is_ws c \<Longrightarrow> value_ok v"
proof -
  assume v: "\<forall>c \<in> set v. \<not> is_ws c"
  have "is_ws (CHR ''\<newline>'')" by code_simp
  with v have "CHR ''\<newline>'' \<notin> set v" by blast
  moreover have "trim v = v" unfolding trim_def using v by (intro trim_by_id) (auto simp: hd_in_set last_in_set)
  ultimately show ?thesis by (simp add: value_ok_def)
qed

lemma digit_not_ws: "is_digit c \<Longrightarrow> \<not> is_ws c"
  by (auto simp: is_digit_def is_ws_def Let_def)

lemma value_ok_flag: "value_ok (flag_value b)"
  by (rule value_ok_no_ws) (simp add: flag_value_def is_ws_def)

lemma value_ok_show: "value_ok (show_nat n)"
  using show_nat_all_digits digit_not_ws by (intro value_ok_no_ws) blast

lemma value_ok_Nil: "value_ok []"
  by (simp add: value_ok_def)

lemma pad_zeros_char: "c \<in> set (pad_zeros n (show_nat k)) \<Longrightarrow> is_digit c"
proof -
  have "is_digit (CHR ''0'')" by code_simp
  then show "c \<in> set (pad_zeros n (show_nat k)) \<Longrightarrow> is_digit c"
    by (auto simp: pad_zeros_def dest: show_nat_all_digits)
qed

lemma value_ok_f32: "value_ok (show_f32 x)"
proof (rule value_ok_no_ws)
  have "\<not> is_ws (CHR ''.'')" "\<not> is_ws (CHR ''-'')" by code_simp+
  moreover have "c \<in> set (show_f32 x) \<Longrightarrow> is_digit c \<or> c = CHR ''.'' \<or> c = CHR ''-''" for c
    by (auto simp: show_f32_def Let_def dest: show_nat_all_digits pad_zeros_char split: if_splits)
  ultimately show "\<forall>c \<in> set (show_f32 x). \<not> is_ws c" using digit_not_ws by blast
qed

lemmas value_ok_intros = value_ok_flag value_ok_show value_ok_Nil value_ok_f32

section \<open>The deck's knobs\<close>

definition PANEL_KEYS :: "string list" where
  "PANEL_KEYS = [''screen_extended'', ''jog_adjust'', ''vinyl_speed'']"

definition panel_ok :: "panel_settings \<Rightarrow> bool" where
  "panel_ok p = (rnd32 (p_jog_adjust p) = p_jog_adjust p \<and> 0 \<le> p_jog_adjust p \<and> p_jog_adjust p \<le> 1 \<and>
     p_vinyl_speed p < 256)"

lemma flag_value_read: "bt_get m k = Some (flag_value b) \<Longrightarrow> flag m k d = b"
proof -
  have "\<not> eq_ignore_ascii_case ''0'' ''true''" by code_simp
  then show "bt_get m k = Some (flag_value b) \<Longrightarrow> flag m k d = b" by (simp add: flag_def flag_value_def)
qed

interpretation panel: settings_struct panel_pairs panel_from SLOT_KEYS PANEL_KEYS "\<lambda>_. True" panel_ok
proof
  show "set PANEL_KEYS \<subseteq> set SLOT_KEYS" by code_simp
  show "key_ok k" if "k \<in> set PANEL_KEYS" for k
  proof -
    have "list_all key_ok PANEL_KEYS" by code_simp
    with that show ?thesis by (simp add: list_all_iff)
  qed
  show "(k, v) \<in> set (panel_pairs s) \<Longrightarrow> k \<in> set PANEL_KEYS" for k v s
    by (auto simp: panel_pairs_def PANEL_KEYS_def)
  show "distinct (map fst (panel_pairs s))" for s by (simp add: panel_pairs_def)
  show "(k, v) \<in> set (panel_pairs s) \<Longrightarrow> value_ok v" for k v s
    by (auto simp: panel_pairs_def intro: value_ok_intros)
  show "(\<And>k. k \<in> set PANEL_KEYS \<Longrightarrow> bt_get m k = bt_get n k) \<Longrightarrow> panel_from m = panel_from n" for m n
    by (simp add: panel_from_def flag_def PANEL_KEYS_def)
  fix s m assume ok: "panel_ok s" and g: "\<And>k v. (k, v) \<in> set (panel_pairs s) \<Longrightarrow> bt_get m k = Some v"
  have "bt_get m ''screen_extended'' = Some (flag_value (p_screen_extended s))"
    "bt_get m ''jog_adjust'' = Some (show_f32 (p_jog_adjust s))"
    "bt_get m ''vinyl_speed'' = Some (show_nat (p_vinyl_speed s))"
    by (rule g, simp add: panel_pairs_def)+
  moreover have "parse_f32 (show_f32 (p_jog_adjust s)) = Some (Fin (p_jog_adjust s))"
    using ok by (intro parse_show_f32) (simp_all add: panel_ok_def)
  ultimately show "panel_from m = s"
    using ok by (simp add: panel_from_def flag_value_read jog_adjust_of_def panel_ok_def clamp01_def)
qed simp

section \<open>The slot's settings\<close>

definition OWN_KEYS :: "string list" where
  "OWN_KEYS = filter (\<lambda>k. k \<notin> set PANEL_KEYS) SLOT_KEYS"

definition text_ok :: "string option \<Rightarrow> bool" where
  "text_ok v = (case v of None \<Rightarrow> True | Some v \<Rightarrow> v \<noteq> [] \<and> value_ok v)"

text \<open>What every text field must be to survive a save, and the settings of an installed slot.\<close>

definition texts_ok :: "instance_settings \<Rightarrow> bool" where
  "texts_ok s = (is_valid_mac (s_mac s) \<and>
     (case s_soc_serial s of None \<Rightarrow> True | Some v \<Rightarrow> is_valid_soc_serial v) \<and>
     text_ok (s_audio_device_uid s) \<and> text_ok (s_firmware_release s) \<and> text_ok (s_net_iface s) \<and>
     text_ok (s_usb_virtual_path s) \<and> text_ok (s_usb_physical_bsd s) \<and> s_fs s < 2 ^ 32)"

definition installed_ok :: "instance_settings \<Rightarrow> bool" where
  "installed_ok s = (texts_ok s \<and> s_soc_serial s \<noteq> None)"

lemma hexdigit_not_ws: "is_hexdigit c \<Longrightarrow> \<not> is_ws c"
  by (auto simp: is_hexdigit_def is_digit_def is_ws_def Let_def)

lemma split_by_cover: "c \<in> set s \<Longrightarrow> P c \<or> (\<exists>p \<in> set (split_by P s). c \<in> set p)"
proof (induction s)
  case (Cons x s)
  obtain q qs where q: "split_by P s = q # qs" by (cases "split_by P s") auto
  with Cons show ?case by auto
qed simp

lemma value_ok_mac: "is_valid_mac mac \<Longrightarrow> value_ok mac"
proof (rule value_ok_no_ws, rule ballI)
  fix c assume mac: "is_valid_mac mac" and "c \<in> set mac"
  then consider "c = CHR '':''" | p where "p \<in> set (split_by (\<lambda>c. c = CHR '':'') mac)" "c \<in> set p"
    using split_by_cover [of c mac "\<lambda>c. c = CHR '':''"] by blast
  then show "\<not> is_ws c"
  proof cases
    case 1
    have "\<not> is_ws (CHR '':'')" by code_simp
    with 1 show ?thesis by simp
  next
    case 2
    then have "is_hexdigit c" using mac by (auto simp: is_valid_mac_def Let_def list_all_iff)
    then show ?thesis by (rule hexdigit_not_ws)
  qed
qed

lemma value_ok_serial: "is_valid_soc_serial v \<Longrightarrow> value_ok v"
  by (rule value_ok_no_ws) (auto simp: is_valid_soc_serial_def list_all_iff is_digit_def is_ws_def Let_def)

lemma value_ok_text: "text_ok v \<Longrightarrow> value_ok (case v of Some v \<Rightarrow> v | None \<Rightarrow> [])"
  by (auto simp: text_ok_def value_ok_Nil split: option.splits)

lemma value_ok_slug: "value_ok (slug (spec m))" "model_parse (slug (spec m)) = Some m"
proof -
  have "list_all (\<lambda>m. value_ok (slug (spec m)) \<and> model_parse (slug (spec m)) = Some m) MODEL_ALL" by code_simp
  then show "value_ok (slug (spec m))" "model_parse (slug (spec m)) = Some m"
    by (cases m; simp add: MODEL_ALL_def)+
qed

lemma value_ok_model: "value_ok (case v of Some m \<Rightarrow> slug (spec m) | None \<Rightarrow> [])"
  by (simp add: value_ok_Nil value_ok_slug split: option.split)

lemma text_value_read: "text_ok v \<Longrightarrow> bt_get m k = Some (case v of Some v \<Rightarrow> v | None \<Rightarrow> []) \<Longrightarrow> text_value m k = v"
  by (auto simp: text_ok_def text_value_def split: option.splits)

lemma model_parse_slug: "model_parse (case v of Some m \<Rightarrow> slug (spec m) | None \<Rightarrow> []) = v"
proof -
  have "model_parse [] = None" by code_simp
  then show ?thesis by (simp add: value_ok_slug split: option.split)
qed

text \<open>The struct as the contract sees it: read with some fresh bytes at hand.\<close>

definition slot_from :: "bytes \<Rightarrow> kv_map \<Rightarrow> instance_settings" where
  "slot_from uuid m = fst (fst (from_map uuid m))"

lemma bt_get_insert_other: "j \<noteq> k \<Longrightarrow> bt_get (bt_insert k v m) j = bt_get m j"
  unfolding bt_get_def by (induction k v m rule: bt_insert.induct) auto

lemma kept_or_minted_other: "k \<noteq> key \<Longrightarrow> bt_get (snd (kept_or_minted m key valid fresh)) k = bt_get m k"
  by (simp add: kept_or_minted_def bt_get_insert_other split: option.split)

lemma slot_from_eq:
  "slot_from uuid m =
     \<lparr>s_mac = (case some_valid is_valid_mac (bt_get m ''mac'') of Some v \<Rightarrow> v | None \<Rightarrow> generate_mac uuid),
      s_soc_serial = some_valid is_valid_soc_serial (bt_get m ''soc_serial''),
      s_audio_enabled = flag m ''audio_enabled'' False,
      s_audio_device_uid = text_value m ''audio_device_uid'',
      s_alc_enabled = flag m ''alc_enabled'' True,
      s_haptic_enabled = flag m ''haptic_enabled'' True,
      s_pc_link_enabled = flag m ''pc_link_enabled'' False,
      s_model = Option.bind (bt_get m ''model'') model_parse,
      s_firmware_release = text_value m ''firmware_release'',
      s_fs = number m ''fs'',
      s_mods_enabled = flag m ''mods_enabled'' True,
      s_dev_mode = flag m ''dev_mode'' False,
      s_net_iface = text_value m ''net_iface'',
      s_usb_virtual_path = text_value m ''usb_virtual_path'',
      s_usb_physical_bsd = text_value m ''usb_physical_bsd''\<rparr>"
proof -
  obtain v minted m' where k: "kept_or_minted m ''mac'' is_valid_mac (generate_mac uuid) = ((v, minted), m')"
    by (metis prod.exhaust)
  have v: "v = (case some_valid is_valid_mac (bt_get m ''mac'') of Some v \<Rightarrow> v | None \<Rightarrow> generate_mac uuid)"
    using k by (auto simp: kept_or_minted_def some_valid_def split: option.splits if_splits)
  have g: "bt_get m' k = bt_get m k" if "k \<noteq> ''mac''" for k
    using kept_or_minted_other [OF that, of m is_valid_mac "generate_mac uuid"] k by simp
  show ?thesis by (simp add: slot_from_def from_map_def k v g flag_def text_value_def number_def)
qed

lemma value_ok_serial_pair:
  "(case s of None \<Rightarrow> True | Some v \<Rightarrow> is_valid_soc_serial v) \<Longrightarrow>
   list_all (\<lambda>(k, v). value_ok v) (case s of Some serial \<Rightarrow> [(''soc_serial'', serial)] | None \<Rightarrow> [])"
  by (auto simp: value_ok_serial split: option.splits)

lemma pairs_value_slot: "texts_ok s \<Longrightarrow> (k, v) \<in> set (saved_pairs s) \<Longrightarrow> value_ok v"
proof -
  assume s: "texts_ok s" and kv: "(k, v) \<in> set (saved_pairs s)"
  have "list_all (\<lambda>(k, v). value_ok v) (saved_pairs s)"
    using s by (simp add: saved_pairs_def texts_ok_def value_ok_intros value_ok_mac value_ok_text
        value_ok_model value_ok_serial_pair)
  with kv show ?thesis by (auto simp: list_all_iff)
qed

lemma saved_pairs_keys:
  "map fst (saved_pairs s) = ''mac'' # (if s_soc_serial s = None then [] else [''soc_serial'']) @
     [''audio_enabled'', ''audio_device_uid'', ''alc_enabled'', ''haptic_enabled'', ''pc_link_enabled'', ''model'',
      ''firmware_release'', ''fs'', ''mods_enabled'', ''dev_mode'', ''net_iface'', ''usb_virtual_path'', ''usb_physical_bsd'']"
  by (simp add: saved_pairs_def split: option.split)

lemma own_keys: "list_all (\<lambda>k. k \<in> set SLOT_KEYS \<and> key_ok k) OWN_KEYS"
  "set (''mac'' # ''soc_serial'' #
     [''audio_enabled'', ''audio_device_uid'', ''alc_enabled'', ''haptic_enabled'', ''pc_link_enabled'', ''model'',
      ''firmware_release'', ''fs'', ''mods_enabled'', ''dev_mode'', ''net_iface'', ''usb_virtual_path'', ''usb_physical_bsd'']) = set OWN_KEYS"
  by code_simp+

interpretation slot: settings_struct saved_pairs "slot_from uuid" SLOT_KEYS OWN_KEYS texts_ok installed_ok for uuid
proof
  show "set OWN_KEYS \<subseteq> set SLOT_KEYS" using own_keys(1) by (auto simp: list_all_iff)
  show "k \<in> set OWN_KEYS \<Longrightarrow> key_ok k" for k using own_keys(1) by (auto simp: list_all_iff)
  show "k \<in> set OWN_KEYS" if "(k, v) \<in> set (saved_pairs s)" for k v s
  proof -
    have "k \<in> set (map fst (saved_pairs s))" using that by force
    then show ?thesis unfolding own_keys(2) [symmetric] saved_pairs_keys by (auto split: if_splits)
  qed
  show "distinct (map fst (saved_pairs s))" for s unfolding saved_pairs_keys by simp
  show "installed_ok s \<Longrightarrow> texts_ok s" for s by (simp add: installed_ok_def)
  show "texts_ok s \<Longrightarrow> (k, v) \<in> set (saved_pairs s) \<Longrightarrow> value_ok v" for k v s by (rule pairs_value_slot)
  show "slot_from uuid m = slot_from uuid n" if "\<And>k. k \<in> set OWN_KEYS \<Longrightarrow> bt_get m k = bt_get n k" for m n
    using that unfolding own_keys(2) [symmetric] by (simp add: slot_from_eq flag_def text_value_def number_def)
  fix s m assume ok: "installed_ok s" and g: "\<And>k v. (k, v) \<in> set (saved_pairs s) \<Longrightarrow> bt_get m k = Some v"
  from ok obtain serial where serial: "s_soc_serial s = Some serial" "is_valid_soc_serial serial"
    by (auto simp: installed_ok_def texts_ok_def)
  have pairs: "list_all (\<lambda>(k, v). bt_get m k = Some v) (saved_pairs s)" using g by (auto simp: list_all_iff)
  then have g: "bt_get m ''mac'' = Some (s_mac s)" "bt_get m ''soc_serial'' = Some serial"
    "bt_get m ''fs'' = Some (show_nat (s_fs s))"
    "flag m ''audio_enabled'' False = s_audio_enabled s" "flag m ''alc_enabled'' True = s_alc_enabled s"
    "flag m ''haptic_enabled'' True = s_haptic_enabled s" "flag m ''pc_link_enabled'' False = s_pc_link_enabled s"
    "flag m ''mods_enabled'' True = s_mods_enabled s" "flag m ''dev_mode'' False = s_dev_mode s"
    "Option.bind (bt_get m ''model'') model_parse = s_model s"
    using serial(1) by (simp_all add: saved_pairs_def flag_value_read model_parse_slug)
  have "text_value m ''audio_device_uid'' = s_audio_device_uid s"
    "text_value m ''firmware_release'' = s_firmware_release s" "text_value m ''net_iface'' = s_net_iface s"
    "text_value m ''usb_virtual_path'' = s_usb_virtual_path s" "text_value m ''usb_physical_bsd'' = s_usb_physical_bsd s"
    using ok pairs by (auto simp: saved_pairs_def installed_ok_def texts_ok_def intro!: text_value_read)
  with ok serial g show "slot_from uuid m = s"
    by (simp add: slot_from_eq installed_ok_def texts_ok_def some_valid_def number_def)
qed

interpretation deck: shared_file saved_pairs "slot_from uuid" SLOT_KEYS OWN_KEYS texts_ok installed_ok
    panel_pairs panel_from PANEL_KEYS "\<lambda>_. True" panel_ok for uuid
  by unfold_locales (auto simp: OWN_KEYS_def)

section \<open>Properties\<close>

lemma load_or_init_fst: "fst (load_or_init ok uuid f) = slot_from uuid (read_kv f)"
  by (cases f) (auto simp: load_or_init_def load_or_init_unlocked_def slot_from_def read_kv_def
      split: prod.splits)

lemma save_reads:
  assumes "texts_ok s" and "try_read_kv f = Inr m"
  shows "read_kv (snd (save_unlocked True s f)) = slot.saved s m"
  using slot.read_saved [OF assms(1) kv_ok_read [OF assms(2)]] assms(2)
  by (simp add: save_unlocked_def read_kv_def)

lemma panel_save_reads:
  assumes "try_read_kv f = Inr m"
  shows "read_kv (snd (panel_save True p f)) = panel.saved p m"
  using panel.read_saved [OF TrueI kv_ok_read [OF assms]] assms
  by (simp add: panel_save_def read_kv_def)

text \<open>C31: the two structs share the slot's file without losing anything. Saved slot settings are loaded
  back unchanged and leave the knobs alone; saved knobs are loaded back unchanged and leave the
  slot settings alone.\<close>

theorem slot_file_shared:
  assumes "try_read_kv f = Inr m" and "installed_ok s" and "panel_ok p"
  shows "fst (load_or_init ok uuid (snd (save_unlocked True s f))) = s \<and>
    panel_load (snd (save_unlocked True s f)) = panel_load f \<and>
    panel_load (snd (panel_save True p f)) = p \<and>
    fst (load_or_init ok uuid (snd (panel_save True p f))) = fst (load_or_init ok uuid f)"
proof -
  have m: "kv_ok m" "read_kv f = m" using assms(1) by (simp_all add: kv_ok_read read_kv_def)
  have s: "texts_ok s" using assms(2) by (simp add: installed_ok_def)
  show ?thesis
    using slot.load_saved [OF assms(2) m(1)] panel.load_saved [OF assms(3) m(1)]
      deck.a_keeps_b [OF s m(1)] deck.b_keeps_a [OF TrueI m(1)]
    by (simp add: load_or_init_fst panel_load_def save_reads [OF s assms(1)] panel_save_reads [OF assms(1)] m(2))
qed

definition sample_settings :: instance_settings where
  "sample_settings =
     \<lparr>s_mac = ''02:11:22:33:44:55'', s_soc_serial = Some ''0123456789abcd05'', s_audio_enabled = True,
      s_audio_device_uid = None, s_alc_enabled = False, s_haptic_enabled = True, s_pc_link_enabled = False,
      s_model = Some Cdj3kx, s_firmware_release = Some ''1.40'', s_fs = 3, s_mods_enabled = True,
      s_dev_mode = True, s_net_iface = None, s_usb_virtual_path = Some ''/tmp/My USB.img'',
      s_usb_physical_bsd = None\<rparr>"

lemma sample_settings_ok: "installed_ok sample_settings"
proof -
  have "is_valid_mac ''02:11:22:33:44:55''" "is_valid_soc_serial ''0123456789abcd05''" "text_ok (Some ''1.40'')"
    "text_ok (Some ''/tmp/My USB.img'')" "text_ok None"
    by code_simp+
  then show ?thesis by (simp add: installed_ok_def texts_ok_def sample_settings_def)
qed

theorem slot_file_shared_witness:
  "fst (load_or_init True [] (snd (save_unlocked True sample_settings NoFile))) = sample_settings \<and>
   panel_load (snd (panel_save True \<lparr>p_screen_extended = True, p_jog_adjust = 1 / 4, p_vinyl_speed = 7\<rparr> NoFile)) =
     \<lparr>p_screen_extended = True, p_jog_adjust = 1 / 4, p_vinyl_speed = 7\<rparr>"
proof -
  have "panel_ok \<lparr>p_screen_extended = True, p_jog_adjust = 1 / 4, p_vinyl_speed = 7\<rparr>" by code_simp
  then show ?thesis using slot_file_shared [OF _ sample_settings_ok, of NoFile "[]"] by simp
qed

text \<open>
  A run of the program on one slot file: loads, updates that keep the MAC, saved knobs and
  pinned serials, each with its own random bytes and disk outcome.
\<close>

inductive slot_step :: "settings_file \<Rightarrow> settings_file \<Rightarrow> bool" where
  load: "slot_step f (snd (load_or_init ok uuid f))"
| update: "(\<And>s. texts_ok s \<Longrightarrow> texts_ok (mutate s) \<and> s_mac (mutate s) = s_mac s) \<Longrightarrow>
    slot_step f (snd (settings_update init_ok ok uuid mutate f))"
| knobs: "slot_step f (snd (panel_save ok p f))"
| serial: "slot_step f (snd (set_soc_serial init_ok ok uuid s f))"

definition file_mac :: "settings_file \<Rightarrow> string option" where
  "file_mac f = some_valid is_valid_mac (bt_get (read_kv f) ''mac'')"

lemma file_mac_read:
  assumes "file_mac f = Some mac"
  obtains m where "try_read_kv f = Inr m" and "kv_ok m" and "bt_get m ''mac'' = Some mac" and "is_valid_mac mac"
proof -
  have "bt_get (read_kv f) ''mac'' = Some mac" "is_valid_mac mac"
    using assms by (auto simp: file_mac_def some_valid_def bind_eq_Some_conv split: if_splits)
  moreover from this(1) obtain m where "try_read_kv f = Inr m" by (cases f) (auto simp: read_kv_def bt_get_def)
  ultimately show ?thesis using that [of m] kv_ok_read by (auto simp: read_kv_def)
qed

lemma file_mac_saved:
  assumes "try_read_kv f = Inr m" and "bt_get m ''mac'' = Some mac" and "is_valid_mac mac"
  shows "file_mac f = Some mac"
  using assms by (simp add: file_mac_def read_kv_def some_valid_def)

text \<open>With a valid MAC in the file nothing is minted and the file is left alone.\<close>

lemma load_keeps_file:
  assumes "try_read_kv f = Inr m" and "bt_get m ''mac'' = Some mac" and "is_valid_mac mac"
  shows "load_or_init_unlocked ok uuid f = (Inr (slot_from uuid m), f)"
proof -
  have "kept_or_minted m ''mac'' is_valid_mac (generate_mac uuid) = ((mac, False), m)"
    using assms by (simp add: kept_or_minted_def)
  then have "from_map uuid m = ((slot_from uuid m, False), m)" by (simp add: slot_from_def from_map_def)
  then show ?thesis using assms(1) by (simp add: load_or_init_unlocked_def)
qed

lemma text_ok_read: "kv_ok m \<Longrightarrow> text_ok (text_value m k)"
  by (auto simp: text_ok_def text_value_def bind_eq_Some_conv kv_ok_def bt_get_iff list_all_iff split: option.splits)

lemma number_less: "number m k < 2 ^ 32"
  by (auto simp: number_def bind_eq_Some_conv parse_uint_def dest!: parse_radix_bound split: option.splits)

lemma slot_from_texts_ok:
  assumes "kv_ok m" and "bt_get m ''mac'' = Some mac" and "is_valid_mac mac"
  shows "texts_ok (slot_from uuid m)" "s_mac (slot_from uuid m) = mac"
proof -
  have "case some_valid is_valid_soc_serial v of None \<Rightarrow> True | Some v \<Rightarrow> is_valid_soc_serial v" for v
    by (cases v) (auto simp: some_valid_def)
  then show "texts_ok (slot_from uuid m)" "s_mac (slot_from uuid m) = mac"
    using assms number_less by (simp_all add: texts_ok_def slot_from_eq text_ok_read some_valid_def)
qed

lemma update_keeps_mac:
  assumes f: "file_mac f = Some mac"
    and mutate: "\<And>s. texts_ok s \<Longrightarrow> texts_ok (mutate s) \<and> s_mac (mutate s) = s_mac s"
  shows "file_mac (snd (settings_update init_ok ok uuid mutate f)) = Some mac"
proof -
  obtain m where m: "try_read_kv f = Inr m" "kv_ok m" "bt_get m ''mac'' = Some mac" "is_valid_mac mac"
    using f by (rule file_mac_read)
  let ?s = "mutate (slot_from uuid m)"
  have s: "texts_ok ?s" "s_mac ?s = mac" using mutate slot_from_texts_ok [OF m(2-4)] by auto
  have u: "settings_update init_ok ok uuid mutate f = save_unlocked ok ?s f"
    by (simp add: settings_update_def load_keeps_file [OF m(1,3,4)])
  show ?thesis
  proof (cases ok)
    case False
    then show ?thesis unfolding u using f m(1) by (simp add: save_unlocked_def write_kv_def)
  next
    case True
    then have r: "try_read_kv (snd (save_unlocked ok ?s f)) = Inr (slot.saved ?s m)"
      using slot.read_saved [OF s(1) m(2)] m(1) by (simp add: save_unlocked_def)
    have "map_of (rev (saved_pairs ?s)) ''mac'' = Some mac"
      using slot.pairs_distinct [of ?s] s(2) by (simp add: rev_map [symmetric]) (simp add: saved_pairs_def)
    moreover have "''mac'' \<in> set SLOT_KEYS" by code_simp
    ultimately have "bt_get (slot.saved ?s m) ''mac'' = Some mac" by (simp add: slot.get_saved [OF s(1) m(2)])
    then show ?thesis unfolding u using r m(4) by (intro file_mac_saved)
  qed
qed

lemma knobs_keep_mac:
  assumes "file_mac f = Some mac"
  shows "file_mac (snd (panel_save ok p f)) = Some mac"
proof -
  obtain m where m: "try_read_kv f = Inr m" "kv_ok m" "bt_get m ''mac'' = Some mac" "is_valid_mac mac"
    using assms by (rule file_mac_read)
  show ?thesis
  proof (cases ok)
    case False
    then show ?thesis using assms m(1) by (simp add: panel_save_def write_kv_def)
  next
    case True
    have "''mac'' \<in> set SLOT_KEYS" "''mac'' \<notin> set PANEL_KEYS" by code_simp+
    then have "bt_get (panel.saved p m) ''mac'' = Some mac"
      using panel.saved_other [OF TrueI m(2)] m(3) by simp
    moreover have "try_read_kv (snd (panel_save ok p f)) = Inr (panel.saved p m)"
      using panel.read_saved [OF TrueI m(2)] m(1) True by (simp add: panel_save_def)
    ultimately show ?thesis using m(4) by (intro file_mac_saved)
  qed
qed

lemma serial_keeps_mac:
  assumes "file_mac f = Some mac"
  shows "file_mac (snd (set_soc_serial init_ok ok uuid s f)) = Some mac"
proof (cases "parse_soc_serial s")
  case (Inr serial)
  then have "is_valid_soc_serial serial" by (auto simp: parse_soc_serial_def Let_def split: if_splits)
  then have "file_mac (snd (settings_update init_ok ok uuid (\<lambda>s. s\<lparr>s_soc_serial := Some serial\<rparr>) f)) = Some mac"
    by (intro update_keeps_mac [OF assms]) (simp add: texts_ok_def)
  then show ?thesis by (auto simp: set_soc_serial_def Inr split: prod.splits sum.splits)
qed (use assms in \<open>simp add: set_soc_serial_def\<close>)


definition mac_only :: kv_map where
  "mac_only = [(''mac'', ''02:11:22:33:44:55'')]"


section \<open>The app's settings survive\<close>

definition app_text_ok :: "app_settings \<Rightarrow> bool" where
  "app_text_ok s = text_ok (a_skip_version s)"

definition app_ok :: "app_settings \<Rightarrow> bool" where
  "app_ok s = (app_text_ok s \<and> a_remind_after s < 2 ^ 64)"

interpretation app: settings_struct app_pairs app_from APP_KEYS APP_KEYS app_text_ok app_ok
proof
  have "list_all key_ok APP_KEYS" by code_simp
  then show "k \<in> set APP_KEYS \<Longrightarrow> key_ok k" for k by (simp add: list_all_iff)
  show "(k, v) \<in> set (app_pairs s) \<Longrightarrow> k \<in> set APP_KEYS" for k v s
    by (auto simp: app_pairs_def APP_KEYS_def)
  show "distinct (map fst (app_pairs s))" for s by (simp add: app_pairs_def)
  show "app_text_ok s \<Longrightarrow> (k, v) \<in> set (app_pairs s) \<Longrightarrow> value_ok v" for k v s
    by (auto simp: app_pairs_def app_text_ok_def intro: value_ok_intros value_ok_text)
  show "(\<And>k. k \<in> set APP_KEYS \<Longrightarrow> bt_get m k = bt_get n k) \<Longrightarrow> app_from m = app_from n" for m n
    by (simp add: app_from_def flag_def text_value_def APP_KEYS_def)
  fix s m assume ok: "app_ok s" and g: "\<And>k v. (k, v) \<in> set (app_pairs s) \<Longrightarrow> bt_get m k = Some v"
  have "bt_get m ''update_auto_check'' = Some (flag_value (a_auto_check s))"
    "bt_get m ''update_skip_version'' = Some (case a_skip_version s of Some v \<Rightarrow> v | None \<Rightarrow> [])"
    "bt_get m ''update_remind_after'' = Some (show_nat (a_remind_after s))"
    "bt_get m ''update_auto_install'' = Some (flag_value (a_auto_install s))"
    by (rule g, simp add: app_pairs_def)+
  moreover from ok this(2) have "text_value m ''update_skip_version'' = a_skip_version s"
    by (intro text_value_read) (simp_all add: app_ok_def app_text_ok_def)
  ultimately show "app_from m = s"
    using ok by (simp add: app_from_def flag_value_read app_ok_def)
qed (simp_all add: app_ok_def)

text \<open>What the updater remembers survives. An update of the app's settings is loaded back as it was
  made, the clean-up at startup changes nothing that is loaded, and after it the file holds
  only registered keys.\<close>

theorem app_settings_survive:
  assumes "try_read_kv f = Inr m" and "app_ok (mutate (app_load f))"
  shows "app_load (snd (app_update True mutate f)) = mutate (app_load f) \<and>
    app_load (prune_app_file ok f) = app_load f \<and>
    fst ` set (read_kv (prune_app_file True f)) \<subseteq> set APP_KEYS"
proof (intro conjI)
  have m: "kv_ok m" "read_kv f = m" using assms(1) by (simp_all add: kv_ok_read read_kv_def)
  have "app_text_ok (mutate (app_load f))" using assms(2) by (simp add: app_ok_def)
  then have "read_kv (snd (app_update True mutate f)) = app.saved (mutate (app_load f)) m"
    using app.read_saved [OF _ m(1)] assms(1) by (simp add: app_update_def read_kv_def)
  then show "app_load (snd (app_update True mutate f)) = mutate (app_load f)"
    using app.load_saved [OF assms(2) m(1)] by (simp add: app_load_def [of "snd _"])
  have w: "read_kv (snd (write_kv True m APP_KEYS f)) = filter (\<lambda>(k, _). k \<in> set APP_KEYS) m"
    using kv_read_written [OF m(1)] by (simp add: read_kv_def)
  show "app_load (prune_app_file ok f) = app_load f"
  proof (cases "ok \<and> \<not> list_all (\<lambda>(k, _). k \<in> set APP_KEYS) m")
    case True
    then show ?thesis using assms(1) m w app.load_registered [OF m(1)] by (simp add: prune_app_file_def app_load_def)
  next
    case False
    then show ?thesis using assms(1) by (auto simp: prune_app_file_def write_kv_def)
  qed
  show "fst ` set (read_kv (prune_app_file True f)) \<subseteq> set APP_KEYS"
    using assms(1) m w by (auto simp: prune_app_file_def list_all_iff)
qed

theorem app_settings_survive_witness:
  "app_load (snd (app_update True (\<lambda>s. s\<lparr>a_skip_version := Some ''0.4.0''\<rparr>) NoFile)) =
     app_default\<lparr>a_skip_version := Some ''0.4.0''\<rparr>"
proof -
  have l: "app_load NoFile = app_default"
    by (simp add: app_load_def read_kv_def app_from_def flag_def text_value_def bt_get_def app_default_def)
  have "text_ok (Some ''0.4.0'')" by code_simp
  then have "app_ok (app_default\<lparr>a_skip_version := Some ''0.4.0''\<rparr>)"
    by (simp add: app_ok_def app_text_ok_def app_default_def)
  then show ?thesis
    using app_settings_survive [of NoFile "[]" "\<lambda>s. s\<lparr>a_skip_version := Some ''0.4.0''\<rparr>" True] l by simp
qed

section \<open>Minted identities\<close>

lemma hex_lower_ok:
  assumes "d < 16"
  shows "is_hexdigit (hex_lower d)" "\<not> is_upper (hex_lower d)" "hex_lower d \<noteq> CHR '':''" "code (hex_lower d) < 128"
proof -
  have c: "code (hex_lower d) = (if d < 10 then 48 + d else 87 + d)" using assms by (simp add: hex_lower_def)
  show "is_hexdigit (hex_lower d)" "\<not> is_upper (hex_lower d)" "code (hex_lower d) < 128"
    unfolding is_hexdigit_def is_upper_def is_digit_def Let_def c using assms by auto
  have "code (hex_lower d) \<noteq> code (CHR '':'')" unfolding c using assms by simp
  then show "hex_lower d \<noteq> CHR '':''" by metis
qed

lemma hex02_ok:
  "str_len (hex02 b) = 2" "list_all is_hexdigit (hex02 b)" "CHR '':'' \<notin> set (hex02 b)"
  "list_all (\<lambda>c. is_hexdigit c \<and> \<not> is_upper c) (hex02 b)" "length (hex02 b) = 2"
proof -
  have d: "unat b div 16 < 16" "unat b mod 16 < 16" using unsigned_less [of b, where ?'a = nat] by (simp_all add: div_less_iff_less_mult)
  show "str_len (hex02 b) = 2" "list_all is_hexdigit (hex02 b)" "CHR '':'' \<notin> set (hex02 b)"
    "list_all (\<lambda>c. is_hexdigit c \<and> \<not> is_upper c) (hex02 b)" "length (hex02 b) = 2"
    using hex_lower_ok [OF d(1)] hex_lower_ok [OF d(2)] by (auto simp: hex02_def str_len_def)
qed

lemma str_len_append [simp]: "str_len (a @ b) = str_len a + str_len b"
  by (simp add: str_len_def)

lemma str_len_hex: "str_len (concat (map hex02 bs)) = 2 * length bs"
  by (induction bs) (simp_all add: hex02_ok, simp add: str_len_def)

text \<open>A minted MAC passes its own validator and is a locally administered unicast address; a minted
  SoC serial passes its validator and is accepted unchanged when it is pinned.\<close>

theorem minted_identity_valid:
  assumes "length uuid = 16"
  shows "is_valid_mac (generate_mac uuid) \<and>
    (\<exists>b. take 2 (generate_mac uuid) = hex02 b \<and> b AND 3 = 2) \<and>
    parse_soc_serial (generate_soc_serial uuid) = Inr (generate_soc_serial uuid)"
proof (intro conjI)
  let ?b = "(uuid ! 0 AND 0xFE) OR 0x02"
  let ?parts = "map hex02 [?b, uuid ! 1, uuid ! 2, uuid ! 3, uuid ! 4, uuid ! 5]"
  have mac: "generate_mac uuid = join '':'' ?parts" by (simp add: generate_mac_def Let_def)
  have "split_by (\<lambda>c. c = CHR '':'') (join '':'' ?parts) = ?parts"
    using hex02_ok(3) by (intro split_by_join) auto
  then show "is_valid_mac (generate_mac uuid)" by (simp add: is_valid_mac_def mac hex02_ok)
  have "(uuid ! 0 AND 0xFE) AND 3 = uuid ! 0 AND 2" by (simp add: and.assoc)
  moreover have "(x AND 2) OR 2 = 2" for x :: u8 by (rule bit_eqI) (auto simp: bit_simps)
  ultimately have "?b AND 3 = 2" by (simp add: bit.conj_disj_distrib2)
  moreover have "take 2 (generate_mac uuid) = hex02 ?b" unfolding mac using hex02_ok(5) [of ?b] by simp
  ultimately show "\<exists>b. take 2 (generate_mac uuid) = hex02 b \<and> b AND 3 = 2" by blast
  let ?s = "generate_soc_serial uuid"
  have hex: "list_all (\<lambda>c. is_hexdigit c \<and> \<not> is_upper c) ?s"
    using hex02_ok(4) by (auto simp: generate_soc_serial_def list_all_iff)
  moreover have "is_hexdigit c \<and> \<not> is_upper c \<Longrightarrow> is_digit c \<or> (let n = code c in 97 \<le> n \<and> n \<le> 102)" for c
    by (auto simp: is_hexdigit_def is_upper_def Let_def)
  ultimately have "is_valid_soc_serial ?s"
    using assms by (auto simp: is_valid_soc_serial_def generate_soc_serial_def str_len_hex list_all_iff)
  moreover have "to_ascii_lowercase ?s = ?s"
    using hex by (auto simp: to_ascii_lowercase_def lower_def list_all_iff intro!: map_idI)
  moreover have "trim ?s = ?s" using value_ok_serial [OF calculation(1)] by (simp add: value_ok_def)
  ultimately show "parse_soc_serial ?s = Inr ?s" by (simp add: parse_soc_serial_def Let_def)
qed

theorem minted_identity_valid_witness: "is_valid_mac (generate_mac (replicate 16 0xFF))"
  using minted_identity_valid [of "replicate 16 0xFF"] by simp

end
