(* ===== verification/ModManifest.thy ===== *)
theory ModManifest
  imports Version PanelModel
begin

text \<open>
  Mod manifests, \<open>crates/cdj3k-emu-storage/src/mods/compat.rs\<close> and \<open>manifest.rs\<close>: the ranges of
  firmware releases a mod declares, and the checks on \<open>mod.toml\<close>. The TOML parser is third-party
  code and enters as the argument \<open>from_toml\<close>; a parsed table is the list of its entries in the
  order they are iterated. A mod's folder is what the code reads of it: its \<open>mod.toml\<close> and which
  files it holds.
\<close>

section \<open>Releases and ranges\<close>

definition parse_release_number :: "string \<Rightarrow> nat list option" where
  "parse_release_number s =
     (if s = [] then None else mapM_opt (parse_uint 32) (split_by dot s))"

definition number_at :: "nat list \<Rightarrow> nat \<Rightarrow> nat" where
  "number_at a i = (if i < length a then a ! i else 0)"

definition compare_release :: "nat list \<Rightarrow> nat list \<Rightarrow> ordering" where
  "compare_release a b =
     (let n = max (length a) (length b)
      in (case find (\<lambda>ord. ord \<noteq> Equal) (map (\<lambda>i. cmp_nat (number_at a i) (number_at b i)) [0..<n]) of
            Some ord \<Rightarrow> ord
          | None \<Rightarrow> Equal))"

datatype range_op = Ge | Le | Gt | Lt | Eq

type_synonym range_clauses = "(range_op \<times> nat list) list"

definition RANGE_OPS :: "(string \<times> range_op) list" where
  "RANGE_OPS = [(''>='', Ge), (''<='', Le), (''=='', Eq), (''>'', Gt), (''<'', Lt), (''='', Eq)]"

definition range_prefix :: "string \<Rightarrow> range_op \<times> string" where
  "range_prefix clause =
     (case List.map_filter (\<lambda>(p, op). map_option (Pair op) (strip_prefix p clause)) RANGE_OPS of
        r # _ \<Rightarrow> r
      | [] \<Rightarrow> (Eq, clause))"

definition range_clause :: "string \<Rightarrow> string + range_op \<times> nat list" where
  "range_clause c =
     (let clause = trim c; (op, rest) = range_prefix clause
      in (case parse_release_number (trim rest) of
            Some v \<Rightarrow> Inr (op, v)
          | None \<Rightarrow> Inl clause))"

definition range_parse :: "string \<Rightarrow> string + range_clauses" where
  "range_parse s =
     (let s = trim s
      in if s = ''*'' then Inr [] else mapM_sum range_clause (split_by (\<lambda>c. c = CHR '','') s))"

fun op_holds :: "range_op \<Rightarrow> ordering \<Rightarrow> bool" where
  "op_holds Ge ord = (ord \<noteq> Less)"
| "op_holds Le ord = (ord \<noteq> Greater)"
| "op_holds Gt ord = (ord = Greater)"
| "op_holds Lt ord = (ord = Less)"
| "op_holds Eq ord = (ord = Equal)"

definition clauses_hold :: "range_clauses \<Rightarrow> nat list \<Rightarrow> bool" where
  "clauses_hold r v = list_all (\<lambda>(op, w). op_holds op (compare_release v w)) r"

definition range_contains :: "range_clauses \<Rightarrow> string \<Rightarrow> bool" where
  "range_contains r release =
     (case parse_release_number release of None \<Rightarrow> True | Some v \<Rightarrow> clauses_hold r v)"

section \<open>The compat table\<close>

datatype toml = TStr string | TArr "toml list" | TTab "(string \<times> toml) list" | TOther

fun as_str :: "toml \<Rightarrow> string option" where
  "as_str (TStr s) = Some s"
| "as_str _ = None"

fun as_array :: "toml \<Rightarrow> toml list option" where
  "as_array (TArr l) = Some l"
| "as_array _ = None"

fun as_table :: "toml \<Rightarrow> (string \<times> toml) list option" where
  "as_table (TTab t) = Some t"
| "as_table _ = None"

datatype manifest_error =
    TomlMissing
  | TomlUnreadable
  | TomlSyntax
  | NoModTable
  | NotString string
  | MissingKey string
  | BadName string
  | BadModVersion string
  | PreloadNotList
  | PreloadNotString
  | PreloadOutside string
  | PreloadChars string
  | PreloadNoFile string
  | EnvNotTable
  | EnvNotString string
  | EnvKey string
  | EnvPreload
  | EnvValue string
  | CompatNotTable
  | CompatNotString string
  | CompatModel string
  | CompatRange string string

type_synonym declared = "(string \<times> string) list"

datatype compat =
    Unchecked
  | Compatible
  | Incompatible "string option" "string list"
  | Invalid manifest_error

definition runs :: "compat \<Rightarrow> bool" where
  "runs c = (c = Unchecked \<or> c = Compatible)"

definition declared_entry :: "string \<times> toml \<Rightarrow> manifest_error + string \<times> string" where
  "declared_entry e =
     (case e of (name, v) \<Rightarrow>
        bindR (ok_or (CompatNotString name) (as_str v)) (\<lambda>rng.
          if \<not> list_ex (\<lambda>m. slug (spec m) = name) MODEL_ALL then Inl (CompatModel name)
          else (case range_parse rng of
                  Inl clause \<Rightarrow> Inl (CompatRange name clause)
                | Inr _ \<Rightarrow> Inr (name, rng))))"

definition declared_parse :: "toml \<Rightarrow> manifest_error + declared" where
  "declared_parse c = bindR (ok_or CompatNotTable (as_table c)) (mapM_sum declared_entry)"

definition declared_check :: "declared \<Rightarrow> model \<Rightarrow> string option \<Rightarrow> compat" where
  "declared_check d model release =
     (if d = [] then Unchecked
      else
        let wanted = map_option snd (find (\<lambda>(s, _). s = slug (spec model)) d);
            fits = (case (wanted, release) of
                      (None, _) \<Rightarrow> False
                    | (Some _, None) \<Rightarrow> True
                    | (Some rng, Some release) \<Rightarrow>
                        (case range_parse rng of Inr r \<Rightarrow> range_contains r release | Inl _ \<Rightarrow> False))
        in if fits then Compatible else Incompatible wanted (map fst d))"

section \<open>The manifest\<close>

record manifest =
  man_name :: string
  man_version :: string
  man_author :: "string option"
  man_description :: "string option"
  man_url :: "string option"
  man_preload :: "string list"
  man_env :: "(string \<times> string) list"
  man_compat :: declared

definition DEVICES :: "string list" where
  "DEVICES =
     [''con'', ''prn'', ''aux'', ''nul'', ''com1'', ''com2'', ''com3'', ''com4'', ''com5'', ''com6'', ''com7'',
      ''com8'', ''com9'', ''lpt1'', ''lpt2'', ''lpt3'', ''lpt4'', ''lpt5'', ''lpt6'', ''lpt7'', ''lpt8'', ''lpt9'']"

definition valid_name :: "string \<Rightarrow> bool" where
  "valid_name name =
     (str_len name \<le> 48 \<and>
      (case name of [] \<Rightarrow> False | c # _ \<Rightarrow> is_lower c \<or> is_digit c) \<and>
      list_all (\<lambda>c. is_lower c \<or> is_digit c \<or> c \<in> set ''._-'') name \<and>
      (name = [] \<or> last name \<noteq> CHR ''.'') \<and>
      hd (split_by dot name) \<notin> set DEVICES)"

definition valid_env_value :: "string \<Rightarrow> bool" where
  "valid_env_value v =
     (\<not> list_ex (\<lambda>c. c \<in> {CHR 0x5C, CHR 0x22, CHR 0x27} \<or> is_control c) v \<and> trim v = v)"

definition valid_preload :: "string \<Rightarrow> bool" where
  "valid_preload lib =
     (\<not> list_ex (\<lambda>c. c \<in> {CHR '':'', CHR 0x5C, CHR 0x22, CHR 0x27} \<or> is_ws c \<or> is_control c) lib)"

definition valid_env_key :: "string \<Rightarrow> bool" where
  "valid_env_key key =
     ((case key of [] \<Rightarrow> False | c # _ \<Rightarrow> is_alpha c \<or> c = CHR ''_'') \<and>
      list_all (\<lambda>c. is_alnum c \<or> c = CHR ''_'') key)"

definition table_string :: "(string \<times> toml) list \<Rightarrow> string \<Rightarrow> manifest_error + string option" where
  "table_string m key =
     (case map_of m key of
        None \<Rightarrow> Inr None
      | Some v \<Rightarrow> (case as_str v of Some s \<Rightarrow> Inr (Some s) | None \<Rightarrow> Inl (NotString key)))"

definition preload_item :: "toml \<Rightarrow> manifest_error + string" where
  "preload_item item =
     bindR (ok_or PreloadNotString (as_str item)) (\<lambda>lib.
       if \<not> (lib \<noteq> [] \<and> hd lib \<noteq> CHR ''/'' \<and> \<not> list_ex (\<lambda>p. p = ''..'') (split_by (\<lambda>c. c = CHR ''/'') lib))
       then Inl (PreloadOutside lib)
       else if \<not> valid_preload lib then Inl (PreloadChars lib)
       else Inr lib)"

definition parse_preload :: "toml \<Rightarrow> manifest_error + string list" where
  "parse_preload v = bindR (ok_or PreloadNotList (as_array v)) (mapM_sum preload_item)"

definition env_item :: "string \<times> toml \<Rightarrow> manifest_error + string \<times> string" where
  "env_item kv =
     (case kv of (key, v) \<Rightarrow>
        bindR (ok_or (EnvNotString key) (as_str v)) (\<lambda>value.
          if \<not> valid_env_key key then Inl (EnvKey key)
          else if key = ''LD_PRELOAD'' then Inl EnvPreload
          else if \<not> valid_env_value value then Inl (EnvValue key)
          else Inr (key, value)))"

definition parse_env :: "toml \<Rightarrow> manifest_error + (string \<times> string) list" where
  "parse_env v = bindR (ok_or EnvNotTable (as_table v)) (mapM_sum env_item)"

definition opt_field :: "(toml \<Rightarrow> manifest_error + 'a list) \<Rightarrow> toml option \<Rightarrow> manifest_error + 'a list" where
  "opt_field p v = (case v of None \<Rightarrow> Inr [] | Some v \<Rightarrow> p v)"

definition keep_if :: "('a \<Rightarrow> bool) \<Rightarrow> 'a option \<Rightarrow> 'a option" where
  "keep_if P v = Option.bind v (\<lambda>x. if P x then Some x else None)"

definition parse_tables :: "(string \<Rightarrow> (string \<times> toml) list option) \<Rightarrow> string \<Rightarrow> manifest_error + manifest" where
  "parse_tables from_toml txt =
     bindR (ok_or TomlSyntax (from_toml txt)) (\<lambda>table.
     bindR (ok_or NoModTable (Option.bind (map_of table ''mod'') as_table)) (\<lambda>m.
     bindR (bindR (table_string m ''name'') (ok_or (MissingKey ''name''))) (\<lambda>name.
     bindR (if valid_name name then Inr () else Inl (BadName name)) (\<lambda>_.
     bindR (bindR (table_string m ''version'') (ok_or (MissingKey ''version''))) (\<lambda>version.
     bindR (if version = [] \<or> list_ex is_ws version then Inl (BadModVersion version) else Inr ()) (\<lambda>_.
     bindR (table_string m ''author'') (\<lambda>author.
     bindR (table_string m ''description'') (\<lambda>description.
     bindR (table_string m ''url'') (\<lambda>url.
     bindR (opt_field parse_preload (map_of m ''preload'')) (\<lambda>preload.
     bindR (opt_field parse_env (map_of m ''env'')) (\<lambda>env.
     bindR (opt_field declared_parse (map_of table ''compat'')) (\<lambda>compat.
       Inr \<lparr>man_name = name, man_version = version,
            man_author = keep_if (\<lambda>a. trim a \<noteq> []) author,
            man_description = description,
            man_url = keep_if (\<lambda>u. u \<noteq> []) (map_option trim url),
            man_preload = preload, man_env = env, man_compat = compat\<rparr>))))))))))))"

text \<open>What reading \<open>mod.toml\<close> gives, and which relative paths are files of the folder.\<close>

datatype toml_file = TomlAbsent | TomlFailed | TomlText string

record mod_dir =
  md_toml :: toml_file
  md_is_file :: "string \<Rightarrow> bool"

definition manifest_read ::
  "(string \<Rightarrow> (string \<times> toml) list option) \<Rightarrow> mod_dir \<Rightarrow> manifest_error + manifest" where
  "manifest_read from_toml d =
     (case md_toml d of
        TomlAbsent \<Rightarrow> Inl TomlMissing
      | TomlFailed \<Rightarrow> Inl TomlUnreadable
      | TomlText t \<Rightarrow>
          bindR (parse_tables from_toml t) (\<lambda>m.
            (case find (\<lambda>lib. \<not> md_is_file d lib) (man_preload m) of
               Some lib \<Rightarrow> Inl (PreloadNoFile lib)
             | None \<Rightarrow> Inr m)))"

definition manifest_check :: "manifest \<Rightarrow> model \<Rightarrow> string option \<Rightarrow> compat" where
  "manifest_check m model release = declared_check (man_compat m) model release"

definition check_dir ::
  "(string \<Rightarrow> (string \<times> toml) list option) \<Rightarrow> mod_dir \<Rightarrow> model \<Rightarrow> string option \<Rightarrow> compat" where
  "check_dir from_toml d model release =
     (case manifest_read from_toml d of
        Inr m \<Rightarrow> manifest_check m model release
      | Inl e \<Rightarrow> Invalid e)"

section \<open>The order of releases\<close>

lemma find_differs:
  "length xs = length ys \<Longrightarrow>
   (case find (\<lambda>ord. ord \<noteq> Equal) (map2 c xs ys) of Some ord \<Rightarrow> ord | None \<Rightarrow> Equal) = cmp_list c xs ys"
  by (induction c xs ys rule: cmp_list.induct) (auto simp: then_with_def)

lemma find_append_None: "find P ys = None \<Longrightarrow> find P (xs @ ys) = find P xs"
  by (induction xs) auto

definition padded :: "nat \<Rightarrow> nat list \<Rightarrow> nat list" where
  "padded n a = map (number_at a) [0..<n]"

lemma number_at_beyond: "length a \<le> i \<Longrightarrow> number_at a i = 0"
  by (simp add: number_at_def)

text \<open>Comparing two releases is comparing them filled up with zeros to any common length.\<close>

lemma compare_release_padded:
  assumes "max (length a) (length b) \<le> n"
  shows "compare_release a b = cmp_list cmp_nat (padded n a) (padded n b)"
proof -
  let ?m = "max (length a) (length b)"
  let ?f = "\<lambda>i. cmp_nat (number_at a i) (number_at b i)"
  have "find (\<lambda>ord. ord \<noteq> Equal) (map ?f [?m..<n]) = None"
    by (auto simp: find_None_iff number_at_beyond nats.refl)
  moreover have "[0..<n] = [0..<?m] @ [?m..<n]" using assms by (metis le0 upt_add_eq_append le_add_diff_inverse)
  ultimately have "find (\<lambda>ord. ord \<noteq> Equal) (map ?f [0..<n]) = find (\<lambda>ord. ord \<noteq> Equal) (map ?f [0..<?m])"
    using find_append_None [of "\<lambda>ord. ord \<noteq> Equal" "map ?f [?m..<n]" "map ?f [0..<?m]"] by simp
  moreover have "map2 cmp_nat (padded n a) (padded n b) = map ?f [0..<n]"
    by (simp add: padded_def map2_map_map)
  ultimately show ?thesis
    using find_differs [of "padded n a" "padded n b" cmp_nat]
    by (simp add: compare_release_def Let_def padded_def)
qed

interpretation releases: comparison compare_release
proof -
  have cmp: "comparison (cmp_list cmp_nat)" by (rule comparison_list [OF nats.comparison_axioms])
  show "comparison compare_release"
  proof
    fix a b c :: "nat list"
    let ?n = "max (length a) (max (length b) (length c))"
    have p: "compare_release x y = cmp_list cmp_nat (padded ?n x) (padded ?n y)" if "x \<in> {a, b, c}" "y \<in> {a, b, c}" for x y
      using that by (intro compare_release_padded) auto
    show "compare_release a a = Equal" unfolding p [of a a, simplified] by (rule comparison.refl [OF cmp])
    show "compare_release b a = reversed (compare_release a b)"
      unfolding p [of a b, simplified] p [of b a, simplified] by (rule comparison.swap [OF cmp])
    show "compare_release a b \<noteq> Greater \<Longrightarrow> compare_release b c \<noteq> Greater \<Longrightarrow> compare_release a c \<noteq> Greater"
      unfolding p [of a b, simplified] p [of b c, simplified] p [of a c, simplified] by (rule comparison.trans [OF cmp])
  qed
qed

lemma op_convex:
  assumes "compare_release a b \<noteq> Greater" and "compare_release b c \<noteq> Greater"
    and "op_holds op (compare_release a w)" and "op_holds op (compare_release c w)"
  shows "op_holds op (compare_release b w)"
proof (cases op)
  case Ge
  then have "compare_release w a \<noteq> Greater" using assms(3) releases.swap_iff(3) by simp
  then have "compare_release w b \<noteq> Greater" using assms(1) by (rule releases.trans)
  then show ?thesis using Ge releases.swap_iff(3) by simp
next
  case Le
  then show ?thesis using assms(2,4) releases.trans by simp
next
  case Gt
  then have "compare_release w a = Less" using assms(3) releases.swap_iff(1) by simp
  then have "compare_release w b = Less" using assms(1) by (rule releases.less_le_trans)
  then show ?thesis using Gt releases.swap_iff(3) by simp
next
  case Lt
  then show ?thesis using assms(2,4) releases.le_less_trans by simp
next
  case Eq
  then have "compare_release w a \<noteq> Greater" "compare_release c w \<noteq> Greater"
    using assms(3,4) releases.swap_iff(3) by simp_all
  then have "compare_release w b \<noteq> Greater" "compare_release b w \<noteq> Greater"
    using assms(1,2) releases.trans by blast+
  then have "compare_release b w = Equal" using releases.swap_iff(3) ordering.exhaust by metis
  then show ?thesis using Eq by simp
qed

text \<open>The releases a range admits form an interval: a release that lies between two admitted ones is
  admitted. In particular \<open>3.20\<close> and \<open>3.20.0\<close>, which compare equal, are never told apart.\<close>

theorem range_convex:
  assumes "parse_release_number ra = Some a" and "parse_release_number rb = Some b"
    and "parse_release_number rc = Some c"
    and "compare_release a b \<noteq> Greater" and "compare_release b c \<noteq> Greater"
    and "range_contains r ra" and "range_contains r rc"
  shows "range_contains r rb"
proof -
  have "op_holds op (compare_release b w)" if "(op, w) \<in> set r" for op w
    using assms(6,7) that
    by (intro op_convex [OF assms(4,5)]) (auto simp: range_contains_def assms(1,3) clauses_hold_def list_all_iff)
  then show ?thesis by (auto simp: range_contains_def assms(2) clauses_hold_def list_all_iff)
qed

theorem range_convex_witness: "range_contains [(Ge, [3, 13]), (Le, [3, 20])] ''3.20.0''"
proof -
  have "parse_release_number ''3.20'' = Some [3, 20]" "parse_release_number ''3.20.0'' = Some [3, 20, 0]"
    "compare_release [3, 20] [3, 20, 0] = Equal" "compare_release [3, 20, 0] [3, 20] = Equal"
    "range_contains [(Ge, [3, 13]), (Le, [3, 20])] ''3.20''"
    by code_simp+
  then show ?thesis using range_convex [of "''3.20''" "[3, 20]" "''3.20.0''" "[3, 20, 0]" "''3.20''" "[3, 20]"] by simp
qed

section \<open>Accepted manifests\<close>

definition preload_inside :: "string \<Rightarrow> bool" where
  "preload_inside lib = (lib \<noteq> [] \<and> hd lib \<noteq> CHR ''/'' \<and> ''..'' \<notin> set (split_by (\<lambda>c. c = CHR ''/'') lib) \<and>
     valid_preload lib)"

definition env_pair_ok :: "string \<times> string \<Rightarrow> bool" where
  "env_pair_ok kv = (valid_env_key (fst kv) \<and> fst kv \<noteq> ''LD_PRELOAD'' \<and> valid_env_value (snd kv))"

definition range_entry_ok :: "string \<times> string \<Rightarrow> bool" where
  "range_entry_ok e = ((\<exists>m. slug (spec m) = fst e) \<and> (\<exists>r. range_parse (snd e) = Inr r))"

text \<open>What every manifest that is read satisfies.\<close>

definition manifest_ok :: "manifest \<Rightarrow> bool" where
  "manifest_ok m = (valid_name (man_name m) \<and> man_version m \<noteq> [] \<and> (\<forall>c \<in> set (man_version m). \<not> is_ws c) \<and>
     list_all preload_inside (man_preload m) \<and> list_all env_pair_ok (man_env m) \<and>
     list_all range_entry_ok (man_compat m))"

lemma mapM_sum_all:
  assumes "mapM_sum f xs = Inr ys" and "\<And>x y. f x = Inr y \<Longrightarrow> P y"
  shows "list_all P ys"
proof -
  have "list_all2 (\<lambda>x y. f x = Inr y) xs ys" using assms(1) by (simp add: mapM_sum_Inr_iff)
  then show ?thesis using assms(2) by (induction rule: list_all2_induct) auto
qed

lemma preload_item_ok: "preload_item x = Inr lib \<Longrightarrow> preload_inside lib"
  by (auto simp: preload_item_def bindR_eq_Inr preload_inside_def list_ex_iff split: if_splits)

lemma env_item_ok: "env_item x = Inr kv \<Longrightarrow> env_pair_ok kv"
  by (auto simp: env_item_def bindR_eq_Inr env_pair_ok_def split: if_splits prod.splits)

lemma declared_entry_ok: "declared_entry x = Inr e \<Longrightarrow> range_entry_ok e"
  by (auto simp: declared_entry_def bindR_eq_Inr range_entry_ok_def list_ex_iff
      split: if_splits prod.splits sum.splits)

lemma opt_field_all:
  assumes "opt_field p v = Inr ys" and "\<And>x zs. p x = Inr zs \<Longrightarrow> list_all P zs"
  shows "list_all P ys"
  using assms by (auto simp: opt_field_def split: option.splits)

lemma parse_preload_ok: "parse_preload v = Inr ls \<Longrightarrow> list_all preload_inside ls"
  by (auto simp: parse_preload_def bindR_eq_Inr intro: mapM_sum_all preload_item_ok)

lemma parse_env_ok: "parse_env v = Inr kvs \<Longrightarrow> list_all env_pair_ok kvs"
  by (auto simp: parse_env_def bindR_eq_Inr intro: mapM_sum_all env_item_ok)

lemma declared_parse_ok: "declared_parse v = Inr d \<Longrightarrow> list_all range_entry_ok d"
  by (auto simp: declared_parse_def bindR_eq_Inr intro: mapM_sum_all declared_entry_ok)

lemma parse_tables_ok:
  assumes "parse_tables from_toml t = Inr m"
  shows "manifest_ok m"
  using assms
  by (auto simp: parse_tables_def bindR_eq_Inr manifest_ok_def list_ex_iff split: if_splits
      intro: opt_field_all parse_preload_ok parse_env_ok declared_parse_ok)

lemma manifest_read_ok: "manifest_read from_toml d = Inr m \<Longrightarrow> manifest_ok m \<and> list_all (md_is_file d) (man_preload m)"
  by (auto simp: manifest_read_def bindR_eq_Inr find_None_iff list_all_iff dest: parse_tables_ok
      split: toml_file.splits option.splits)

end
