(* ===== verification/ModList.thy ===== *)
theory ModList
  imports ModManifest KvFile "HOL-Library.Multiset"
begin

text \<open>
  A slot's mods, \<open>crates/cdj3k-emu-storage/src/mods/list.rs\<close>, \<open>add.rs\<close> and \<open>report.rs\<close>. The state is
  the list in memory (\<open>SlotMods\<close>) and the slot's \<open>mods/\<close> folder: \<open>list.txt\<close>, the folders under
  \<open>installed/\<close>, the leftovers of interrupted adds with their ages, the last boot's report and
  journals, and the folders elsewhere that are used in place. Whether a write, a rename or a
  delete succeeds is an argument. Paths are UTF-8 and Unix paths.
\<close>

section \<open>The mods folder\<close>

datatype source = Installed string | Folder string

record slot_mod =
  sm_name :: string
  sm_source :: source
  sm_enabled :: bool

record leftover =
  lo_file :: string
  lo_age :: "nat option"
  lo_dir :: mod_dir

record mods_disk =
  d_list :: "string option"
  d_installed :: "string \<rightharpoonup> mod_dir"
  d_elsewhere :: "string \<rightharpoonup> mod_dir"
  d_leftovers :: "leftover list"
  d_report :: "string option"
  d_logs :: "string \<rightharpoonup> string"

text \<open>Where a mod's files are: in the slot's \<open>installed/\<close> folder or at a path elsewhere.\<close>

datatype mod_place = InInstalled string | Elsewhere string

definition is_absolute :: "string \<Rightarrow> bool" where
  "is_absolute p = starts_with ''/'' p"

text \<open>\<open>Path::file_name\<close>: the last component, unless the path ends in \<open>..\<close>.\<close>

definition file_name :: "string \<Rightarrow> string option" where
  "file_name p =
     (let parts = filter (\<lambda>c. c \<noteq> [] \<and> c \<noteq> ''.'') (split_by (\<lambda>c. c = CHR ''/'') p)
      in if parts = [] \<or> last parts = ''..'' then None else Some (last parts))"

definition no_folder :: mod_dir where
  "no_folder = \<lparr>md_toml = TomlAbsent, md_is_file = (\<lambda>_. False)\<rparr>"

definition or_none :: "mod_dir option \<Rightarrow> mod_dir" where
  "or_none d = (case d of None \<Rightarrow> no_folder | Some d \<Rightarrow> d)"

fun files_at :: "mods_disk \<Rightarrow> mod_place \<Rightarrow> mod_dir" where
  "files_at disk (InInstalled name) = or_none (d_installed disk name)"
| "files_at disk (Elsewhere path) = or_none (d_elsewhere disk path)"

section \<open>The list\<close>

type_synonym toml_parser = "string \<Rightarrow> (string \<times> toml) list option"

text \<open>The name of a folder used in place: from its \<open>mod.toml\<close>, else the folder's own.\<close>

definition folder_name :: "toml_parser \<Rightarrow> mods_disk \<Rightarrow> string \<Rightarrow> string \<Rightarrow> string" where
  "folder_name from_toml disk dflt path =
     (case manifest_read from_toml (files_at disk (Elsewhere path)) of
        Inr m \<Rightarrow> man_name m
      | Inl _ \<Rightarrow> (case file_name path of None \<Rightarrow> dflt | Some f \<Rightarrow> f))"

definition read_line :: "toml_parser \<Rightarrow> mods_disk \<Rightarrow> string \<Rightarrow> slot_mod option" where
  "read_line from_toml disk line =
     Option.bind (split_once (\<lambda>c. c = CHR '' '') line) (\<lambda>(state, entry).
     Option.bind (if state = ''on'' then Some True else if state = ''off'' then Some False else None) (\<lambda>enabled.
       if is_absolute entry
       then
         let name = folder_name from_toml disk entry entry
         in Some \<lparr>sm_name = name, sm_source = Folder entry, sm_enabled = enabled\<rparr>
       else
         let (name, origin) = (case split_once (\<lambda>c. c = CHR 0x09) entry of
                                 Some p \<Rightarrow> p
                               | None \<Rightarrow> (entry, entry))
         in if valid_name name
            then Some \<lparr>sm_name = name, sm_source = Installed origin, sm_enabled = enabled\<rparr>
            else None))"

definition push_new :: "slot_mod \<Rightarrow> slot_mod list \<Rightarrow> slot_mod list" where
  "push_new m mods =
     (if list_ex (\<lambda>kept. sm_name kept = sm_name m) mods then mods else mods @ [m])"

definition load_in :: "toml_parser \<Rightarrow> mods_disk \<Rightarrow> slot_mod list" where
  "load_in from_toml disk =
     (let t = (case d_list disk of None \<Rightarrow> [] | Some t \<Rightarrow> t)
      in fold push_new (List.map_filter (read_line from_toml disk) (lines t)) [])"

definition list_line :: "slot_mod \<Rightarrow> string" where
  "list_line m =
     (if sm_enabled m then ''on '' else ''off '') @
     (case sm_source m of
        Installed origin \<Rightarrow> sm_name m @ [CHR 0x09] @ origin
      | Folder path \<Rightarrow> path)"

definition list_text :: "slot_mod list \<Rightarrow> string" where
  "list_text mods = concat (map (\<lambda>m. list_line m @ [CHR ''\<newline>'']) mods)"

datatype mods_error =
    IoFailed
  | BadMod manifest_error
  | NoModAtRoot
  | InsideModsFolder
  | TooManyMods
  | NameTaken string
  | AlreadyCommitted

definition save_list :: "bool \<Rightarrow> slot_mod list \<Rightarrow> mods_disk \<Rightarrow> (mods_error + unit) \<times> mods_disk" where
  "save_list ok mods disk =
     (if ok then (Inr (), disk\<lparr>d_list := Some (list_text mods)\<rparr>) else (Inl IoFailed, disk))"

definition dir_of :: "slot_mod \<Rightarrow> mod_place" where
  "dir_of m = (case sm_source m of Installed _ \<Rightarrow> InInstalled (sm_name m) | Folder path \<Rightarrow> Elsewhere path)"

definition boot_id :: "toml_parser \<Rightarrow> mods_disk \<Rightarrow> slot_mod \<Rightarrow> string" where
  "boot_id from_toml disk m =
     (let src = (case sm_source m of Installed origin \<Rightarrow> origin | Folder path \<Rightarrow> path);
          version = (case manifest_read from_toml (files_at disk (dir_of m)) of
                       Inl _ \<Rightarrow> ''?''
                     | Inr man \<Rightarrow> man_version man)
      in sm_name m @ [CHR 0x09] @ src @ [CHR 0x09] @ version)"

definition get_mod :: "slot_mod list \<Rightarrow> string \<Rightarrow> slot_mod option" where
  "get_mod mods name = find (\<lambda>m. sm_name m = name) mods"

primrec position :: "('a \<Rightarrow> bool) \<Rightarrow> 'a list \<Rightarrow> nat option" where
  "position P [] = None"
| "position P (x # xs) = (if P x then Some 0 else map_option Suc (position P xs))"

definition remove_nth :: "nat \<Rightarrow> 'a list \<Rightarrow> 'a list" where
  "remove_nth i xs = take i xs @ drop (Suc i) xs"

definition insert_nth :: "nat \<Rightarrow> 'a \<Rightarrow> 'a list \<Rightarrow> 'a list" where
  "insert_nth i x xs = take i xs @ x # drop i xs"

section \<open>The last boot's report\<close>

definition line_n :: "string \<Rightarrow> string" where
  "line_n l = l @ [CHR ''\<newline>'']"

definition ID_LINE :: string where "ID_LINE = ''id ''"

definition last_boot_report :: "mods_disk \<Rightarrow> string option" where
  "last_boot_report disk =
     map_option (\<lambda>t. concat (map line_n (filter (\<lambda>l. \<not> starts_with ID_LINE l) (lines t)))) (d_report disk)"

definition report_text :: "string \<Rightarrow> string list \<Rightarrow> string" where
  "report_text t ids = concat (map line_n (lines t)) @ concat (map (\<lambda>i. ID_LINE @ i @ [CHR ''\<newline>'']) ids)"

definition save_last_boot_report ::
  "bool \<Rightarrow> string \<Rightarrow> string list \<Rightarrow> mods_disk \<Rightarrow> (mods_error + unit) \<times> mods_disk" where
  "save_last_boot_report ok t ids disk =
     (let disk = disk\<lparr>d_logs := (\<lambda>_. None)\<rparr>
      in if ok then (Inr (), disk\<lparr>d_report := Some (report_text t ids)\<rparr>) else (Inl IoFailed, disk))"

definition last_boot_ids :: "mods_disk \<Rightarrow> string list" where
  "last_boot_ids disk =
     (case d_report disk of
        None \<Rightarrow> []
      | Some t \<Rightarrow> List.map_filter (strip_prefix ID_LINE) (lines t))"

definition last_boot_log :: "mods_disk \<Rightarrow> string \<Rightarrow> string option" where
  "last_boot_log disk name = d_logs disk name"

definition save_last_boot_log ::
  "bool \<Rightarrow> string \<Rightarrow> string \<Rightarrow> mods_disk \<Rightarrow> (mods_error + unit) \<times> mods_disk" where
  "save_last_boot_log ok name t disk =
     (if ok then (Inr (), disk\<lparr>d_logs := (d_logs disk)(name \<mapsto> t)\<rparr>) else (Inl IoFailed, disk))"

definition reports_on :: "string \<Rightarrow> string \<Rightarrow> bool" where
  "reports_on name l =
     (let reported = Option.bind (strip_prefix ''mod '' l)
            (\<lambda>rest. case split_whitespace rest of [] \<Rightarrow> None | w # _ \<Rightarrow> Some w);
          boot = map_option (\<lambda>i. hd (split_by (\<lambda>c. c = CHR 0x09) i)) (strip_prefix ID_LINE l)
      in reported = Some name \<or> boot = Some name)"

definition forget_report :: "bool \<Rightarrow> string \<Rightarrow> mods_disk \<Rightarrow> mods_disk" where
  "forget_report ok name disk =
     (let disk = (case d_report disk of
            None \<Rightarrow> disk
          | Some t \<Rightarrow>
              let kept = concat (map line_n (filter (\<lambda>l. \<not> reports_on name l) (lines t)))
              in if kept \<noteq> t \<and> ok then disk\<lparr>d_report := Some kept\<rparr> else disk)
      in disk\<lparr>d_logs := (d_logs disk)(name := None)\<rparr>)"

section \<open>Changing the list\<close>

text \<open>Deleting a folder: done, or failed with what is left of it.\<close>

datatype delete_outcome = Deleted | DeleteFailed mod_dir

definition remove_mod ::
  "bool \<Rightarrow> bool \<Rightarrow> delete_outcome \<Rightarrow> string \<Rightarrow> slot_mod list \<Rightarrow> mods_disk \<Rightarrow>
     (mods_error + unit) \<times> slot_mod list \<times> mods_disk" where
  "remove_mod save_ok forget_ok del name mods disk =
     (case position (\<lambda>m. sm_name m = name) mods of
        None \<Rightarrow> (Inr (), mods, disk)
      | Some i \<Rightarrow>
          let m = mods ! i; mods = remove_nth i mods
          in (case save_list save_ok mods disk of
                (Inl e, disk) \<Rightarrow> (Inl e, mods, disk)
              | (Inr _, disk) \<Rightarrow>
                  let disk = forget_report forget_ok (sm_name m) disk
                  in (case sm_source m of
                        Folder _ \<Rightarrow> (Inr (), mods, disk)
                      | Installed _ \<Rightarrow>
                          if d_installed disk (sm_name m) = None then (Inr (), mods, disk)
                          else (case del of
                                  Deleted \<Rightarrow> (Inr (), mods, disk\<lparr>d_installed := (d_installed disk)(sm_name m := None)\<rparr>)
                                | DeleteFailed d \<Rightarrow>
                                    (Inl IoFailed, mods, disk\<lparr>d_installed := (d_installed disk)(sm_name m \<mapsto> d)\<rparr>)))))"

definition set_enabled ::
  "bool \<Rightarrow> string \<Rightarrow> bool \<Rightarrow> slot_mod list \<Rightarrow> mods_disk \<Rightarrow> (mods_error + unit) \<times> slot_mod list \<times> mods_disk" where
  "set_enabled ok name enabled mods disk =
     (let mods = (case position (\<lambda>m. sm_name m = name) mods of
                    None \<Rightarrow> mods
                  | Some i \<Rightarrow> mods[i := (mods ! i)\<lparr>sm_enabled := enabled\<rparr>]);
          (r, disk) = save_list ok mods disk
      in (r, mods, disk))"

definition moved_to :: "nat \<Rightarrow> nat \<Rightarrow> 'a list \<Rightarrow> 'a list" where
  "moved_to a b xs =
     (if a < length xs \<and> b < length xs \<and> a \<noteq> b then insert_nth b (xs ! a) (remove_nth a xs) else xs)"

definition reorder ::
  "bool \<Rightarrow> nat \<Rightarrow> nat \<Rightarrow> slot_mod list \<Rightarrow> mods_disk \<Rightarrow> (mods_error + unit) \<times> slot_mod list \<times> mods_disk" where
  "reorder ok a b mods disk =
     (let mods = moved_to a b mods; (r, disk) = save_list ok mods disk in (r, mods, disk))"

section \<open>Adding a mod\<close>

definition MAX_MODS :: nat where "MAX_MODS = 10"
definition LEFTOVER_AGE :: nat where "LEFTOVER_AGE = 3600"

datatype pending_kind = Archive mod_dir | PlainFolder string

record pending_add =
  pa_manifest :: manifest
  pa_replaces :: "string option"
  pa_origin :: string
  pa_kind :: "pending_kind option"

text \<open>\<open><pid>-<nanos>-<name>\<close> after \<open>.replaced-\<close>: the name, \<open>splitn(3, '-').nth(2)\<close>.\<close>

definition third_part :: "string \<Rightarrow> string option" where
  "third_part s =
     Option.bind (split_once (\<lambda>c. c = CHR ''-'') s) (\<lambda>(_, r).
       map_option snd (split_once (\<lambda>c. c = CHR ''-'') r))"

definition is_leftover :: "string \<Rightarrow> bool" where
  "is_leftover file =
     (list_ex (\<lambda>p. starts_with p file) [''.add-'', ''.download-'', ''.replaced-''] \<or>
      strip_suffix ''.tmp'' file \<noteq> None)"

definition drop_leftover :: "string \<Rightarrow> mods_disk \<Rightarrow> mods_disk" where
  "drop_leftover file disk = disk\<lparr>d_leftovers := filter (\<lambda>l. lo_file l \<noteq> file) (d_leftovers disk)\<rparr>"

definition sweep_entry :: "(string \<Rightarrow> bool) \<Rightarrow> slot_mod list \<Rightarrow> leftover \<Rightarrow> mods_disk \<Rightarrow> mods_disk" where
  "sweep_entry ok mods l disk =
     (let file = lo_file l;
          old = (case lo_age l of None \<Rightarrow> False | Some age \<Rightarrow> LEFTOVER_AGE \<le> age)
      in if \<not> is_leftover file \<or> \<not> old then disk
      else
        let name = keep_if valid_name (Option.bind (strip_prefix ''.replaced-'' file) third_part);
            gone = (if ok file then drop_leftover file disk else disk)
        in (case name of
              Some n \<Rightarrow>
                if get_mod mods n \<noteq> None \<and> d_installed disk n = None
                then (if ok file
                      then gone\<lparr>d_installed := (d_installed disk)(n \<mapsto> lo_dir l)\<rparr>
                      else disk)
                else gone
            | None \<Rightarrow> gone))"

definition sweep :: "(string \<Rightarrow> bool) \<Rightarrow> slot_mod list \<Rightarrow> mods_disk \<Rightarrow> mods_disk" where
  "sweep ok mods disk = fold (sweep_entry ok mods) (d_leftovers disk) disk"

definition clean_origin :: "string \<Rightarrow> string" where
  "clean_origin s = map (\<lambda>c. if c = CHR 0x09 \<or> c = CHR ''\<newline>'' then CHR '' '' else c) s"

text \<open>Unpacking: the entries the tar reader yields, \<open>None\<close> where it fails, each with its declared
  size and whether its extraction failed, left the folder or succeeded. The running total is a
  64-bit sum, which wraps in a release build.\<close>

datatype tar_kind = TarFile | TarDir | TarPaxGlobal | TarPaxLocal | TarOther

datatype extracted = ExtractFailed | Outside | Extracted

record tar_entry =
  te_kind :: tar_kind
  te_mode :: "u32 option"
  te_size :: u64
  te_result :: extracted

definition UNPACKED_LIMIT :: nat where "UNPACKED_LIMIT = 2 ^ 30"
definition ENTRY_LIMIT :: nat where "ENTRY_LIMIT = 10000"

datatype unpack_error = TarRead | TooManyEntries | NotFileOrFolder | OwnerCannotRead | TooLarge | ExtractError | PointsOutside

definition owner_reads :: "tar_kind \<Rightarrow> u32 option \<Rightarrow> bool" where
  "owner_reads k mode =
     (let needs = (if k = TarDir then 0x1C0 else 0x180)
      in case mode of None \<Rightarrow> True | Some m \<Rightarrow> m AND needs = needs)"

fun unpack_loop :: "nat \<Rightarrow> u64 \<Rightarrow> tar_entry option list \<Rightarrow> unpack_error + u64" where
  "unpack_loop n tot [] = Inr tot"
| "unpack_loop n tot (e # es) =
     (if ENTRY_LIMIT \<le> n then Inl TooManyEntries
      else case e of
        None \<Rightarrow> Inl TarRead
      | Some e \<Rightarrow>
          if te_kind e = TarPaxGlobal \<or> te_kind e = TarPaxLocal then unpack_loop (Suc n) tot es
          else if te_kind e = TarOther then Inl NotFileOrFolder
          else if \<not> owner_reads (te_kind e) (te_mode e) then Inl OwnerCannotRead
          else
            let tot = tot + te_size e
            in if UNPACKED_LIMIT < unat tot then Inl TooLarge
               else (case te_result e of
                       ExtractFailed \<Rightarrow> Inl ExtractError
                     | Outside \<Rightarrow> Inl PointsOutside
                     | Extracted \<Rightarrow> unpack_loop (Suc n) tot es))"

definition unpack_entries :: "tar_entry option list \<Rightarrow> unpack_error + u64" where
  "unpack_entries es = unpack_loop 0 0 es"

text \<open>\<open>Capped\<close>: one read into a buffer of \<open>len\<close> bytes, of which the inner reader fills some.\<close>

definition capped_read :: "(nat \<Rightarrow> nat option) \<Rightarrow> nat \<Rightarrow> nat \<Rightarrow> (unpack_error + nat) \<times> nat" where
  "capped_read inner len left =
     (if left = 0 then (Inl TooLarge, left)
      else (case inner (min len left) of
              None \<Rightarrow> (Inl TarRead, left)
            | Some n \<Rightarrow> (Inr n, left - n)))"

text \<open>What the unpacked archive holds: the folder itself and the folders directly in it.\<close>

record unpacked =
  up_root :: mod_dir
  up_dirs :: "mod_dir list"

definition mod_root :: "unpacked \<Rightarrow> mod_dir option" where
  "mod_root u =
     (if md_is_file (up_root u) ''mod.toml'' then Some (up_root u)
      else (case up_dirs u of
              [only] \<Rightarrow> if md_is_file only ''mod.toml'' then Some only else None
            | _ \<Rightarrow> None))"

definition read_archive ::
  "toml_parser \<Rightarrow> unpacked option \<Rightarrow> mods_error + manifest \<times> pending_kind" where
  "read_archive from_toml u =
     bindR (ok_or IoFailed u) (\<lambda>u.
     bindR (ok_or NoModAtRoot (mod_root u)) (\<lambda>root.
       (case manifest_read from_toml root of
          Inl e \<Rightarrow> Inl (BadMod e)
        | Inr m \<Rightarrow> Inr (m, Archive root))))"

text \<open>A path as the file system sees it: the components of its canonical form, which is
  absolute, and whether that is inside the slot's own mods folder.\<close>

record real_path =
  rp_parts :: "string list"
  rp_inside :: bool

definition rp_path :: "real_path \<Rightarrow> string" where
  "rp_path rp = ''/'' @ join ''/'' (rp_parts rp)"

definition read_folder ::
  "toml_parser \<Rightarrow> mods_disk \<Rightarrow> real_path option \<Rightarrow> mods_error + manifest \<times> pending_kind \<times> string" where
  "read_folder from_toml disk rp =
     bindR (ok_or IoFailed rp) (\<lambda>folder.
       if rp_inside folder then Inl InsideModsFolder
       else (case manifest_read from_toml (files_at disk (Elsewhere (rp_path folder))) of
               Inl e \<Rightarrow> Inl (BadMod e)
             | Inr m \<Rightarrow> Inr (m, PlainFolder (rp_path folder), rp_path folder)))"

text \<open>What is at the path to add: a folder, or a \<open>mod.toml\<close> whose folder is meant, or a file to
  unpack.\<close>

datatype add_path = AddFolder "real_path option" | AddArchive "unpacked option"

definition prepare_add ::
  "toml_parser \<Rightarrow> (string \<Rightarrow> bool) \<Rightarrow> string \<Rightarrow> add_path \<Rightarrow> string option \<Rightarrow> slot_mod list \<Rightarrow> mods_disk \<Rightarrow>
     (mods_error + pending_add) \<times> mods_disk" where
  "prepare_add from_toml sweep_ok path what origin mods disk0 =
     (let disk = sweep sweep_ok mods disk0;
          rd = (case what of
                  AddFolder rp \<Rightarrow> read_folder from_toml disk rp
                | AddArchive u \<Rightarrow>
                    bindR (read_archive from_toml u) (\<lambda>(m, k).
                      Inr (m, k, (case origin of
                                    Some o' \<Rightarrow> o'
                                  | None \<Rightarrow> (case file_name path of Some f \<Rightarrow> f | None \<Rightarrow> path)))))
      in (bindR rd (\<lambda>(manifest, kind, origin).
            let replaces = map_option (\<lambda>old.
                  (case manifest_read from_toml (files_at disk (dir_of old)) of
                     Inr m \<Rightarrow> man_version m
                   | Inl _ \<Rightarrow> ''?'')) (get_mod mods (man_name manifest))
            in if replaces = None \<and> MAX_MODS \<le> length mods then Inl TooManyMods
               else Inr \<lparr>pa_manifest = manifest, pa_replaces = replaces,
                         pa_origin = clean_origin origin, pa_kind = Some kind\<rparr>),
          disk))"

text \<open>The rename of the current folder to \<open>.replaced-<suffix>-<name>\<close>.\<close>

definition aside_name :: "string \<Rightarrow> string \<Rightarrow> string" where
  "aside_name suffix name = ''.replaced-'' @ suffix @ ''-'' @ name"

definition step_aside :: "string \<Rightarrow> string \<Rightarrow> mods_disk \<Rightarrow> mods_disk option" where
  "step_aside suffix name disk =
     map_option (\<lambda>d. disk\<lparr>d_installed := (d_installed disk)(name := None),
        d_leftovers := d_leftovers disk @ [\<lparr>lo_file = aside_name suffix name, lo_age = Some 0, lo_dir = d\<rparr>]\<rparr>)
       (d_installed disk name)"

text \<open>The outcomes of the file operations of \<open>commit\<close>: the rename aside, the move of the new
  copy, the move back, the delete of the old copy, the save, and the rewrite of the report.\<close>

record commit_io =
  io_aside :: bool
  io_move :: bool
  io_back :: bool
  io_delete :: bool
  io_save :: bool
  io_forget :: bool

definition place_files ::
  "commit_io \<Rightarrow> string \<Rightarrow> pending_add \<Rightarrow> mods_disk \<Rightarrow> (mods_error + source) \<times> mods_disk" where
  "place_files io suffix a disk0 =
     (let name = man_name (pa_manifest a);
          stepped = (if io_aside io then step_aside suffix name disk0 else None);
          disk = (case stepped of None \<Rightarrow> disk0 | Some d \<Rightarrow> d)
      in (case pa_kind a of
            None \<Rightarrow> (Inl AlreadyCommitted, disk)
          | Some (PlainFolder folder) \<Rightarrow> (Inr (Folder folder), disk)
          | Some (Archive folder) \<Rightarrow>
              if io_move io
              then (Inr (Installed (pa_origin a)), disk\<lparr>d_installed := (d_installed disk)(name \<mapsto> folder)\<rparr>)
              else (Inl IoFailed,
                    if stepped \<noteq> None \<and> io_back io
                    then (drop_leftover (aside_name suffix name) disk)
                           \<lparr>d_installed := (d_installed disk)(name := d_installed disk0 name)\<rparr>
                    else disk)))"

definition enter_mod :: "slot_mod \<Rightarrow> slot_mod list \<Rightarrow> slot_mod list" where
  "enter_mod e mods =
     (case position (\<lambda>m. sm_name m = sm_name e) mods of
        Some i \<Rightarrow> mods[i := e]
      | None \<Rightarrow> mods @ [e])"

definition commit ::
  "commit_io \<Rightarrow> string \<Rightarrow> pending_add \<Rightarrow> slot_mod list \<Rightarrow> mods_disk \<Rightarrow>
     (mods_error + string) \<times> slot_mod list \<times> mods_disk" where
  "commit io suffix a mods disk =
     (let name = man_name (pa_manifest a);
          pos = position (\<lambda>m. sm_name m = name) mods;
          enabled = (case pos of None \<Rightarrow> True | Some i \<Rightarrow> sm_enabled (mods ! i))
      in (case place_files io suffix a disk of
            (Inl e, disk) \<Rightarrow> (Inl e, mods, disk)
          | (Inr src, disk) \<Rightarrow>
              let disk = (if io_delete io then drop_leftover (aside_name suffix name) disk else disk);
                  mods = enter_mod \<lparr>sm_name = name, sm_source = src, sm_enabled = enabled\<rparr> mods;
                  disk = (if pos \<noteq> None then forget_report (io_forget io) name disk else disk)
              in (case save_list (io_save io) mods disk of
                    (Inl e, disk) \<Rightarrow> (Inl e, mods, disk)
                  | (Inr _, disk) \<Rightarrow> (Inr name, mods, disk))))"

definition add_mod ::
  "toml_parser \<Rightarrow> (string \<Rightarrow> bool) \<Rightarrow> commit_io \<Rightarrow> string \<Rightarrow> string \<Rightarrow> add_path \<Rightarrow> string option \<Rightarrow>
     slot_mod list \<Rightarrow> mods_disk \<Rightarrow> (mods_error + string) \<times> slot_mod list \<times> mods_disk" where
  "add_mod from_toml sweep_ok io suffix path what origin mods disk =
     (case prepare_add from_toml sweep_ok path what origin mods disk of
        (Inl e, disk) \<Rightarrow> (Inl e, mods, disk)
      | (Inr a, disk) \<Rightarrow>
          if pa_replaces a \<noteq> None then (Inl (NameTaken (man_name (pa_manifest a))), mods, disk)
          else commit io suffix a mods disk)"

section \<open>The list file\<close>

lemma position_Some:
  "position P xs = Some i \<longleftrightarrow> i < length xs \<and> P (xs ! i) \<and> (\<forall>j < i. \<not> P (xs ! j))"
proof (induction xs arbitrary: i)
  case (Cons x xs)
  show ?case
  proof (cases i)
    case (Suc k)
    have "(\<forall>j < Suc k. \<not> P ((x # xs) ! j)) \<longleftrightarrow> \<not> P x \<and> (\<forall>j < k. \<not> P (xs ! j))"
      by (simp add: All_less_Suc2)
    then show ?thesis using Suc Cons.IH [of k] by auto
  qed simp
qed simp

lemma position_None: "position P xs = None \<longleftrightarrow> (\<forall>x \<in> set xs. \<not> P x)"
  by (induction xs) auto

lemma mset_remove_nth: "i < length xs \<Longrightarrow> mset (remove_nth i xs) = mset xs - {#xs ! i#}"
  by (subst (2) id_take_nth_drop) (auto simp: remove_nth_def)

lemma mset_insert_nth: "mset (insert_nth i x xs) = add_mset x (mset xs)"
  by (metis insert_nth_def append_take_drop_id mset_append mset.simps(2) union_mset_add_mset_right)

lemma mset_moved_to: "mset (moved_to a b xs) = mset xs"
  by (auto simp: moved_to_def mset_insert_nth mset_remove_nth)

text \<open>A list that its file keeps: no line breaks in a path or an origin, folders at absolute
  paths and under the names they have, installed mods under valid names.\<close>

definition breaks_line :: "string \<Rightarrow> bool" where
  "breaks_line s = (CHR ''\<newline>'' \<in> set s \<or> (s \<noteq> [] \<and> last s = CHR 0x0D))"

definition entry_named :: "toml_parser \<Rightarrow> mods_disk \<Rightarrow> slot_mod \<Rightarrow> bool" where
  "entry_named from_toml disk m =
     (case sm_source m of
        Installed origin \<Rightarrow> valid_name (sm_name m)
      | Folder path \<Rightarrow> is_absolute path \<and> sm_name m = folder_name from_toml disk path path)"

definition one_line :: "slot_mod \<Rightarrow> bool" where
  "one_line m = (case sm_source m of Installed origin \<Rightarrow> \<not> breaks_line origin | Folder path \<Rightarrow> \<not> breaks_line path)"

lemma valid_name_char:
  assumes "valid_name n" and "c \<in> set n"
  shows "c \<noteq> CHR 0x09 \<and> c \<noteq> CHR ''\<newline>'' \<and> c \<noteq> CHR ''/'' \<and> c \<noteq> CHR '' ''"
proof -
  have "is_lower c \<or> is_digit c \<or> c \<in> set ''._-''"
    using assms by (auto simp: valid_name_def list_all_iff)
  then show ?thesis by (auto simp: is_lower_def is_digit_def)
qed

lemma valid_name_relative: "valid_name n \<Longrightarrow> \<not> is_absolute (n @ CHR 0x09 # r)"
  using valid_name_char [of n "hd n"] by (cases n) (auto simp: is_absolute_def starts_with_def valid_name_def)

lemma list_line_read:
  assumes "entry_named from_toml disk m"
  shows "read_line from_toml disk (list_line m) = Some m"
proof -
  let ?s = "if sm_enabled m then ''on'' else ''off''"
  let ?e = "case sm_source m of Installed origin \<Rightarrow> sm_name m @ [CHR 0x09] @ origin | Folder path \<Rightarrow> path"
  have "list_line m = ?s @ CHR '' '' # ?e" by (simp add: list_line_def split: source.split)
  moreover have "\<forall>c \<in> set ?s. c \<noteq> CHR '' ''" by auto
  ultimately have split: "split_once (\<lambda>c. c = CHR '' '') (list_line m) = Some (?s, ?e)"
    by (simp only: split_once_append)
  show ?thesis
  proof (cases "sm_source m")
    case (Folder p)
    then show ?thesis using assms unfolding read_line_def split
      by (cases m) (simp add: entry_named_def)
  next
    case (Installed o')
    then have name: "valid_name (sm_name m)" using assms by (simp add: entry_named_def)
    then have "\<forall>c \<in> set (sm_name m). c \<noteq> CHR 0x09" using valid_name_char by blast
    then have "split_once (\<lambda>c. c = CHR 0x09) (sm_name m @ CHR 0x09 # o') = Some (sm_name m, o')"
      by (simp only: split_once_append)
    then show ?thesis using Installed name valid_name_relative [OF name, of o'] unfolding read_line_def split
      by (cases m) simp
  qed
qed

lemma fold_push_new:
  "distinct (map sm_name (ms @ xs)) \<Longrightarrow> fold push_new xs ms = ms @ xs"
proof (induction xs arbitrary: ms)
  case (Cons x xs)
  then have "push_new x ms = ms @ [x]" by (auto simp: push_new_def list_ex_iff image_iff)
  then show ?case using Cons by simp
qed simp

lemma list_line_whole:
  assumes "entry_named from_toml disk m" and "one_line m"
  shows "CHR ''\<newline>'' \<notin> set (list_line m)" "end_line (CHR 0x0D) (list_line m) = list_line m"
proof -
  show "CHR ''\<newline>'' \<notin> set (list_line m)"
    using assms valid_name_char [of "sm_name m"]
    by (auto simp: list_line_def entry_named_def one_line_def breaks_line_def split: source.splits)
  have "list_line m \<noteq> []" by (simp add: list_line_def)
  moreover have "last (list_line m) \<noteq> CHR 0x0D"
    using assms by (auto simp: list_line_def entry_named_def one_line_def breaks_line_def is_absolute_def starts_with_def split: source.splits)
  ultimately show "end_line (CHR 0x0D) (list_line m) = list_line m" by (rule end_line_id)
qed

lemma load_text:
  assumes "d_list disk = Some (list_text mods)" and "distinct (map sm_name mods)"
    and kept: "\<forall>m \<in> set mods. entry_named from_toml disk m" "\<forall>m \<in> set mods. one_line m"
  shows "load_in from_toml disk = mods"
proof -
  have "list_text mods = concat (map (\<lambda>l. l @ [CHR ''\<newline>'']) (map list_line mods))"
    by (simp add: list_text_def comp_def)
  moreover have "\<forall>l \<in> set (map list_line mods). CHR ''\<newline>'' \<notin> set l"
    using kept list_line_whole(1) by auto
  ultimately have "lines (list_text mods) = map (end_line (CHR 0x0D)) (map list_line mods)"
    by (simp only: lines_terminated)
  also have "\<dots> = map list_line mods" using kept list_line_whole(2) [of from_toml disk] by (simp add: comp_def)
  finally have "lines (list_text mods) = map list_line mods" .
  moreover have "List.map_filter (read_line from_toml disk) (map list_line mods) = mods"
    using kept list_line_read by (intro map_filter_Some) blast
  ultimately show ?thesis using assms fold_push_new [of "[]" mods] by (simp add: load_in_def)
qed

section \<open>Every change keeps the list and its file in step\<close>

definition slot_named :: "toml_parser \<Rightarrow> slot_mod list \<Rightarrow> mods_disk \<Rightarrow> bool" where
  "slot_named ft mods disk =
     (distinct (map sm_name mods) \<and> length mods \<le> MAX_MODS \<and> list_all (entry_named ft disk) mods)"

lemma folder_name_cong: "d_elsewhere disk' = d_elsewhere disk \<Longrightarrow> folder_name ft disk' = folder_name ft disk"
  by (intro ext) (simp add: folder_name_def)

lemma load_in_cong:
  assumes "d_list disk' = d_list disk" and "d_elsewhere disk' = d_elsewhere disk"
  shows "load_in ft disk' = load_in ft disk"
proof -
  have "read_line ft disk' = read_line ft disk"
    by (intro ext) (simp only: read_line_def folder_name_cong [OF assms(2)] cong: if_cong)
  then show ?thesis using assms(1) by (simp add: load_in_def)
qed

lemma entry_named_cong: "d_elsewhere disk' = d_elsewhere disk \<Longrightarrow> entry_named ft disk' = entry_named ft disk"
  unfolding entry_named_def using folder_name_cong [of disk' disk ft] by (simp cong: source.case_cong)

text \<open>The contract of an operation on the list: it leaves the folders elsewhere alone, keeps the
  names distinct, valid and at most ten, and when it succeeds it has written the list it leaves
  in memory or changed neither.\<close>

locale list_op =
  fixes ft :: toml_parser
    and op :: "slot_mod list \<Rightarrow> mods_disk \<Rightarrow> (mods_error + 'r) \<times> slot_mod list \<times> mods_disk"
  assumes elsewhere: "op mods disk = (r, mods', disk') \<Longrightarrow> d_elsewhere disk' = d_elsewhere disk"
    and named: "op mods disk = (r, mods', disk') \<Longrightarrow> slot_named ft mods disk \<Longrightarrow> slot_named ft mods' disk'"
    and written: "op mods disk = (Inr x, mods', disk') \<Longrightarrow>
      d_list disk' = Some (list_text mods') \<or> mods' = mods \<and> d_list disk' = d_list disk"
begin

lemma restart:
  assumes "op mods disk = (Inr x, mods', disk')" and "slot_named ft mods disk"
    and "load_in ft disk = mods" and "list_all one_line mods'"
  shows "load_in ft disk' = mods'"
  using written [OF assms(1)]
proof
  assume "d_list disk' = Some (list_text mods')"
  then show ?thesis
    using load_text named [OF assms(1,2)] assms(4) by (simp add: slot_named_def list_all_iff)
next
  assume "mods' = mods \<and> d_list disk' = d_list disk"
  then show ?thesis using load_in_cong elsewhere [OF assms(1)] assms(3) by metis
qed

end

lemma save_list_disk:
  "save_list ok mods disk = (r, disk') \<Longrightarrow>
   d_elsewhere disk' = d_elsewhere disk \<and> (\<not> isl r \<longrightarrow> d_list disk' = Some (list_text mods))"
  by (auto simp: save_list_def split: if_splits)

lemma forget_report_disk [simp]:
  "d_elsewhere (forget_report ok name disk) = d_elsewhere disk"
  "d_list (forget_report ok name disk) = d_list disk"
  by (auto simp: forget_report_def Let_def split: option.split)

lemma slot_named_mset:
  assumes "mset mods' = mset mods" and "slot_named ft mods disk"
  shows "slot_named ft mods' disk"
proof -
  have eq: "set mods' = set mods" "length mods' = length mods" "mset (map sm_name mods') = mset (map sm_name mods)"
    using assms(1) mset_eq_setD mset_eq_length by (auto simp: mset_map)
  have "distinct (map sm_name mods') = distinct (map sm_name mods)" by (rule mset_eq_imp_distinct_iff [OF eq(3)])
  then show ?thesis using assms(2) eq(1,2) by (simp add: slot_named_def list_all_iff)
qed

lemma slot_named_disk: "d_elsewhere disk' = d_elsewhere disk \<Longrightarrow> slot_named ft mods disk' = slot_named ft mods disk"
  unfolding slot_named_def using entry_named_cong [of disk' disk ft] by simp

lemma slot_named_remove: "slot_named ft mods disk \<Longrightarrow> slot_named ft (remove_nth i mods) disk"
proof -
  assume s: "slot_named ft mods disk"
  have "map sm_name (remove_nth i mods) = take i (map sm_name mods) @ drop (Suc i) (map sm_name mods)"
    by (simp add: remove_nth_def take_map drop_map)
  moreover have "distinct (take i (map sm_name mods) @ drop (Suc i) (map sm_name mods))"
    using s set_take_disj_set_drop_if_distinct [of "map sm_name mods" i "Suc i"]
    unfolding slot_named_def distinct_append by simp
  moreover have "list_all (entry_named ft disk) (remove_nth i mods)"
    using s by (auto simp: slot_named_def list_all_iff remove_nth_def dest: in_set_takeD in_set_dropD)
  moreover have "length (remove_nth i mods) \<le> length mods" by (simp add: remove_nth_def)
  ultimately show ?thesis using s unfolding slot_named_def by simp
qed

lemma slot_named_update:
  assumes "slot_named ft mods disk" and "sm_name e = sm_name (mods ! i)" and "entry_named ft disk e"
  shows "slot_named ft (mods[i := e]) disk"
proof -
  have "map sm_name (mods[i := e]) = map sm_name mods"
    using assms(2) by (simp add: map_update) (metis list_update_beyond list_update_id map_update not_le)
  moreover have "list_all (entry_named ft disk) (mods[i := e])"
    using assms set_update_subset_insert by (fastforce simp: slot_named_def list_all_iff)
  ultimately show ?thesis using assms(1) by (simp add: slot_named_def)
qed

lemma slot_named_append:
  assumes "slot_named ft mods disk" and "position (\<lambda>m. sm_name m = sm_name e) mods = None"
    and "length mods < MAX_MODS" and "entry_named ft disk e"
  shows "slot_named ft (mods @ [e]) disk"
  using assms by (auto simp: slot_named_def position_None)

lemma remove_mod_result:
  assumes "remove_mod s f d name mods disk = (r, mods', disk')"
  shows "d_elsewhere disk' = d_elsewhere disk \<and>
    (mods' = mods \<and> disk' = disk \<or>
     (\<exists>i. mods' = remove_nth i mods) \<and> (isl r \<or> d_list disk' = Some (list_text mods')))"
proof (cases "position (\<lambda>m. sm_name m = name) mods")
  case None
  then show ?thesis using assms by (simp add: remove_mod_def)
next
  case (Some i)
  have "mods' = remove_nth i mods"
    using assms Some by (cases s; cases "sm_source (mods ! i)"; cases d)
      (simp_all add: remove_mod_def Let_def save_list_def split: if_splits)
  moreover have "d_elsewhere disk' = d_elsewhere disk"
    using assms Some by (cases s; cases "sm_source (mods ! i)"; cases d)
      (simp_all add: remove_mod_def Let_def save_list_def split: if_splits, auto?)
  moreover have "isl r \<or> d_list disk' = Some (list_text (remove_nth i mods))"
    using assms Some by (cases s; cases "sm_source (mods ! i)"; cases d)
      (simp_all add: remove_mod_def Let_def save_list_def split: if_splits, auto?)
  ultimately show ?thesis by blast
qed

interpretation removing: list_op ft "remove_mod s f d name" for ft s f d name
proof
  fix mods disk mods' disk' and r :: "mods_error + unit"
  assume op: "remove_mod s f d name mods disk = (r, mods', disk')"
  show "d_elsewhere disk' = d_elsewhere disk" using remove_mod_result [OF op] by blast
  assume s: "slot_named ft mods disk"
  have "slot_named ft mods' disk" using remove_mod_result [OF op] s slot_named_remove [OF s] by auto
  then show "slot_named ft mods' disk'" using slot_named_disk remove_mod_result [OF op] by blast
next
  fix mods disk mods' disk' and x :: unit
  assume "remove_mod s f d name mods disk = (Inr x, mods', disk')"
  then show "d_list disk' = Some (list_text mods') \<or> mods' = mods \<and> d_list disk' = d_list disk"
    using remove_mod_result [of s f d name mods disk "Inr x" mods' disk'] by auto
qed

interpretation enabling: list_op ft "set_enabled ok name e" for ft ok name e
proof
  fix mods disk mods' disk' and r :: "mods_error + unit"
  assume op: "set_enabled ok name e mods disk = (r, mods', disk')"
  then show el: "d_elsewhere disk' = d_elsewhere disk"
    by (auto simp: set_enabled_def Let_def save_list_def split: if_splits)
  assume s: "slot_named ft mods disk"
  have "mods' = mods \<or> (\<exists>i < length mods. mods' = mods[i := (mods ! i)\<lparr>sm_enabled := e\<rparr>])"
    using op by (auto simp: set_enabled_def Let_def save_list_def position_Some split: if_splits option.splits)
  moreover have "slot_named ft (mods[i := (mods ! i)\<lparr>sm_enabled := e\<rparr>]) disk" if "i < length mods" for i
  proof (rule slot_named_update [OF s])
    have "entry_named ft disk (mods ! i)" using s that by (simp add: slot_named_def list_all_length)
    then show "entry_named ft disk ((mods ! i)\<lparr>sm_enabled := e\<rparr>)" 
      by (simp add: entry_named_def split: source.splits)
  qed simp
  ultimately show "slot_named ft mods' disk'" using s slot_named_disk [OF el] by auto
next
  fix mods disk mods' disk' and x :: unit
  assume "set_enabled ok name e mods disk = (Inr x, mods', disk')"
  then show "d_list disk' = Some (list_text mods') \<or> mods' = mods \<and> d_list disk' = d_list disk"
    by (auto simp: set_enabled_def Let_def save_list_def split: if_splits)
qed

interpretation ordering: list_op ft "reorder ok a b" for ft ok a b
proof
  fix mods disk mods' disk' and r :: "mods_error + unit"
  assume op: "reorder ok a b mods disk = (r, mods', disk')"
  then show el: "d_elsewhere disk' = d_elsewhere disk"
    by (auto simp: reorder_def Let_def save_list_def split: if_splits)
  assume s: "slot_named ft mods disk"
  have "mods' = moved_to a b mods" using op by (auto simp: reorder_def Let_def save_list_def split: if_splits)
  then show "slot_named ft mods' disk'"
    using slot_named_mset [OF mset_moved_to s] slot_named_disk [OF el] by simp
next
  fix mods disk mods' disk' and x :: unit
  assume "reorder ok a b mods disk = (Inr x, mods', disk')"
  then show "d_list disk' = Some (list_text mods') \<or> mods' = mods \<and> d_list disk' = d_list disk"
    by (auto simp: reorder_def Let_def save_list_def split: if_splits)
qed

lemma sweep_disk [simp]: "d_elsewhere (sweep ok mods disk) = d_elsewhere disk" "d_list (sweep ok mods disk) = d_list disk"
proof -
  have step: "d_elsewhere (sweep_entry ok mods l disk) = d_elsewhere disk \<and> d_list (sweep_entry ok mods l disk) = d_list disk" for l disk
    by (simp add: sweep_entry_def drop_leftover_def Let_def split: option.split)
  have "d_elsewhere (fold (sweep_entry ok mods) ls disk) = d_elsewhere disk \<and> d_list (fold (sweep_entry ok mods) ls disk) = d_list disk" for ls
    by (induction ls arbitrary: disk) (simp_all add: step)
  then show "d_elsewhere (sweep ok mods disk) = d_elsewhere disk" "d_list (sweep ok mods disk) = d_list disk"
    by (simp_all add: sweep_def)
qed

lemma place_files_result:
  assumes "place_files io suffix a disk = (r, disk')"
  shows "d_elsewhere disk' = d_elsewhere disk \<and> d_list disk' = d_list disk \<and>
    (\<forall>src. r = Inr src \<longrightarrow> src = Installed (pa_origin a) \<or>
       (\<exists>folder. src = Folder folder \<and> pa_kind a = Some (PlainFolder folder)))"
proof -
  have "d_elsewhere d = d_elsewhere disk \<and> d_list d = d_list disk" if "step_aside suffix n disk = Some d" for n d
    using that by (auto simp: step_aside_def)
  then show ?thesis using assms
    by (auto simp: place_files_def drop_leftover_def Let_def split: option.splits pending_kind.splits if_splits)
qed

lemma slot_named_enter:
  assumes "slot_named ft mods disk" and "entry_named ft disk e"
    and "get_mod mods (sm_name e) \<noteq> None \<or> length mods < MAX_MODS"
  shows "slot_named ft (enter_mod e mods) disk"
proof (cases "position (\<lambda>m. sm_name m = sm_name e) mods")
  case None
  then have "get_mod mods (sm_name e) = None" by (auto simp: get_mod_def find_None_iff position_None)
  then show ?thesis using None slot_named_append [OF assms(1) None _ assms(2)] assms(3)
    by (simp add: enter_mod_def)
next
  case (Some i)
  then have "enter_mod e mods = mods[i := e]" by (simp add: enter_mod_def)
  moreover have "sm_name e = sm_name (mods ! i)" using Some by (simp add: position_Some)
  ultimately show ?thesis using slot_named_update [OF assms(1) _ assms(2)] by simp
qed

text \<open>A pending add that was prepared for this list.\<close>

definition prepared :: "toml_parser \<Rightarrow> slot_mod list \<Rightarrow> mods_disk \<Rightarrow> pending_add \<Rightarrow> bool" where
  "prepared ft mods disk a =
     (valid_name (man_name (pa_manifest a)) \<and>
      (get_mod mods (man_name (pa_manifest a)) \<noteq> None \<or> length mods < MAX_MODS) \<and>
      (case pa_kind a of
         Some (PlainFolder p) \<Rightarrow> is_absolute p \<and> folder_name ft disk p p = man_name (pa_manifest a)
       | _ \<Rightarrow> True))"

lemma commit_result:
  assumes "commit io suffix a mods disk = (r, mods', disk')" and "prepared ft mods disk a"
  shows "d_elsewhere disk' = d_elsewhere disk \<and> (slot_named ft mods disk \<longrightarrow> slot_named ft mods' disk') \<and>
    (isl r \<or> d_list disk' = Some (list_text mods'))"
proof -
  obtain p disk1 where place: "place_files io suffix a disk = (p, disk1)" by fastforce
  show ?thesis
  proof (cases p)
    case (Inl e)
    then have "mods' = mods" "disk' = disk1" "isl r" using assms(1) place by (auto simp: commit_def Let_def)
    then show ?thesis using place_files_result [OF place] slot_named_disk by blast
  next
    case (Inr src)
    define e where "e = \<lparr>sm_name = man_name (pa_manifest a), sm_source = src, sm_enabled =
      (case position (\<lambda>m. sm_name m = man_name (pa_manifest a)) mods of None \<Rightarrow> True | Some i \<Rightarrow> sm_enabled (mods ! i))\<rparr>"
    have mods': "mods' = enter_mod e mods"
      and el: "d_elsewhere disk' = d_elsewhere disk1" and sv: "isl r \<or> d_list disk' = Some (list_text mods')"
      using assms(1) place Inr by (auto simp: commit_def e_def Let_def save_list_def drop_leftover_def split: if_splits)
    have el': "d_elsewhere disk' = d_elsewhere disk" using el place_files_result [OF place] by simp
    have "entry_named ft disk e"
      using place_files_result [OF place] Inr assms(2) by (auto simp: entry_named_def e_def prepared_def)
    moreover have "get_mod mods (sm_name e) \<noteq> None \<or> length mods < MAX_MODS"
      using assms(2) by (simp add: prepared_def e_def)
    ultimately have "slot_named ft mods disk \<longrightarrow> slot_named ft mods' disk'"
      using slot_named_enter mods' slot_named_disk [OF el'] by blast
    with el' sv show ?thesis by blast
  qed
qed

lemma read_archive_ok: "read_archive ft u = Inr (m, k) \<Longrightarrow> valid_name (man_name m) \<and> (\<exists>d. k = Archive d)"
  using manifest_read_ok [of ft]
  by (auto simp: read_archive_def bindR_def ok_or_def manifest_ok_def split: sum.splits option.splits)

lemma read_folder_ok:
  "read_folder ft disk rp = Inr (m, k, o') \<Longrightarrow>
   valid_name (man_name m) \<and> (\<exists>p. k = PlainFolder p \<and> is_absolute p \<and> folder_name ft disk p p = man_name m)"
  using manifest_read_ok [of ft]
  by (fastforce simp: read_folder_def bindR_def ok_or_def manifest_ok_def folder_name_def is_absolute_def
      starts_with_def rp_path_def split: sum.splits option.splits if_splits)

lemma prepare_add_result:
  assumes "prepare_add ft sw path what origin mods disk = (r, disk')"
  shows "disk' = sweep sw mods disk \<and> (\<forall>a. r = Inr a \<longrightarrow> prepared ft mods disk' a)"
proof -
  have d: "disk' = sweep sw mods disk" using assms by (simp add: prepare_add_def Let_def)
  have "prepared ft mods disk' a" if r: "r = Inr a" for a
  proof -
    obtain m k o' where rd: "(case what of
          AddFolder rp \<Rightarrow> read_folder ft disk' rp
        | AddArchive u \<Rightarrow> bindR (read_archive ft u) (\<lambda>(m, k). Inr (m, k, (case origin of
            Some o' \<Rightarrow> o' | None \<Rightarrow> (case file_name path of Some f \<Rightarrow> f | None \<Rightarrow> path))))) = Inr (m, k, o')"
      and a: "man_name (pa_manifest a) = man_name m" "pa_kind a = Some k"
      and room: "get_mod mods (man_name m) \<noteq> None \<or> length mods < MAX_MODS"
      using assms r unfolding prepare_add_def Let_def d
      by (auto simp: bindR_def split: sum.splits if_splits prod.splits)
    have "valid_name (man_name m) \<and> (\<forall>p. k = PlainFolder p \<longrightarrow> is_absolute p \<and> folder_name ft disk' p p = man_name m)"
      using rd read_folder_ok read_archive_ok
      by (fastforce simp: bindR_def split: add_path.splits sum.splits prod.splits)
    then show ?thesis using a room by (auto simp: prepared_def split: pending_kind.split)
  qed
  with d show ?thesis by blast
qed

text \<open>Adding or replacing in one go, as the window does: prepare, then commit.\<close>

definition replace_mod ::
  "toml_parser \<Rightarrow> (string \<Rightarrow> bool) \<Rightarrow> commit_io \<Rightarrow> string \<Rightarrow> string \<Rightarrow> add_path \<Rightarrow> string option \<Rightarrow>
     slot_mod list \<Rightarrow> mods_disk \<Rightarrow> (mods_error + string) \<times> slot_mod list \<times> mods_disk" where
  "replace_mod ft sw io suffix path what origin mods disk =
     (case prepare_add ft sw path what origin mods disk of
        (Inl e, disk) \<Rightarrow> (Inl e, mods, disk)
      | (Inr a, disk) \<Rightarrow> commit io suffix a mods disk)"

lemma replace_mod_result:
  assumes "replace_mod ft sw io suffix path what origin mods disk = (r, mods', disk')"
  shows "d_elsewhere disk' = d_elsewhere disk \<and> (slot_named ft mods disk \<longrightarrow> slot_named ft mods' disk') \<and>
    (isl r \<or> d_list disk' = Some (list_text mods'))"
proof -
  obtain p disk1 where prep: "prepare_add ft sw path what origin mods disk = (p, disk1)" by fastforce
  note p = prepare_add_result [OF prep]
  then have el: "d_elsewhere disk1 = d_elsewhere disk" by simp
  show ?thesis
  proof (cases p)
    case (Inl e)
    then show ?thesis using assms prep el slot_named_disk [OF el] by (auto simp: replace_mod_def)
  next
    case (Inr a)
    then have "commit io suffix a mods disk1 = (r, mods', disk')" using assms prep by (simp add: replace_mod_def)
    from commit_result [OF this] p Inr show ?thesis using el slot_named_disk [OF el] by auto
  qed
qed

lemma add_mod_cases:
  "add_mod ft sw io suffix path what origin mods disk = replace_mod ft sw io suffix path what origin mods disk \<or>
   (\<exists>e. add_mod ft sw io suffix path what origin mods disk = (Inl e, mods, sweep sw mods disk))"
  using prepare_add_result [of ft sw path what origin mods disk]
  by (auto simp: add_mod_def replace_mod_def split: prod.splits sum.splits)

interpretation replacing: list_op ft "replace_mod ft sw io suffix path what origin"
  for ft sw io suffix path what origin
  using replace_mod_result by unfold_locales fastforce+

interpretation adding: list_op ft "add_mod ft sw io suffix path what origin"
  for ft sw io suffix path what origin
proof
  fix mods disk mods' disk' and r :: "mods_error + string" and x
  assume op: "add_mod ft sw io suffix path what origin mods disk = (r, mods', disk')"
  show el: "d_elsewhere disk' = d_elsewhere disk"
    using op add_mod_cases [of ft sw io suffix path what origin mods disk]
      replacing.elsewhere [of ft sw io suffix path what origin mods disk r mods' disk'] by auto
  assume s: "slot_named ft mods disk"
  show "slot_named ft mods' disk'"
    using op s add_mod_cases [of ft sw io suffix path what origin mods disk]
      replacing.named [of ft sw io suffix path what origin mods disk r mods' disk'] slot_named_disk [OF el] by auto
next
  fix mods disk mods' disk' and x :: string
  assume op: "add_mod ft sw io suffix path what origin mods disk = (Inr x, mods', disk')"
  then show "d_list disk' = Some (list_text mods') \<or> mods' = mods \<and> d_list disk' = d_list disk"
    using add_mod_cases [of ft sw io suffix path what origin mods disk]
      replacing.written [of ft sw io suffix path what origin mods disk x mods' disk'] by auto
qed

section \<open>The list over the life of a slot\<close>

text \<open>Whether the file holds the list in memory after an operation: as before when it changed
  neither, else exactly if it succeeded.\<close>

definition in_file :: "bool \<Rightarrow> bool \<Rightarrow> slot_mod list \<Rightarrow> mods_disk \<Rightarrow> slot_mod list \<Rightarrow> mods_disk \<Rightarrow> bool" where
  "in_file s ok mods disk mods' disk' =
     (if mods' = mods \<and> d_list disk' = d_list disk then s else ok)"

inductive mods_reach :: "toml_parser \<Rightarrow> bool \<Rightarrow> slot_mod list \<Rightarrow> mods_disk \<Rightarrow> bool" for ft where
  start: "d_list disk = None \<Longrightarrow> mods_reach ft True [] disk"
| restart: "mods_reach ft s mods disk \<Longrightarrow> disk' = disk\<lparr>d_elsewhere := e\<rparr> \<Longrightarrow>
    length (load_in ft disk') \<le> MAX_MODS \<Longrightarrow> mods_reach ft True (load_in ft disk') disk'"
| remove: "mods_reach ft s mods disk \<Longrightarrow> remove_mod sv f d name mods disk = (r, mods', disk') \<Longrightarrow>
    mods_reach ft (in_file s (\<not> isl r) mods disk mods' disk') mods' disk'"
| enable: "mods_reach ft s mods disk \<Longrightarrow> set_enabled ok name en mods disk = (r, mods', disk') \<Longrightarrow>
    mods_reach ft (in_file s (\<not> isl r) mods disk mods' disk') mods' disk'"
| order: "mods_reach ft s mods disk \<Longrightarrow> reorder ok a b mods disk = (r, mods', disk') \<Longrightarrow>
    mods_reach ft (in_file s (\<not> isl r) mods disk mods' disk') mods' disk'"
| add: "mods_reach ft s mods disk \<Longrightarrow>
    add_mod ft sw io suffix path what origin mods disk = (r', mods', disk') \<Longrightarrow>
    mods_reach ft (in_file s (\<not> isl r') mods disk mods' disk') mods' disk'"
| replace: "mods_reach ft s mods disk \<Longrightarrow>
    replace_mod ft sw io suffix path what origin mods disk = (r', mods', disk') \<Longrightarrow>
    mods_reach ft (in_file s (\<not> isl r') mods disk mods' disk') mods' disk'"
| report: "mods_reach ft s mods disk \<Longrightarrow> mods_reach ft s mods (snd (save_last_boot_report ok t ids disk))"
| log: "mods_reach ft s mods disk \<Longrightarrow> mods_reach ft s mods (snd (save_last_boot_log ok name t disk))"
| sweep: "mods_reach ft s mods disk \<Longrightarrow> mods_reach ft s mods (sweep swept mods disk)"

definition in_step :: "toml_parser \<Rightarrow> bool \<Rightarrow> slot_mod list \<Rightarrow> mods_disk \<Rightarrow> bool" where
  "in_step ft s mods disk =
     (slot_named ft mods disk \<and> (s \<and> list_all one_line mods \<longrightarrow> load_in ft disk = mods))"

lemma fold_push_new_inv:
  "distinct (map sm_name ms) \<Longrightarrow> list_all P ms \<Longrightarrow> list_all P xs \<Longrightarrow>
   distinct (map sm_name (fold push_new xs ms)) \<and> list_all P (fold push_new xs ms)"
proof (induction xs arbitrary: ms)
  case (Cons x xs)
  have "distinct (map sm_name (push_new x ms)) \<and> list_all P (push_new x ms)"
    using Cons.prems by (auto simp: push_new_def list_ex_iff)
  then show ?case using Cons by simp
qed simp

lemma read_line_named: "read_line ft disk l = Some m \<Longrightarrow> entry_named ft disk m"
  by (auto simp: read_line_def entry_named_def Let_def bind_eq_Some_conv split: if_splits option.splits prod.splits)

lemma load_named: "length (load_in ft disk) \<le> MAX_MODS \<Longrightarrow> slot_named ft (load_in ft disk) disk"
proof -
  let ?ms = "List.map_filter (read_line ft disk) (lines (case d_list disk of None \<Rightarrow> [] | Some t \<Rightarrow> t))"
  have "list_all (entry_named ft disk) ?ms"
    using read_line_named by (auto simp: list_all_iff List.map_filter_def)
  then show "length (load_in ft disk) \<le> MAX_MODS \<Longrightarrow> ?thesis"
    using fold_push_new_inv [of "[]" "entry_named ft disk" ?ms] by (simp add: slot_named_def load_in_def Let_def)
qed

context list_op
begin

lemma keeps_in_step:
  assumes "in_step ft s mods disk" and op: "op mods disk = (r, mods', disk')"
  shows "in_step ft (in_file s (\<not> isl r) mods disk mods' disk') mods' disk'"
proof -
  have named': "slot_named ft mods' disk'" using named [OF op] assms(1) by (simp add: in_step_def)
  have "load_in ft disk' = mods'" if inf: "in_file s (\<not> isl r) mods disk mods' disk'" and one: "list_all one_line mods'"
  proof (cases "mods' = mods \<and> d_list disk' = d_list disk")
    case True
    then show ?thesis
      using inf one assms(1) load_in_cong [OF _ elsewhere [OF op]] by (simp add: in_step_def in_file_def)
  next
    case False
    then obtain x where "r = Inr x" using inf by (cases r) (auto simp: in_file_def)
    then have "d_list disk' = Some (list_text mods')" using written op False by blast
    then show ?thesis using load_text named' one by (simp add: slot_named_def list_all_iff)
  qed
  with named' show ?thesis by (simp add: in_step_def)
qed

end

lemma in_step_cong:
  "in_step ft s mods disk \<Longrightarrow> d_list disk' = d_list disk \<Longrightarrow> d_elsewhere disk' = d_elsewhere disk \<Longrightarrow> in_step ft s mods disk'"
  unfolding in_step_def using slot_named_disk [of disk' disk ft mods] load_in_cong [of disk' disk ft] by simp

lemma reach_in_step: "mods_reach ft s mods disk \<Longrightarrow> in_step ft s mods disk"
proof (induction rule: mods_reach.induct)
  case (start disk)
  then show ?case by (simp add: in_step_def slot_named_def load_in_def lines_def lines_by_def)
next
  case (restart s mods disk disk' e)
  then show ?case using load_named by (simp add: in_step_def)
next
  case (report s mods disk ok t ids)
  from report.IH show ?case by (rule in_step_cong) (auto simp: save_last_boot_report_def Let_def)
next
  case (log s mods disk ok name t)
  from log.IH show ?case by (rule in_step_cong) (auto simp: save_last_boot_log_def)
next
  case (sweep s mods disk swept)
  from sweep.IH show ?case by (rule in_step_cong) simp_all
qed (auto intro: removing.keeps_in_step enabling.keeps_in_step ordering.keeps_in_step
       adding.keeps_in_step replacing.keeps_in_step)


definition example_toml :: toml_parser where
  "example_toml t = Some [(''mod'', TTab [(''name'', TStr t), (''version'', TStr ''1'')])]"

definition example_dir :: "string \<Rightarrow> mod_dir" where
  "example_dir n = \<lparr>md_toml = TomlText n, md_is_file = (\<lambda>f. f = ''mod.toml'')\<rparr>"

definition example_disk :: mods_disk where
  "example_disk = \<lparr>d_list = None, d_installed = (\<lambda>_. None), d_elsewhere = [''/m/dev'' \<mapsto> example_dir ''theme''],
     d_leftovers = [], d_report = None, d_logs = (\<lambda>_. None)\<rparr>"

definition example_io :: commit_io where
  "example_io = \<lparr>io_aside = True, io_move = True, io_back = True, io_delete = True, io_save = True, io_forget = True\<rparr>"

definition example_added :: "slot_mod list \<times> mods_disk" where
  "example_added = snd (add_mod example_toml (\<lambda>_. True) example_io ''1-2'' ''/m/dev''
     (AddFolder (Some \<lparr>rp_parts = [''m'', ''dev''], rp_inside = False\<rparr>)) None [] example_disk)"


end
