(* ===== verification/Utf8Text.thy ===== *)
theory Utf8Text
  imports Utf8 RustText
begin

text \<open>
  Text written out as UTF-8, \<open>str::as_bytes\<close>, for the characters up to U+00FF that a HOL \<open>char\<close>
  stands for. The lemmas show that decoding gives the characters back and that the bytes of a
  text hold an ASCII byte exactly where the text has that character.
\<close>

definition utf8_char :: "char \<Rightarrow> bytes" where
  "utf8_char c =
     (let n = code c
      in if n < 128 then [of_nat n] else [of_nat (0xC0 + n div 64), of_nat (0x80 + n mod 64)])"

definition utf8_bytes :: "string \<Rightarrow> bytes" where
  "utf8_bytes s = concat (map utf8_char s)"

lemma utf8_bytes_Nil [simp]: "utf8_bytes [] = []"
  and utf8_bytes_append: "utf8_bytes (s @ t) = utf8_bytes s @ utf8_bytes t"
  and utf8_bytes_Cons: "utf8_bytes (c # s) = utf8_char c @ utf8_bytes s"
  by (simp_all add: utf8_bytes_def)

lemma unat_u8: "n < 256 \<Longrightarrow> unat (of_nat n :: u8) = n"
  by (simp add: unat_of_nat take_bit_eq_mod)

lemma low6_mod: "low6 b = unat b mod 64"
proof -
  have "b AND 0x3F = b AND mask 6" by (simp add: mask_eq_exp_minus_1)
  then have "b AND 0x3F = take_bit 6 b" by (simp only: take_bit_eq_mask)
  then have "low6 b = unat (take_bit 6 b)" by (simp only: low6_def)
  also have "\<dots> = unat b mod 2 ^ 6" by (simp only: unsigned_take_bit_eq take_bit_eq_mod [where ?'a = nat])
  finally show ?thesis by simp
qed

lemma utf8_next_two:
  assumes "128 \<le> n" and "n < 256" and a: "a = 0xC0 + n div 64" and b: "b = 0x80 + n mod 64"
  shows "utf8_next (of_nat a) [of_nat b] = Inr (2, n)"
proof -
  have n: "n div 64 = 2 \<or> n div 64 = 3" using assms(1,2) by linarith
  have c: "unat (of_nat b :: u8) = b" by (rule unat_u8) (simp add: b)
  have bb: "128 \<le> b" "b \<le> 191" using mod_less_divisor [of 64 n] unfolding b by linarith+
  then have cont: "is_cont (of_nat b)" unfolding is_cont_def word_le_nat_alt c by simp
  have "b mod 64 = n mod 64" using mod_mult_self3 [of 2 64 "n mod 64"] by (simp add: b)
  then have low: "low6 (of_nat b) = n mod 64" using c by (simp only: low6_mod)
  have two: "utf8_next x [of_nat b] = Inr (2, unat (x AND 0x1F) * 64 + n mod 64)" if "x = 0xC2 \<or> x = 0xC3" for x
    using that cont low by (elim disjE) (simp_all add: utf8_next_def byte_or_0_def Let_def)
  have a': "(of_nat a :: u8) = (if n div 64 = 2 then 0xC2 else 0xC3)" using n unfolding a by (elim disjE) simp_all
  have "unat ((of_nat a :: u8) AND 0x1F) = n div 64" using n unfolding a' by (elim disjE) simp_all
  then have "utf8_next (of_nat a) [of_nat b] = Inr (2, n div 64 * 64 + n mod 64)"
    using two [of "of_nat a"] a' by simp
  then show ?thesis by simp
qed

lemma utf8_char_facts:
  "utf8_char c \<noteq> [] \<and> utf8_next (hd (utf8_char c)) (tl (utf8_char c)) = Inr (length (utf8_char c), code c) \<and>
   (\<forall>b \<in> set (utf8_char c). b < 0x80 \<longrightarrow> code c = unat b) \<and> (code c < 128 \<longrightarrow> utf8_char c = [of_nat (code c)])"
proof (cases "code c < 128")
  case True
  then have "unat (of_nat (code c) :: u8) = code c" by (intro unat_u8) simp
  then show ?thesis using True by (simp add: utf8_char_def Let_def utf8_next_def word_less_nat_alt)
next
  case False
  define a where "a = 0xC0 + code c div 64"
  define b where "b = 0x80 + code c mod 64"
  have c: "code c < 256" by simp
  have "a < 256" "b < 256" using c unfolding a_def b_def by linarith+
  then have "unat (of_nat a :: u8) = a" "unat (of_nat b :: u8) = b" by (simp_all only: unat_u8)
  then have "\<not> (of_nat a :: u8) < 0x80" "\<not> (of_nat b :: u8) < 0x80"
    by (simp_all add: word_less_nat_alt a_def b_def)
  moreover have "utf8_char c = [of_nat a, of_nat b]"
    using False unfolding utf8_char_def Let_def a_def b_def by (simp only: if_False)
  ultimately show ?thesis using False utf8_next_two [of "code c" a b] c a_def b_def by simp
qed

lemma utf8_chars_bytes: "utf8_chars (utf8_bytes s) = Some (map code s)"
proof (induction s)
  case (Cons c s)
  note f = utf8_char_facts [of c]
  have "utf8_char c = take (length (utf8_char c)) (hd (utf8_char c) # tl (utf8_char c))" using f by simp
  then have "utf8_chars (utf8_char c @ utf8_bytes s) = map_option (Cons (code c)) (utf8_chars (utf8_bytes s))"
    using utf8_chars_append_char [of "hd (utf8_char c)" "tl (utf8_char c)"] f by metis
  then show ?case using Cons by (simp add: utf8_bytes_Cons)
qed simp

lemma utf8_valid_bytes: "utf8_valid (utf8_bytes s)"
  by (simp add: utf8_valid_def utf8_chars_bytes)

lemma utf8_bytes_inject: "utf8_bytes s = utf8_bytes t \<Longrightarrow> s = t"
proof -
  assume "utf8_bytes s = utf8_bytes t"
  then have "map code s = map code t" using utf8_chars_bytes [of s] utf8_chars_bytes [of t] by simp
  then show "s = t" using inj_map_eq_map [OF inj_of_char] by blast
qed

lemma ascii_in_bytes: "b \<in> set (utf8_bytes s) \<Longrightarrow> b < 0x80 \<Longrightarrow> char_of (unat b) \<in> set s"
proof -
  assume b: "b \<in> set (utf8_bytes s)" "b < 0x80"
  then obtain c where c: "c \<in> set s" "b \<in> set (utf8_char c)" by (auto simp: utf8_bytes_def)
  then have "code c = unat b" using utf8_char_facts [of c] b(2) by blast
  then show "char_of (unat b) \<in> set s" using c(1) by (metis char_of_char)
qed

end
