(* ===== verification/ModBoot.thy ===== *)
theory ModBoot
  imports ModList Cpio Utf8Text
begin

text \<open>
  Booting with mods, \<open>crates/cdj3k-emu-storage/src/mods/boot.rs\<close>: which of a slot's mods and of the
  extra folders a boot runs, the cpio archive that carries them, the walk through a mod's folder,
  and the cached initramfs. The file system the walk sees is a finite table of folders by their
  canonical paths; a child that is a folder names the canonical folder it leads to, so links and
  loops are in the model. Gzip, SHA-256 and the folders' contents are arguments.
\<close>

section \<open>Which mods run\<close>

text \<open>\<open>Path::join\<close> on Unix.\<close>

definition path_join :: "bytes \<Rightarrow> bytes \<Rightarrow> bytes" where
  "path_join a b =
     (if starts_with [SLASH] b then b
      else if a = [] \<or> last a = SLASH then a @ b
      else a @ SLASH # b)"

type_synonym candidate = "string \<times> mod_place"

definition sort_out_step ::
  "toml_parser \<Rightarrow> mods_disk \<Rightarrow> model \<Rightarrow> string option \<Rightarrow> candidate \<Rightarrow>
     candidate list \<times> (string \<times> compat) list \<Rightarrow> candidate list \<times> (string \<times> compat) list" where
  "sort_out_step ft disk model release c acc =
     (case c of (name, dir) \<Rightarrow> case acc of (run, incompatible) \<Rightarrow>
        if list_ex (\<lambda>(n, _). n = name) run then (run, incompatible)
        else
          let compat = check_dir ft (files_at disk dir) model release
          in if runs compat then (run @ [(name, dir)], incompatible)
             else (run, incompatible @ [(name, compat)]))"

definition sort_out ::
  "toml_parser \<Rightarrow> mods_disk \<Rightarrow> model \<Rightarrow> string option \<Rightarrow> candidate list \<Rightarrow>
     candidate list \<times> (string \<times> compat) list" where
  "sort_out ft disk model release mods = fold (sort_out_step ft disk model release) mods ([], [])"

definition candidates :: "bool \<Rightarrow> slot_mod list \<Rightarrow> candidate list" where
  "candidates enabled mods =
     map (\<lambda>m. (sm_name m, dir_of m)) (filter (\<lambda>m. enabled \<and> sm_enabled m) mods)"

definition ids :: "toml_parser \<Rightarrow> mods_disk \<Rightarrow> slot_mod list \<Rightarrow> string list \<Rightarrow> string list" where
  "ids ft disk slot names =
     List.map_filter (\<lambda>name. map_option (boot_id ft disk) (get_mod slot name)) names"

definition planned_slot_run ::
  "toml_parser \<Rightarrow> mods_disk \<Rightarrow> model \<Rightarrow> string option \<Rightarrow> bool \<Rightarrow> string list" where
  "planned_slot_run ft disk model release enabled =
     (let slot = load_in ft disk;
          chosen = fst (sort_out ft disk model release (candidates enabled slot))
      in ids ft disk slot (map fst (take MAX_MODS chosen)))"

text \<open>An extra folder takes the place of the slot's mod of its name, or goes to the end.\<close>

definition place_extra ::
  "nat \<Rightarrow> candidate \<Rightarrow> candidate list \<times> string list \<Rightarrow> candidate list \<times> string list" where
  "place_extra from_slot e acc =
     (case e of (name, dir) \<Rightarrow> case acc of (chosen, replaced) \<Rightarrow>
        (case position (\<lambda>(n, _). n = name) (take from_slot chosen) of
           Some i \<Rightarrow> (chosen[i := (name, dir)], replaced @ [name])
         | None \<Rightarrow> (chosen @ [(name, dir)], replaced)))"

definition extra_candidates :: "toml_parser \<Rightarrow> mods_disk \<Rightarrow> string list \<Rightarrow> candidate list" where
  "extra_candidates ft disk extra = map (\<lambda>dir. (folder_name ft disk ''mod'' dir, Elsewhere dir)) extra"

definition boot_choice ::
  "toml_parser \<Rightarrow> mods_disk \<Rightarrow> slot_mod list \<Rightarrow> model \<Rightarrow> string option \<Rightarrow> bool \<Rightarrow> string list \<Rightarrow>
     candidate list \<times> string list \<times> (string \<times> compat) list" where
  "boot_choice ft disk slot model release enabled extra =
     (let (chosen, incompatible) = sort_out ft disk model release (candidates enabled slot);
          (extra_run, extra_incompatible) = sort_out ft disk model release (extra_candidates ft disk extra);
          (chosen, replaced) = fold (place_extra (length chosen)) extra_run (chosen, [])
      in (take MAX_MODS chosen, replaced, incompatible @ extra_incompatible))"

section \<open>Reading a mod's folder\<close>

datatype node =
    NFolder string u32
  | NFile "bytes option" u32
  | NSpecial
  | NBroken

type_synonym tree = "(string \<times> (bytes \<times> node) list) list"

datatype walk_error = LoopsBack | FolderUnreadable | FileUnreadable | NotFileOrDir

definition GIT :: bytes where "GIT = [0x2E, 0x67, 0x69, 0x74]"

function walk :: "tree \<Rightarrow> string \<Rightarrow> bytes \<Rightarrow> string list \<Rightarrow> walk_error + entry list"
  and walk_children :: "tree \<Rightarrow> (bytes \<times> node) list \<Rightarrow> bytes \<Rightarrow> string list \<Rightarrow> walk_error + entry list" where
  "walk t rl guest seen =
     (if rl \<in> set seen then Inl LoopsBack
      else (case map_of t rl of
              None \<Rightarrow> Inl FolderUnreadable
            | Some children \<Rightarrow> walk_children t (sort_key fst children) guest (seen @ [rl])))"
| "walk_children t [] guest seen = Inr []"
| "walk_children t ((name, nd) # cs) guest seen =
     (if name = GIT then walk_children t cs guest seen
      else
        let target = path_join guest name
        in (case nd of
              NBroken \<Rightarrow> Inl FileUnreadable
            | NSpecial \<Rightarrow> Inl NotFileOrDir
            | NFile None mode \<Rightarrow> Inl FileUnreadable
            | NFile (Some data) mode \<Rightarrow>
                bindR (walk_children t cs guest seen) (\<lambda>es. Inr (entry_file target data mode # es))
            | NFolder rl mode \<Rightarrow>
                bindR (walk t rl target seen) (\<lambda>inner.
                bindR (walk_children t cs guest seen) (\<lambda>es. Inr (entry_dir target mode # inner @ es)))))"
  by pat_completeness auto

definition unseen :: "tree \<Rightarrow> string list \<Rightarrow> nat" where
  "unseen t seen = card (fst ` set t - set seen)"

lemma unseen_grows: "map_of t rl = Some cs \<Longrightarrow> rl \<notin> set seen \<Longrightarrow> unseen t (seen @ [rl]) < unseen t seen"
  unfolding unseen_def
  by (rule psubset_card_mono) (auto dest!: map_of_SomeD simp: rev_image_eqI)

termination walk
proof (relation "inv_image (less_than <*lex*> less_than)
    (\<lambda>x. case x of Inl (t, rl, guest, seen) \<Rightarrow> (unseen t seen, 0)
                 | Inr (t, cs, guest, seen) \<Rightarrow> (unseen t seen, Suc (length cs)))", goal_cases)
  case 1
  show ?case by (intro wf_inv_image wf_lex_prod wf_less_than)
qed (auto simp: unseen_grows)

record packed =
  pk_name :: string
  pk_files :: "entry list"
  pk_declared :: manifest

datatype pack_error = PackManifest manifest_error | PackWalk walk_error

text \<open>What a mod's place holds on disk: its canonical folder, when there is one.\<close>

definition pack_mod ::
  "toml_parser \<Rightarrow> mods_disk \<Rightarrow> tree \<Rightarrow> (mod_place \<Rightarrow> string option) \<Rightarrow> candidate \<Rightarrow> pack_error + packed" where
  "pack_mod ft disk t canonical c =
     (case c of (name, dir) \<Rightarrow>
        (case manifest_read ft (files_at disk dir) of
           Inl e \<Rightarrow> Inl (PackManifest e)
         | Inr declared \<Rightarrow>
             (case canonical dir of
                None \<Rightarrow> Inl (PackWalk FolderUnreadable)
              | Some rl \<Rightarrow>
                  (case walk t rl [] [] of
                     Inl e \<Rightarrow> Inl (PackWalk e)
                   | Inr files \<Rightarrow> Inr \<lparr>pk_name = name, pk_files = files, pk_declared = declared\<rparr>))))"

definition pack ::
  "toml_parser \<Rightarrow> mods_disk \<Rightarrow> tree \<Rightarrow> (mod_place \<Rightarrow> string option) \<Rightarrow> candidate list \<Rightarrow>
     packed list \<times> (string \<times> pack_error) list" where
  "pack ft disk t canonical mods =
     fold (\<lambda>c (packed, failed).
             (case pack_mod ft disk t canonical c of
                Inr p \<Rightarrow> (packed @ [p], failed)
              | Inl e \<Rightarrow> (packed, failed @ [(fst c, e)]))) mods ([], [])"

section \<open>The archives\<close>

definition GUEST_DIR :: string where "GUEST_DIR = ''/opt/cdj3k-mods''"

definition two_digits :: "nat \<Rightarrow> string" where
  "two_digits n = (if n < 10 then ''0'' @ show_nat n else show_nat n)"

definition guest_path :: "nat \<Rightarrow> string \<Rightarrow> string" where
  "guest_path i name = GUEST_DIR @ ''/'' @ two_digits (i + 1) @ ''-'' @ name"

definition mod_lines :: "string \<Rightarrow> manifest \<Rightarrow> string" where
  "mod_lines guest m =
     concat (map (\<lambda>lib. ''preload '' @ guest @ ''/'' @ lib @ [CHR ''\<newline>'']) (man_preload m)) @
     concat (map (\<lambda>(key, value). ''env '' @ key @ ''='' @ value @ [CHR ''\<newline>'']) (man_env m))"

definition mod_entries :: "nat \<Rightarrow> packed \<Rightarrow> entry list" where
  "mod_entries i m =
     (let guest = guest_path i (pk_name m)
      in [entry_dir (utf8_bytes guest) 0x1ED] @
         map (\<lambda>file. file\<lparr>e_path := path_join (utf8_bytes guest) (e_path file)\<rparr>) (pk_files m) @
         [entry_file (utf8_bytes (guest @ ''.mod'')) (utf8_bytes (mod_lines guest (pk_declared m))) 0x1A4])"

definition manifest_text :: "model \<Rightarrow> string option \<Rightarrow> string" where
  "manifest_text model release =
     ''deck_model='' @ slug (spec model) @ [CHR ''\<newline>''] @
     ''fw_version='' @ (case release of None \<Rightarrow> [] | Some r \<Rightarrow> r) @ [CHR ''\<newline>'']"

definition overlay_entries :: "packed list \<Rightarrow> model \<Rightarrow> string option \<Rightarrow> entry list" where
  "overlay_entries mods model release =
     [entry_dir (utf8_bytes GUEST_DIR) 0x1ED,
      entry_file (utf8_bytes (GUEST_DIR @ ''/manifest'')) (utf8_bytes (manifest_text model release)) 0x1A4] @
     concat (map (\<lambda>(i, m). mod_entries i m) (enumerate 0 mods))"

definition overlay :: "(bytes \<Rightarrow> bytes) \<Rightarrow> packed list \<Rightarrow> model \<Rightarrow> string option \<Rightarrow> bytes" where
  "overlay gz mods model release = gz (cpio_write (overlay_entries mods model release))"

definition DEVD_GUEST :: string where "DEVD_GUEST = ''/usr/sbin/cdj3k-devd''"
definition DEVD_UNIT :: string where "DEVD_UNIT = ''/etc/systemd/system/cdj3k-devd.service''"
definition DEVD_WANTS :: string where
  "DEVD_WANTS = ''/etc/systemd/system/multi-user.target.wants/cdj3k-devd.service''"

definition DEVD_SERVICE :: string where
  "DEVD_SERVICE = concat (map line_n
     [''[Unit]'',
      ''Description=cdj3k Developer Mode daemon (cdj3k.dev virtio-serial port)'',
      ''StartLimitIntervalSec=0'',
      [],
      ''[Service]'',
      ''Type=simple'',
      ''ExecStart=/usr/sbin/cdj3k-devd'',
      ''Restart=always'',
      ''RestartSec=2s'',
      [],
      ''[Install]'',
      ''WantedBy=multi-user.target''])"

definition devd_entries :: "bytes \<Rightarrow> entry list" where
  "devd_entries data =
     [entry_file (utf8_bytes DEVD_GUEST) data 0x1ED,
      entry_file (utf8_bytes DEVD_UNIT) (utf8_bytes DEVD_SERVICE) 0x1A4,
      entry_symlink (utf8_bytes DEVD_WANTS) (utf8_bytes DEVD_UNIT)]"

definition devd_overlay :: "(bytes \<Rightarrow> bytes) \<Rightarrow> bytes option \<Rightarrow> unit + bytes" where
  "devd_overlay gz binary =
     (case binary of None \<Rightarrow> Inl () | Some data \<Rightarrow> Inr (gz (cpio_write (devd_entries data))))"

section \<open>The boot\<close>

datatype boot_problem = BootCompat compat | BootPack pack_error

text \<open>The archives to append to the base initramfs stand for the file: none means the base
  itself.\<close>

record boot_mods =
  bm_archives :: bytes
  bm_run :: "string list"
  bm_slot_run :: "string list"
  bm_incompatible :: "(string \<times> boot_problem) list"

definition prepare_boot ::
  "toml_parser \<Rightarrow> (bytes \<Rightarrow> bytes) \<Rightarrow> tree \<Rightarrow> (mod_place \<Rightarrow> string option) \<Rightarrow> (string \<Rightarrow> bool) \<Rightarrow> mods_disk \<Rightarrow>
     model \<Rightarrow> string option \<Rightarrow> bool \<Rightarrow> string list \<Rightarrow> bytes option option \<Rightarrow> (unit + boot_mods) \<times> mods_disk" where
  "prepare_boot ft gz t canonical swept disk0 model release enabled extra devd =
     (let slot = load_in ft disk0;
          disk = sweep swept slot disk0;
          (chosen, replaced, incompatible) = boot_choice ft disk slot model release enabled extra;
          (packed, unreadable) = pack ft disk t canonical chosen;
          chosen = filter (\<lambda>(name, _). \<not> list_ex (\<lambda>(n, _). n = name) unreadable) chosen;
          archives = (if chosen = [] then [] else overlay gz packed model release)
      in (bindR (case devd of None \<Rightarrow> Inr archives
                 | Some binary \<Rightarrow> bindR (devd_overlay gz binary) (\<lambda>d. Inr (archives @ d))) (\<lambda>archives.
            Inr \<lparr>bm_archives = archives,
                 bm_run = map fst chosen,
                 bm_slot_run = ids ft disk slot (filter (\<lambda>n. n \<notin> set replaced) (map fst chosen)),
                 bm_incompatible = map (\<lambda>(n, c). (n, BootCompat c)) incompatible @
                                   map (\<lambda>(n, e). (n, BootPack e)) unreadable\<rparr>),
          disk))"

section \<open>The cached initramfs\<close>

record cache =
  c_out :: "bytes option"
  c_key :: "string option"

text \<open>The base file as \<open>metadata\<close> shows it: its length and, where the system has it, the time it
  was modified, in nanoseconds since 1970.\<close>

record base_file =
  bf_path :: string
  bf_len :: u64
  bf_modified :: "(128 word) option"

definition key_input :: "base_file \<Rightarrow> bytes \<Rightarrow> bytes" where
  "key_input b ovl =
     utf8_bytes (bf_path b) @ to_le 8 (bf_len b) @
     (case bf_modified b of None \<Rightarrow> [] | Some n \<Rightarrow> to_le 16 n) @ ovl"

definition nibble :: "nat \<Rightarrow> char" where
  "nibble d = char_of (if d < 10 then 48 + d else 87 + d)"

definition hex :: "bytes \<Rightarrow> string" where
  "hex bs = concat (map (\<lambda>b. [nibble (unat b div 16), nibble (unat b mod 16)]) bs)"

text \<open>The states the folder goes through while the file is rebuilt, in order; the app may stop
  at any of them, also in the middle of writing the key.\<close>

definition rebuild_states :: "bytes \<Rightarrow> string \<Rightarrow> cache \<Rightarrow> cache list" where
  "rebuild_states contents key c =
     [c, c\<lparr>c_key := None\<rparr>, \<lparr>c_out = Some contents, c_key = None\<rparr>] @
     map (\<lambda>n. \<lparr>c_out = Some contents, c_key = Some (take n key)\<rparr>) [0..<Suc (length key)]"

definition cache_hit :: "string \<Rightarrow> cache \<Rightarrow> bool" where
  "cache_hit key c = (c_out c \<noteq> None \<and> c_key c = Some key)"

definition cached_states :: "(bytes \<Rightarrow> bytes) \<Rightarrow> bytes \<Rightarrow> base_file \<Rightarrow> bytes \<Rightarrow> cache \<Rightarrow> cache list" where
  "cached_states sha contents b ovl c =
     (let key = hex (sha (key_input b ovl))
      in if cache_hit key c then [c] else rebuild_states (contents @ ovl) key c)"

definition cached_combined :: "(bytes \<Rightarrow> bytes) \<Rightarrow> bytes \<Rightarrow> base_file \<Rightarrow> bytes \<Rightarrow> cache \<Rightarrow> cache" where
  "cached_combined sha contents b ovl c = last (cached_states sha contents b ovl c)"

section \<open>The choice of mods, declaratively\<close>

fun keep_first :: "('a \<times> 'b) list \<Rightarrow> ('a \<times> 'b) list" where
  "keep_first [] = []"
| "keep_first (x # xs) = x # keep_first (filter (\<lambda>y. fst y \<noteq> fst x) xs)"

lemma keep_first_subset: "set (keep_first xs) \<subseteq> set xs"
  by (induction xs rule: keep_first.induct) auto

lemma keep_first_distinct: "distinct (map fst (keep_first xs))"
proof (induction xs rule: keep_first.induct)
  case (2 x xs)
  then show ?case using keep_first_subset [of "filter (\<lambda>y. fst y \<noteq> fst x) xs"] by auto
qed simp

definition fits :: "toml_parser \<Rightarrow> mods_disk \<Rightarrow> model \<Rightarrow> string option \<Rightarrow> candidate \<Rightarrow> bool" where
  "fits ft disk model release c = runs (check_dir ft (files_at disk (snd c)) model release)"

lemma sort_out_fold:
  "fst (fold (sort_out_step ft disk model release) cs (run, inc)) =
   run @ keep_first (filter (\<lambda>c. fst c \<notin> fst ` set run \<and> fits ft disk model release c) cs)"
proof (induction cs arbitrary: run inc)
  case (Cons c cs)
  obtain n d where c: "c = (n, d)" by (cases c)
  show ?case
  proof (cases "n \<in> fst ` set run \<or> \<not> fits ft disk model release c")
    case True
    then obtain inc' where "sort_out_step ft disk model release c (run, inc) = (run, inc')"
      by (fastforce simp: sort_out_step_def c fits_def Let_def list_ex_iff split: if_splits)
    then show ?thesis using True Cons.IH [of run inc'] by (auto simp: c)
  next
    case False
    then have "sort_out_step ft disk model release c (run, inc) = (run @ [c], inc)"
      by (auto simp: sort_out_step_def c fits_def Let_def list_ex_iff image_iff)
    moreover have "filter (\<lambda>y. fst y \<noteq> n) (filter (\<lambda>x. fst x \<notin> fst ` set run \<and> fits ft disk model release x) cs) =
        filter (\<lambda>x. fst x \<notin> fst ` set (run @ [c]) \<and> fits ft disk model release x) cs"
      unfolding filter_filter by (rule filter_cong) (auto simp: c)
    ultimately show ?thesis using False Cons.IH [of "run @ [c]" inc] by (simp add: c)
  qed
qed simp

lemma sort_out_run: "fst (sort_out ft disk model release cs) = keep_first (filter (fits ft disk model release) cs)"
  using sort_out_fold [of ft disk model release cs "[]" "[]"] by (simp add: sort_out_def)

text \<open>The slot's fitting mods, each at an extra folder of its name when there is one, then the
  other extra folders.\<close>

definition with_extra :: "candidate list \<Rightarrow> candidate list \<Rightarrow> candidate list" where
  "with_extra slot extra =
     map (\<lambda>(n, d). (n, case map_of extra n of Some d' \<Rightarrow> d' | None \<Rightarrow> d)) slot @
     filter (\<lambda>c. fst c \<notin> fst ` set slot) extra"

lemma place_extra_fold:
  assumes "distinct (map fst es)" and "distinct (map fst s)"
  shows "fold (place_extra (length s)) es (s @ new, rep) =
    (map (\<lambda>(n, d). (n, case map_of es n of Some d' \<Rightarrow> d' | None \<Rightarrow> d)) s @ new @
       filter (\<lambda>c. fst c \<notin> fst ` set s) es,
     rep @ filter (\<lambda>n. n \<in> fst ` set s) (map fst es))"
  using assms
proof (induction es arbitrary: s new rep)
  case Nil
  then show ?case by (simp add: case_prod_unfold)
next
  case (Cons e es)
  obtain n d where e: "e = (n, d)" by (cases e)
  show ?case
  proof (cases "position (\<lambda>(m, _). m = n) s")
    case None
    then have "n \<notin> fst ` set s" by (auto simp: position_None)
    moreover have "place_extra (length s) e (s @ new, rep) = (s @ (new @ [e]), rep)"
      using None by (simp add: place_extra_def e)
    ultimately show ?thesis using Cons by (auto simp: e case_prod_unfold split: option.split intro!: map_cong)
  next
    case (Some i)
    then have i: "i < length s" "fst (s ! i) = n" by (auto simp: position_Some case_prod_unfold)
    then have n: "n \<in> fst ` set s" by (metis image_eqI nth_mem)
    let ?s = "s[i := (n, d)]"
    have names: "map fst ?s = map fst s" using i by (metis fst_conv list_update_id map_update nth_map)
    then have names': "fst ` set ?s = fst ` set s" by (metis image_set)
    have "place_extra (length s) e (s @ new, rep) = (?s @ new, rep @ [n])"
      using Some i by (simp add: place_extra_def e list_update_append)
    moreover have "map (\<lambda>(m, b). (m, case map_of es m of Some d' \<Rightarrow> d' | None \<Rightarrow> b)) ?s =
        map (\<lambda>(m, b). (m, case map_of (e # es) m of Some d' \<Rightarrow> d' | None \<Rightarrow> b)) s"
    proof (rule nth_equalityI)
      fix j assume "j < length (map (\<lambda>(m, b). (m, case map_of es m of Some d' \<Rightarrow> d' | None \<Rightarrow> b)) ?s)"
      then have j: "j < length s" by simp
      have "map_of es n = None" using Cons.prems(1) by (simp add: e map_of_eq_None_iff)
      moreover have "fst (s ! j) \<noteq> n" if "j \<noteq> i"
        using Cons.prems(2) i j that by (metis length_map nth_eq_iff_index_eq nth_map)
      ultimately show "map (\<lambda>(m, b). (m, case map_of es m of Some d' \<Rightarrow> d' | None \<Rightarrow> b)) ?s ! j =
          map (\<lambda>(m, b). (m, case map_of (e # es) m of Some d' \<Rightarrow> d' | None \<Rightarrow> b)) s ! j"
        using i j by (cases "j = i") (auto simp: e case_prod_unfold nth_list_update split: option.split)
    qed simp
    moreover have "fold (place_extra (length s)) es (?s @ new, rep @ [n]) =
        (map (\<lambda>(m, b). (m, case map_of es m of Some d' \<Rightarrow> d' | None \<Rightarrow> b)) ?s @ new @
           filter (\<lambda>c. fst c \<notin> fst ` set ?s) es, (rep @ [n]) @ filter (\<lambda>n. n \<in> fst ` set ?s) (map fst es))"
      using Cons.IH [of ?s new "rep @ [n]"] Cons.prems names by simp
    ultimately show ?thesis using n unfolding names' by (simp add: e)
  qed
qed

lemma boot_choice_eq:
  "boot_choice ft disk slot model release enabled extra =
   (let s = keep_first (filter (fits ft disk model release) (candidates enabled slot));
        e = keep_first (filter (fits ft disk model release) (extra_candidates ft disk extra))
    in (take MAX_MODS (with_extra s e), filter (\<lambda>n. n \<in> fst ` set s) (map fst e),
        snd (sort_out ft disk model release (candidates enabled slot)) @
        snd (sort_out ft disk model release (extra_candidates ft disk extra))))"
proof -
  let ?s = "keep_first (filter (fits ft disk model release) (candidates enabled slot))"
  let ?e = "keep_first (filter (fits ft disk model release) (extra_candidates ft disk extra))"
  have "fold (place_extra (length ?s)) ?e (?s, []) = (with_extra ?s ?e, filter (\<lambda>n. n \<in> fst ` set ?s) (map fst ?e))"
    unfolding with_extra_def using place_extra_fold [OF keep_first_distinct keep_first_distinct, of _ _ "[]" "[]"]
    by (simp only: append_Nil append_Nil2)
  then show ?thesis
    using sort_out_run [of ft disk model release]
    by (simp add: boot_choice_def Let_def case_prod_unfold)
qed

lemma with_extra_distinct:
  assumes "distinct (map fst s)" and "distinct (map fst e)"
  shows "distinct (map fst (with_extra s e))"
proof -
  have "map fst (with_extra s e) = map fst s @ filter (\<lambda>n. n \<notin> fst ` set s) (map fst e)"
    by (simp add: with_extra_def filter_map comp_def case_prod_unfold)
  then show ?thesis using assms by auto
qed

lemma with_extra_mem: "c \<in> set (with_extra s e) \<Longrightarrow> c \<in> set s \<or> c \<in> set e"
  by (auto simp: with_extra_def split: option.splits dest: map_of_SomeD)

section \<open>What a boot runs\<close>

definition pack_fails :: "toml_parser \<Rightarrow> mods_disk \<Rightarrow> tree \<Rightarrow> (mod_place \<Rightarrow> string option) \<Rightarrow> candidate \<Rightarrow> bool" where
  "pack_fails ft disk t canonical c = isl (pack_mod ft disk t canonical c)"

lemma pack_fold:
  "fold (\<lambda>c (packed, failed).
       (case pack_mod ft disk t canonical c of
          Inr p \<Rightarrow> (packed @ [p], failed)
        | Inl e \<Rightarrow> (packed, failed @ [(fst c, e)]))) cs (ps, fs) =
   (ps @ map (\<lambda>c. projr (pack_mod ft disk t canonical c)) (filter (\<lambda>c. \<not> pack_fails ft disk t canonical c) cs),
    fs @ map (\<lambda>c. (fst c, projl (pack_mod ft disk t canonical c))) (filter (pack_fails ft disk t canonical) cs))"
  by (induction cs arbitrary: ps fs) (auto simp: pack_fails_def split: sum.split)

lemma pack_eq:
  "pack ft disk t canonical cs =
   (map (\<lambda>c. projr (pack_mod ft disk t canonical c)) (filter (\<lambda>c. \<not> pack_fails ft disk t canonical c) cs),
    map (\<lambda>c. (fst c, projl (pack_mod ft disk t canonical c))) (filter (pack_fails ft disk t canonical) cs))"
  unfolding pack_def using pack_fold [of ft disk t canonical cs "[]" "[]"] by simp

lemma pack_mod_name: "\<not> pack_fails ft disk t canonical c \<Longrightarrow> pk_name (projr (pack_mod ft disk t canonical c)) = fst c"
  by (auto simp: pack_fails_def pack_mod_def split: prod.splits sum.splits option.splits)

lemma packed_chosen:
  assumes "distinct (map fst cs)"
  shows "filter (\<lambda>(name, _). \<not> list_ex (\<lambda>(n, _). n = name) (snd (pack ft disk t canonical cs))) cs =
    filter (\<lambda>c. \<not> pack_fails ft disk t canonical c) cs"
proof (rule filter_cong [OF refl])
  fix c assume c: "c \<in> set cs"
  have uniq: "c' = c" if "c' \<in> set cs" "fst c' = fst c" for c'
    using assms c that by (metis distinct_map inj_onD)
  have "list_ex (\<lambda>(n, _). n = fst c) (snd (pack ft disk t canonical cs)) =
      (\<exists>c' \<in> set cs. pack_fails ft disk t canonical c' \<and> fst c' = fst c)"
    by (auto simp: pack_eq list_ex_iff)
  also have "\<dots> = pack_fails ft disk t canonical c" using uniq c by metis
  finally show "(case c of (name, _) \<Rightarrow> \<not> list_ex (\<lambda>(n, _). n = name) (snd (pack ft disk t canonical cs))) =
      (\<not> pack_fails ft disk t canonical c)"
    by (cases c) simp
qed

lemma boot_choice_facts:
  assumes "boot_choice ft disk slot model release enabled extra = (chosen, replaced, inc)"
  shows "distinct (map fst chosen)" "length chosen \<le> MAX_MODS"
    "c \<in> set chosen \<Longrightarrow> fits ft disk model release c \<and>
       c \<in> set (candidates enabled slot) \<union> set (extra_candidates ft disk extra)"
proof -
  define s where "s = keep_first (filter (fits ft disk model release) (candidates enabled slot))"
  define e where "e = keep_first (filter (fits ft disk model release) (extra_candidates ft disk extra))"
  have chosen: "chosen = take MAX_MODS (with_extra s e)"
    using assms unfolding boot_choice_eq Let_def s_def e_def by simp
  then show "distinct (map fst chosen)"
    using with_extra_distinct [of s e] keep_first_distinct unfolding s_def e_def
    by (metis distinct_take take_map)
  show "length chosen \<le> MAX_MODS" by (simp add: chosen)
  assume "c \<in> set chosen"
  then have "c \<in> set s \<or> c \<in> set e" using chosen with_extra_mem in_set_takeD by metis
  then show "fits ft disk model release c \<and> c \<in> set (candidates enabled slot) \<union> set (extra_candidates ft disk extra)"
    using keep_first_subset unfolding s_def e_def by fastforce
qed

lemma prepare_boot_Inr:
  assumes "prepare_boot ft gz t canonical swept disk model release enabled extra devd = (Inr b, disk')"
  obtains chosen replaced inc
  where "disk' = sweep swept (load_in ft disk) disk"
    and "boot_choice ft disk' (load_in ft disk) model release enabled extra = (chosen, replaced, inc)"
    and "bm_run b = map fst (filter (\<lambda>c. \<not> pack_fails ft disk' t canonical c) chosen)"
    and "bm_slot_run b = ids ft disk' (load_in ft disk) (filter (\<lambda>n. n \<notin> set replaced) (bm_run b))"
    and "bm_incompatible b = map (\<lambda>(n, c). (n, BootCompat c)) inc @
       map (\<lambda>(n, e). (n, BootPack e)) (snd (pack ft disk' t canonical chosen))"
    and "\<exists>d. bm_archives b =
       (if bm_run b = [] then [] else overlay gz (fst (pack ft disk' t canonical chosen)) model release) @ d \<and>
       (case devd of None \<Rightarrow> d = [] | Some bin \<Rightarrow> devd_overlay gz bin = Inr d)"
proof -
  have d: "disk' = sweep swept (load_in ft disk) disk"
    using assms by (simp add: prepare_boot_def Let_def case_prod_unfold)
  obtain chosen replaced inc
    where ch: "boot_choice ft disk' (load_in ft disk) model release enabled extra = (chosen, replaced, inc)"
    by (metis prod_cases3)
  note fil = packed_chosen [OF boot_choice_facts(1) [OF ch], of ft disk' t canonical]
  obtain packed unreadable where pk: "pack ft disk' t canonical chosen = (packed, unreadable)" by fastforce
  let ?kept = "filter (\<lambda>c. \<not> pack_fails ft disk' t canonical c) chosen"
  have eq: "filter (\<lambda>(name, _). \<not> list_ex (\<lambda>(n, _). n = name) unreadable) chosen = ?kept" using fil pk by simp
  have "bindR (case devd of None \<Rightarrow> Inr (if ?kept = [] then [] else overlay gz packed model release)
       | Some bin \<Rightarrow> bindR (devd_overlay gz bin) (\<lambda>d. Inr ((if ?kept = [] then [] else overlay gz packed model release) @ d)))
      (\<lambda>ar. Inr \<lparr>bm_archives = ar, bm_run = map fst ?kept,
          bm_slot_run = ids ft disk' (load_in ft disk) (filter (\<lambda>n. n \<notin> set replaced) (map fst ?kept)),
          bm_incompatible = map (\<lambda>(n, c). (n, BootCompat c)) inc @ map (\<lambda>(n, e). (n, BootPack e)) unreadable\<rparr>) = Inr b"
    using assms unfolding prepare_boot_def Let_def d [symmetric] ch
    by (cases devd) (simp_all add: pk eq)
  then show ?thesis using that [OF d ch] pk
    by (cases devd; cases "devd_overlay gz (the devd)") auto
qed

text \<open>C34: the mods a boot runs have distinct names and are at most ten; each has a readable
  manifest that admits the slot's model and release, and is an enabled mod of the slot or a folder given for
  this launch; and the archive appended to the initramfs carries exactly these mods, in this
  order, followed by the Developer Mode archive when that is on.\<close>

theorem boot_runs_checked:
  assumes "prepare_boot ft gz t canonical swept disk model release enabled extra devd = (Inr b, disk')"
  shows "distinct (bm_run b) \<and> length (bm_run b) \<le> MAX_MODS \<and>
    (\<forall>n \<in> set (bm_run b). \<exists>dir m. manifest_read ft (files_at disk' dir) = Inr m \<and>
       runs (manifest_check m model release) \<and>
       (n, dir) \<in> set (candidates enabled (load_in ft disk)) \<union> set (extra_candidates ft disk' extra)) \<and>
    (\<exists>packed d. map pk_name packed = bm_run b \<and>
       bm_archives b = (if bm_run b = [] then [] else overlay gz packed model release) @ d \<and>
       (case devd of None \<Rightarrow> d = [] | Some bin \<Rightarrow> devd_overlay gz bin = Inr d))"
  using assms
proof (rule prepare_boot_Inr)
  fix chosen replaced inc
  assume ch: "boot_choice ft disk' (load_in ft disk) model release enabled extra = (chosen, replaced, inc)"
    and run: "bm_run b = map fst (filter (\<lambda>c. \<not> pack_fails ft disk' t canonical c) chosen)"
    and ar: "\<exists>d. bm_archives b =
       (if bm_run b = [] then [] else overlay gz (fst (pack ft disk' t canonical chosen)) model release) @ d \<and>
       (case devd of None \<Rightarrow> d = [] | Some bin \<Rightarrow> devd_overlay gz bin = Inr d)"
  note facts = boot_choice_facts [OF ch]
  have 1: "distinct (bm_run b)" unfolding run using facts(1) by (rule distinct_map_filter)
  have 2: "length (bm_run b) \<le> MAX_MODS"
    unfolding run using facts(2) length_filter_le le_trans by (metis length_map)
  have 3: "\<exists>dir m. manifest_read ft (files_at disk' dir) = Inr m \<and> runs (manifest_check m model release) \<and>
       (n, dir) \<in> set (candidates enabled (load_in ft disk)) \<union> set (extra_candidates ft disk' extra)"
    if n: "n \<in> set (bm_run b)" for n
  proof -
    obtain dir where c: "(n, dir) \<in> set chosen" using n unfolding run by auto
    then have "runs (check_dir ft (files_at disk' dir) model release)"
      using facts(3) [OF c] by (simp add: fits_def)
    then obtain m where "manifest_read ft (files_at disk' dir) = Inr m" "runs (manifest_check m model release)"
      by (auto simp: check_dir_def runs_def split: sum.splits)
    then show ?thesis using facts(3) [OF c] by blast
  qed
  have 4: "map pk_name (fst (pack ft disk' t canonical chosen)) = bm_run b"
    unfolding run using pack_mod_name [of ft disk' t canonical] by (simp add: pack_eq)
  show ?thesis using 1 2 3 4 ar by blast
qed

definition example_boot_disk :: mods_disk where
  "example_boot_disk = \<lparr>d_list = Some (list_text [\<lparr>sm_name = ''theme'', sm_source = Installed ''theme.tgz'', sm_enabled = True\<rparr>]),
     d_installed = [''theme'' \<mapsto> example_dir ''theme''], d_elsewhere = (\<lambda>_. None), d_leftovers = [],
     d_report = None, d_logs = (\<lambda>_. None)\<rparr>"

definition example_tree :: tree where
  "example_tree = [(''/slot/theme'', [([0x62], NFile (Some [1, 2]) 0x1A4), (GIT, NBroken), ([0x61], NFolder ''/slot/theme/a'' 0x1ED)]),
     (''/slot/theme/a'', [])]"

lemma prepare_boot_plain: "\<exists>b. prepare_boot ft gz t canonical swept disk model release enabled extra None =
    (Inr b, sweep swept (load_in ft disk) disk)"
  by (simp add: prepare_boot_def Let_def case_prod_unfold)

lemma example_boot:
  obtains b where "prepare_boot example_toml id example_tree (\<lambda>_. Some ''/slot/theme'') (\<lambda>_. True)
      example_boot_disk Cdj3k None True [] None = (Inr b, sweep (\<lambda>_. True) (load_in example_toml example_boot_disk) example_boot_disk)"
    and "bm_run b = [''theme'']" and "bm_incompatible b = []"
proof -
  let ?d = "sweep (\<lambda>_. True) (load_in example_toml example_boot_disk) example_boot_disk"
  let ?c = "boot_choice example_toml ?d (load_in example_toml example_boot_disk) Cdj3k None True []"
  obtain b where b: "prepare_boot example_toml id example_tree (\<lambda>_. Some ''/slot/theme'') (\<lambda>_. True)
      example_boot_disk Cdj3k None True [] None = (Inr b, ?d)" using prepare_boot_plain by blast
  have c: "?c = ([(''theme'', InInstalled ''theme'')], [], [])" by code_simp
  have p: "\<not> pack_fails example_toml ?d example_tree (\<lambda>_. Some ''/slot/theme'') (''theme'', InInstalled ''theme'')"
    by code_simp
  show thesis
  proof (rule prepare_boot_Inr [OF b])
    fix chosen replaced inc
    assume "?c = (chosen, replaced, inc)"
      and "bm_run b = map fst (filter (\<lambda>c. \<not> pack_fails example_toml ?d example_tree (\<lambda>_. Some ''/slot/theme'') c) chosen)"
      and "bm_incompatible b = map (\<lambda>(n, c). (n, BootCompat c)) inc @
        map (\<lambda>(n, e). (n, BootPack e)) (snd (pack example_toml ?d example_tree (\<lambda>_. Some ''/slot/theme'') chosen))"
    then show thesis using that [OF b] c p by (auto simp: pack_eq)
  qed
qed

theorem boot_runs_checked_witness:
  "\<exists>b d. prepare_boot example_toml id example_tree (\<lambda>_. Some ''/slot/theme'') (\<lambda>_. True)
      example_boot_disk Cdj3k None True [] None = (Inr b, d) \<and> bm_run b = [''theme''] \<and> distinct (bm_run b)"
  using example_boot boot_runs_checked by metis

text \<open>C35: the choice of mods for a boot is what its description says: the slot's enabled mods
  that fit, the first of each name, in list order; each replaced by the extra folder of its name if one fits;
  then the other extra folders that fit; and of these the first ten. The mods reported as replaced are
  the names of extra folders that took a slot mod's place.\<close>

theorem boot_choice_refines:
  "boot_choice ft disk slot model release enabled extra = (chosen, replaced, inc) \<Longrightarrow>
   (let s = keep_first (filter (fits ft disk model release) (candidates enabled slot));
        e = keep_first (filter (fits ft disk model release) (extra_candidates ft disk extra))
    in chosen = take MAX_MODS (with_extra s e) \<and> replaced = filter (\<lambda>n. n \<in> fst ` set s) (map fst e))"
  by (simp add: boot_choice_eq Let_def)

theorem boot_choice_refines_witness:
  "fst (boot_choice example_toml (example_boot_disk\<lparr>d_elsewhere := [''/dev/t'' \<mapsto> example_dir ''theme'']\<rparr>)
     (load_in example_toml example_boot_disk) Cdj3k None True [''/dev/t'']) = [(''theme'', Elsewhere ''/dev/t'')]"
proof -
  let ?d = "example_boot_disk\<lparr>d_elsewhere := [''/dev/t'' \<mapsto> example_dir ''theme'']\<rparr>"
  let ?s = "load_in example_toml example_boot_disk"
  obtain chosen replaced inc
    where "boot_choice example_toml ?d ?s Cdj3k None True [''/dev/t''] = (chosen, replaced, inc)" by (metis prod_cases3)
  from this boot_choice_refines [OF this] have "fst (boot_choice example_toml ?d ?s Cdj3k None True [''/dev/t'']) =
    take MAX_MODS (with_extra (keep_first (filter (fits example_toml ?d Cdj3k None) (candidates True ?s)))
      (keep_first (filter (fits example_toml ?d Cdj3k None) (extra_candidates example_toml ?d [''/dev/t'']))))"
    by (simp add: Let_def)
  also have "\<dots> = [(''theme'', Elsewhere ''/dev/t'')]" by code_simp
  finally show ?thesis .
qed



section \<open>What the walk finds\<close>

declare walk.simps [simp del]

text \<open>The files and folders under a folder, by the names leading to them; \<open>.git\<close> is skipped.\<close>

inductive under :: "tree \<Rightarrow> string \<Rightarrow> bytes list \<Rightarrow> node \<Rightarrow> bool" for t where
  child: "map_of t r = Some cs \<Longrightarrow> (n, nd) \<in> set cs \<Longrightarrow> n \<noteq> GIT \<Longrightarrow> under t r [n] nd"
| deeper: "map_of t r = Some cs \<Longrightarrow> (n, NFolder r' m) \<in> set cs \<Longrightarrow> n \<noteq> GIT \<Longrightarrow> under t r' ns nd \<Longrightarrow> under t r (n # ns) nd"

definition entry_at :: "bytes \<Rightarrow> bytes list \<Rightarrow> node \<Rightarrow> entry option" where
  "entry_at guest ns nd =
     (let p = foldl path_join guest ns
      in case nd of
           NFolder _ mode \<Rightarrow> Some (entry_dir p mode)
         | NFile (Some data) mode \<Rightarrow> Some (entry_file p data mode)
         | _ \<Rightarrow> None)"

text \<open>The entries for a list of children.\<close>

definition node_entry :: "tree \<Rightarrow> bytes \<Rightarrow> entry \<Rightarrow> bytes \<times> node \<Rightarrow> bool" where
  "node_entry t guest e x =
     (case x of (n, nd) \<Rightarrow> n \<noteq> GIT \<and>
        (entry_at guest [n] nd = Some e \<or>
         (\<exists>r m ns nd'. nd = NFolder r m \<and> under t r ns nd' \<and> entry_at (path_join guest n) ns nd' = Some e)))"

definition child_entry :: "tree \<Rightarrow> (bytes \<times> node) list \<Rightarrow> bytes \<Rightarrow> entry \<Rightarrow> bool" where
  "child_entry t cs guest e = (\<exists>x \<in> set cs. node_entry t guest e x)"

lemma under_child_entry:
  assumes "map_of t r = Some cs"
  shows "(\<exists>ns nd. under t r ns nd \<and> entry_at guest ns nd = Some e) = child_entry t cs guest e"
proof
  assume "\<exists>ns nd. under t r ns nd \<and> entry_at guest ns nd = Some e"
  then obtain ns nd where u: "under t r ns nd" "entry_at guest ns nd = Some e" by blast
  from u(1) show "child_entry t cs guest e"
  proof (cases rule: under.cases)
    case (child cs' n)
    then have "node_entry t guest e (n, nd)" using u(2) by (simp add: node_entry_def)
    then show ?thesis using child assms by (auto simp: child_entry_def)
  next
    case (deeper cs' n r' m ns')
    then have "entry_at (path_join guest n) ns' nd = Some e" using u(2) by (simp add: entry_at_def)
    then have "node_entry t guest e (n, NFolder r' m)" using deeper by (auto simp: node_entry_def)
    then show ?thesis using deeper assms by (auto simp: child_entry_def)
  qed
next
  assume "child_entry t cs guest e"
  then obtain n nd where n: "(n, nd) \<in> set cs" "n \<noteq> GIT"
    and e: "entry_at guest [n] nd = Some e \<or>
       (\<exists>r m ns nd'. nd = NFolder r m \<and> under t r ns nd' \<and> entry_at (path_join guest n) ns nd' = Some e)"
    unfolding child_entry_def node_entry_def by blast
  from e show "\<exists>ns nd. under t r ns nd \<and> entry_at guest ns nd = Some e"
  proof
    assume "entry_at guest [n] nd = Some e"
    then show ?thesis using under.child [OF assms n] by blast
  next
    assume "\<exists>r m ns nd'. nd = NFolder r m \<and> under t r ns nd' \<and> entry_at (path_join guest n) ns nd' = Some e"
    then obtain r' m ns nd' where d: "nd = NFolder r' m" "under t r' ns nd'" "entry_at (path_join guest n) ns nd' = Some e"
      by blast
    then have "under t r (n # ns) nd'" using under.deeper [OF assms] n by blast
    moreover have "entry_at guest (n # ns) nd' = Some e" using d(3) by (simp add: entry_at_def)
    ultimately show ?thesis by blast
  qed
qed

lemma child_entry_Cons: "child_entry t (x # cs) guest e \<longleftrightarrow> node_entry t guest e x \<or> child_entry t cs guest e"
  by (simp add: child_entry_def)

lemma walk_entries:
  "walk t r guest seen = Inr es \<Longrightarrow> e \<in> set es \<longleftrightarrow> (\<exists>ns nd. under t r ns nd \<and> entry_at guest ns nd = Some e)"
  "walk_children t cs guest seen = Inr es \<Longrightarrow> e \<in> set es \<longleftrightarrow> child_entry t cs guest e"
proof (induction t r guest seen and t cs guest seen arbitrary: es and es rule: walk_walk_children.induct)
  case (1 t r guest seen)
  then obtain cs where cs: "map_of t r = Some cs" and n: "r \<notin> set seen"
    and w: "walk_children t (sort_key fst cs) guest (seen @ [r]) = Inr es"
    by (auto simp: walk.simps split: if_splits option.splits)
  have "child_entry t (sort_key fst cs) guest e = child_entry t cs guest e" by (simp add: child_entry_def)
  then show ?case using "1.IH" [OF n cs w] under_child_entry [OF cs] by simp
next
  case (2 t guest seen)
  then show ?case by (simp add: child_entry_def)
next
  case (3 t n nd cs guest seen)
  show ?case
  proof (cases "n = GIT")
    case True
    then show ?thesis using 3 by (simp add: child_entry_Cons node_entry_def)
  next
    case False
    show ?thesis
    proof (cases nd)
      case (NFolder r m)
      then obtain inner es' where "walk t r (path_join guest n) seen = Inr inner"
        "walk_children t cs guest seen = Inr es'" "es = entry_dir (path_join guest n) m # inner @ es'"
        using 3(5) False by (auto simp: Let_def bindR_eq_Inr)
      then show ?thesis using 3(2-4) False NFolder
        by (auto simp: child_entry_Cons node_entry_def entry_at_def [of guest "[n]"])
    next
      case (NFile d m)
      then obtain data es' where "d = Some data"
        "walk_children t cs guest seen = Inr es'" "es = entry_file (path_join guest n) data m # es'"
        using 3(5) False by (auto simp: Let_def bindR_eq_Inr split: option.splits)
      then show ?thesis using 3(2-4) False NFile by (auto simp: child_entry_Cons node_entry_def entry_at_def)
    qed (use 3(5) False in \<open>simp_all add: Let_def\<close>)
  qed
qed

definition leads :: "tree \<Rightarrow> string \<Rightarrow> string \<Rightarrow> bool" where
  "leads t a b = (\<exists>ns m. under t a ns (NFolder b m))"

lemma leads_child: "map_of t a = Some cs \<Longrightarrow> (n, NFolder b m) \<in> set cs \<Longrightarrow> n \<noteq> GIT \<Longrightarrow> leads t a b"
  unfolding leads_def using under.child by blast

lemma leads_step: "map_of t a = Some cs \<Longrightarrow> (n, NFolder b m) \<in> set cs \<Longrightarrow> n \<noteq> GIT \<Longrightarrow> leads t b c \<Longrightarrow> leads t a c"
  unfolding leads_def using under.deeper by blast

text \<open>A folder that lies on a loop, reached from \<open>a\<close>.\<close>

definition loops :: "tree \<Rightarrow> string \<Rightarrow> bool" where
  "loops t a = (\<exists>b. (b = a \<or> leads t a b) \<and> leads t b b)"

lemma walk_children_folder:
  "walk_children t cs g s = Inr es \<Longrightarrow> (n, NFolder r m) \<in> set cs \<Longrightarrow> n \<noteq> GIT \<Longrightarrow>
   \<exists>es'. walk t r (path_join g n) s = Inr es'"
proof (induction cs arbitrary: es)
  case (Cons c cs)
  obtain n' nd where c: "c = (n', nd)" by (cases c)
  show ?case
  proof (cases "c = (n, NFolder r m)")
    case True
    then show ?thesis using Cons.prems by (auto simp: Let_def bindR_eq_Inr)
  next
    case False
    obtain es' where "walk_children t cs g s = Inr es'"
      using Cons.prems(1)
      by (auto simp: c Let_def bindR_eq_Inr split: if_splits node.splits option.splits)
    then show ?thesis using Cons False by auto
  qed
qed simp

lemma walk_Inr_children:
  "walk t r g s = Inr es \<Longrightarrow>
   r \<notin> set s \<and> (\<exists>cs. map_of t r = Some cs \<and> walk_children t (sort_key fst cs) g (s @ [r]) = Inr es)"
  by (auto simp: walk.simps split: if_splits option.splits)

lemma walk_child:
  assumes "walk t r g s = Inr es" and "map_of t r = Some cs" and "(n, NFolder b m) \<in> set cs" and "n \<noteq> GIT"
  shows "\<exists>es'. walk t b (path_join g n) (s @ [r]) = Inr es'"
proof -
  have "walk_children t (sort_key fst cs) g (s @ [r]) = Inr es" using walk_Inr_children [OF assms(1)] assms(2) by simp
  then show ?thesis using walk_children_folder [of t "sort_key fst cs" g "s @ [r]" es n b m] assms(3,4) by simp
qed

lemma walk_under:
  assumes "under t r ns nd" and "walk t r g s = Inr es" and "nd = NFolder b m"
  shows "b \<noteq> r \<and> b \<notin> set s \<and> (\<exists>g' s' es'. walk t b g' s' = Inr es')"
  using assms
proof (induction arbitrary: g s es)
  case (child r cs n nd)
  obtain es' where "walk t b (path_join g n) (s @ [r]) = Inr es'"
    using walk_child [OF child(4) child(1)] child(2,3,5) by blast
  then show ?case using walk_Inr_children [of t b] by fastforce
next
  case (deeper r cs n r' m' ns nd)
  obtain es' where "walk t r' (path_join g n) (s @ [r]) = Inr es'"
    using walk_child [OF deeper(6) deeper(1-3)] by blast
  from deeper.IH [OF this deeper(7)] show ?case by auto
qed

lemma walk_Inr_no_loops: "walk t r g s = Inr es \<Longrightarrow> \<not> loops t r"
  unfolding loops_def leads_def using walk_under by metis

lemma walk_loops_back:
  "walk t r g s = Inl LoopsBack \<Longrightarrow> r \<in> set s \<or> (\<exists>b \<in> set s. leads t r b) \<or> loops t r"
  "walk_children t cs g s = Inl LoopsBack \<Longrightarrow>
     \<exists>n r m. (n, NFolder r m) \<in> set cs \<and> n \<noteq> GIT \<and> (r \<in> set s \<or> (\<exists>b \<in> set s. leads t r b) \<or> loops t r)"
proof (induction t r g s and t cs g s rule: walk_walk_children.induct)
  case (1 t r g s)
  show ?case
  proof (cases "r \<in> set s")
    case False
    then obtain cs where cs: "map_of t r = Some cs" "walk_children t (sort_key fst cs) g (s @ [r]) = Inl LoopsBack"
      using 1 by (auto simp: walk.simps split: option.splits)
    then obtain n r' m where c: "(n, NFolder r' m) \<in> set cs" "n \<noteq> GIT"
      and r': "r' \<in> set (s @ [r]) \<or> (\<exists>b \<in> set (s @ [r]). leads t r' b) \<or> loops t r'"
      using 1 False by fastforce
    have "leads t r r'" by (rule leads_child [OF cs(1) c])
    moreover have "leads t r x" if "leads t r' x" for x by (rule leads_step [OF cs(1) c that])
    ultimately show ?thesis using r' unfolding loops_def by (auto; metis)
  qed simp
next
  case (3 t n nd cs g s)
  show ?case
  proof (cases "n = GIT")
    case True
    then show ?thesis using 3 by auto
  next
    case False
    then consider (inner) r m where "nd = NFolder r m" "walk t r (path_join g n) s = Inl LoopsBack"
      | (rest) r m inner where "nd = NFolder r m" "walk t r (path_join g n) s = Inr inner" "walk_children t cs g s = Inl LoopsBack"
      | (plain) d m where "nd = NFile (Some d) m" "walk_children t cs g s = Inl LoopsBack"
      using "3.prems" by (auto simp: Let_def bindR_eq_Inl split: node.splits option.splits)
    then show ?thesis
    proof cases
      case inner
      then have "r \<in> set s \<or> (\<exists>b \<in> set s. leads t r b) \<or> loops t r" using 3(2) False by blast
      then show ?thesis using inner(1) False by auto
    next
      case rest
      then have "\<exists>n r m. (n, NFolder r m) \<in> set cs \<and> n \<noteq> GIT \<and> (r \<in> set s \<or> (\<exists>b \<in> set s. leads t r b) \<or> loops t r)"
        using 3(3) [OF False refl rest(1)] by blast
      then show ?thesis by (meson list.set_intros(2))
    next
      case plain
      then have "\<exists>n r m. (n, NFolder r m) \<in> set cs \<and> n \<noteq> GIT \<and> (r \<in> set s \<or> (\<exists>b \<in> set s. leads t r b) \<or> loops t r)"
        using 3(4) [OF False refl plain(1) refl] by blast
      then show ?thesis by (meson list.set_intros(2))
    qed
  qed
qed simp

text \<open>C37: reading a mod's folder ends on every file system, links and loops included. When it
  succeeds, it has found exactly the files and folders below, outside \<open>.git\<close>, each once with its path, contents
  and mode, and no link leads back to a folder above it; it reports a loop only when there is one.\<close>

theorem walk_ends:
  "case walk t r guest [] of
     Inr es \<Rightarrow> (\<forall>e. e \<in> set es \<longleftrightarrow> (\<exists>ns nd. under t r ns nd \<and> entry_at guest ns nd = Some e)) \<and> \<not> loops t r
   | Inl x \<Rightarrow> x = LoopsBack \<longrightarrow> loops t r"
proof (cases "walk t r guest []")
  case (Inl x)
  then show ?thesis using walk_loops_back(1) [of t r guest "[]"] by (auto)
next
  case (Inr es)
  then show ?thesis using walk_entries(1) [OF Inr] walk_Inr_no_loops [OF Inr] by simp
qed

theorem walk_ends_witness:
  "loops [(''/a'', [([0x78], NFolder ''/a'' 0x1ED)])] ''/a''"
proof -
  have "walk [(''/a'', [([0x78], NFolder ''/a'' 0x1ED)])] ''/a'' [] [] = Inl LoopsBack" by code_simp
  then show ?thesis using walk_ends [of "[(''/a'', [([0x78], NFolder ''/a'' 0x1ED)])]" "''/a''" "[]"] by simp
qed

section \<open>The lines for the app\<close>

lemma lines_of_terminated:
  assumes "\<forall>l \<in> set ls. CHR ''\<newline>'' \<notin> set l \<and> (l = [] \<or> last l \<noteq> CHR 0x0D)"
  shows "lines (concat (map (\<lambda>l. l @ [CHR ''\<newline>'']) ls)) = ls"
proof -
  have "lines (concat (map (\<lambda>l. l @ [CHR ''\<newline>'']) ls)) = map (end_line (CHR 0x0D)) ls"
    using assms by (intro lines_terminated) blast
  also have "\<dots> = ls"
  proof (rule map_idI)
    fix l assume "l \<in> set ls"
    then show "end_line (CHR 0x0D) l = l"
      using assms end_line_id [of l] by (cases "l = []") (auto simp: end_line_def strip_suffix_def)
  qed
  finally show ?thesis .
qed

lemma control_breaks: "is_control (CHR ''\<newline>'')" "is_control (CHR 0x0D)"
  by (simp_all add: is_control_def)

lemma guest_path_char:
  assumes "valid_name n" and "c \<in> set (guest_path i n)"
  shows "c \<noteq> CHR ''\<newline>''"
proof -
  have "c \<in> set GUEST_DIR \<or> c \<in> set (show_nat (i + 1)) \<or> c \<in> set n \<or> c \<in> {CHR ''/'', CHR ''-'', CHR ''0''}"
    using assms(2) by (auto simp: guest_path_def two_digits_def split: if_splits)
  then show ?thesis using valid_name_char [OF assms(1)] show_nat_all_digits [of c "i + 1"]
    by (auto simp: GUEST_DIR_def is_digit_def)
qed

text \<open>C39: the file the guest reads for a mod has exactly one line for each library and each
  variable its manifest declares, in order, whatever they contain: no declared value can add a line of its own.\<close>

theorem mod_file_lines:
  assumes "manifest_read ft d = Inr m" and "valid_name name"
  shows "lines (mod_lines (guest_path i name) m) =
    map (\<lambda>lib. ''preload '' @ guest_path i name @ ''/'' @ lib) (man_preload m) @
    map (\<lambda>(key, value). ''env '' @ key @ ''='' @ value) (man_env m)"
proof -
  let ?p = "\<lambda>lib. ''preload '' @ guest_path i name @ ''/'' @ lib"
  let ?e = "\<lambda>(key, value). ''env '' @ key @ ''='' @ value"
  let ?ls = "map ?p (man_preload m) @ map ?e (man_env m)"
  have ok: "manifest_ok m" using manifest_read_ok [OF assms(1)] by blast
  have "CHR ''\<newline>'' \<notin> set (?p lib) \<and> last (?p lib) \<noteq> CHR 0x0D" if "lib \<in> set (man_preload m)" for lib
  proof -
    have "preload_inside lib" using ok that by (simp add: manifest_ok_def list_all_iff)
    then have "lib \<noteq> []" "\<forall>c \<in> set lib. \<not> is_control c"
      by (auto simp: preload_inside_def valid_preload_def list_ex_iff)
    moreover from this have "last lib \<noteq> CHR 0x0D" using control_breaks last_in_set by metis
    ultimately show ?thesis using guest_path_char [OF assms(2)] control_breaks by auto
  qed
  moreover have "CHR ''\<newline>'' \<notin> set (?e kv) \<and> last (?e kv) \<noteq> CHR 0x0D" if "kv \<in> set (man_env m)" for kv
  proof -
    have "env_pair_ok kv" using ok that by (simp add: manifest_ok_def list_all_iff)
    then have "list_all (\<lambda>c. is_alnum c \<or> c = CHR ''_'') (fst kv)" and v: "\<forall>c \<in> set (snd kv). \<not> is_control c"
      by (auto simp: env_pair_ok_def valid_env_key_def valid_env_value_def list_ex_iff)
    then have "CHR ''\<newline>'' \<notin> set (fst kv)" by (auto simp: list_all_iff is_alnum_def is_alpha_def is_upper_def is_lower_def is_digit_def)
    moreover have "snd kv = [] \<or> last (snd kv) \<noteq> CHR 0x0D" using v control_breaks last_in_set by metis
    ultimately show ?thesis using v control_breaks by (cases kv) auto
  qed
  ultimately have "lines (concat (map (\<lambda>l. l @ [CHR ''\<newline>'']) ?ls)) = ?ls"
    by (intro lines_of_terminated) auto
  moreover have "mod_lines (guest_path i name) m = concat (map (\<lambda>l. l @ [CHR ''\<newline>'']) ?ls)"
    by (simp add: mod_lines_def comp_def case_prod_unfold)
  ultimately show ?thesis by simp
qed

definition example_env_toml :: toml_parser where
  "example_env_toml t = Some [(''mod'', TTab [(''name'', TStr t), (''version'', TStr ''1''),
     (''preload'', TArr [TStr ''mod.toml'']), (''env'', TTab [(''K'', TStr ''v w'')])])]"

theorem mod_file_lines_witness:
  "lines (mod_lines (guest_path 0 ''theme'') (projr (manifest_read example_env_toml (example_dir ''theme'')))) =
     [''preload /opt/cdj3k-mods/01-theme/mod.toml'', ''env K=v w'']"
proof -
  let ?m = "manifest_read example_env_toml (example_dir ''theme'')"
  have "\<not> isl ?m" by code_simp
  then have "?m = Inr (projr ?m)" by (cases ?m) auto
  moreover have "valid_name ''theme''" by code_simp
  ultimately have "lines (mod_lines (guest_path 0 ''theme'') (projr ?m)) =
    map (\<lambda>lib. ''preload '' @ guest_path 0 ''theme'' @ ''/'' @ lib) (man_preload (projr ?m)) @
    map (\<lambda>(key, value). ''env '' @ key @ ''='' @ value) (man_env (projr ?m))"
    by (rule mod_file_lines)
  also have "\<dots> = [''preload /opt/cdj3k-mods/01-theme/mod.toml'', ''env K=v w'']" by code_simp
  finally show ?thesis .
qed

section \<open>The cached initramfs is never stale\<close>

lemma nibble_inject: "a < 16 \<Longrightarrow> b < 16 \<Longrightarrow> nibble a = nibble b \<Longrightarrow> a = b"
  unfolding nibble_def char_of_eq_iff by (auto simp: take_bit_eq_mod split: if_splits)

lemma hex_inject: "hex a = hex b \<Longrightarrow> a = b"
proof (induction a arbitrary: b)
  case Nil
  then show ?case by (cases b) (simp_all add: hex_def)
next
  case (Cons x a)
  then obtain y b' where b: "b = y # b'" by (cases b) (simp_all add: hex_def)
  have "unat x < 256" "unat y < 256" using unsigned_less [of x, where ?'a = nat] unsigned_less [of y, where ?'a = nat] by simp_all
  then have "unat x div 16 < 16" "unat y div 16 < 16" by simp_all
  then have "unat x div 16 = unat y div 16" "unat x mod 16 = unat y mod 16"
    using Cons.prems nibble_inject unfolding b by (simp_all add: hex_def)
  then have "x = y" by (metis div_mult_mod_eq unsigned_word_eqI)
  then show ?case using Cons by (simp add: b hex_def)
qed

lemma length_hex: "length (hex bs) = 2 * length bs"
  by (induction bs) (simp_all add: hex_def)

lemma key_input_inject:
  assumes "bf_path a = bf_path b" and "bf_modified a = Some m" and "bf_modified b = Some n"
    and "key_input a x = key_input b y"
  shows "a = b \<and> x = y"
proof -
  have "to_le 8 (bf_len a) = to_le 8 (bf_len b)" "to_le 16 m = to_le 16 n" "x = y"
    using assms by (auto simp: key_input_def)
  then have "bf_len a = bf_len b" "m = n" using to_le_inject [of 8 "bf_len a"] to_le_inject [of 16 m] by simp_all
  then show ?thesis using assms \<open>x = y\<close> by simp
qed

text \<open>The states the slot's cache can be in: calls with any base file of the slot's path and any
  archives, each possibly stopped in the middle. \<open>s\<close> is the set of hash inputs that occur.\<close>

inductive cache_reach :: "(bytes \<Rightarrow> bytes) \<Rightarrow> (base_file \<Rightarrow> bytes) \<Rightarrow> string \<Rightarrow> bytes set \<Rightarrow> cache \<Rightarrow> bool"
  for sha contents path s where
  fresh: "cache_reach sha contents path s \<lparr>c_out = None, c_key = None\<rparr>"
| call: "cache_reach sha contents path s c \<Longrightarrow> bf_path b = path \<Longrightarrow> bf_modified b = Some m \<Longrightarrow>
    key_input b ovl \<in> s \<Longrightarrow> c' \<in> set (cached_states sha (contents b) b ovl c) \<Longrightarrow>
    cache_reach sha contents path s c'"

definition cache_valid :: "(bytes \<Rightarrow> bytes) \<Rightarrow> (base_file \<Rightarrow> bytes) \<Rightarrow> string \<Rightarrow> bytes set \<Rightarrow> cache \<Rightarrow> bool" where
  "cache_valid sha contents path s c =
     (\<forall>k. c_key c = Some k \<longrightarrow>
        (\<exists>b m ovl n. bf_path b = path \<and> bf_modified b = Some m \<and> key_input b ovl \<in> s \<and>
           k = take n (hex (sha (key_input b ovl))) \<and> c_out c = Some (contents b @ ovl)))"

lemma cache_reach_valid: "cache_reach sha contents path s c \<Longrightarrow> cache_valid sha contents path s c"
proof (induction rule: cache_reach.induct)
  case fresh
  then show ?case by (simp add: cache_valid_def)
next
  case (call c b m ovl c')
  let ?key = "hex (sha (key_input b ovl))"
  consider "c' = c" | "c_key c' = None" | n where "c_out c' = Some (contents b @ ovl)" "c_key c' = Some (take n ?key)"
    using call(5) by (auto simp: cached_states_def rebuild_states_def Let_def simp del: upt_Suc split: if_splits)
  then show ?case
  proof cases
    case 3
    then show ?thesis using call(2-4) unfolding cache_valid_def by auto
  qed (use call in \<open>simp_all add: cache_valid_def\<close>)
qed

lemma cache_hit_current:
  assumes "cache_valid sha contents path s c" and "inj_on sha s" and "\<And>x. x \<in> s \<Longrightarrow> length (sha x) = 32"
    and "bf_path b = path" and "bf_modified b = Some m" and "key_input b ovl \<in> s"
    and "cache_hit (hex (sha (key_input b ovl))) c"
  shows "c_out c = Some (contents b @ ovl)"
proof -
  obtain b' m' ovl' n where b': "bf_path b' = path" "bf_modified b' = Some m'" "key_input b' ovl' \<in> s"
      "hex (sha (key_input b ovl)) = take n (hex (sha (key_input b' ovl')))" "c_out c = Some (contents b' @ ovl')"
    using assms(1,7) unfolding cache_valid_def cache_hit_def by blast
  have "length (hex (sha (key_input b ovl))) = length (hex (sha (key_input b' ovl')))"
    using assms(3,6) b'(3) by (simp add: length_hex)
  then have "hex (sha (key_input b ovl)) = hex (sha (key_input b' ovl'))" using b'(4)
    by (metis length_take min.absorb_iff2 min.cobounded1 nle_le take_all)
  then have "key_input b ovl = key_input b' ovl'" using hex_inject assms(2,6) b'(3) by (metis inj_onD)
  then have "b = b' \<and> ovl = ovl'" using key_input_inject assms(4,5) b'(1,2) by metis
  then show ?thesis using b'(5) by simp
qed

text \<open>C36: the initramfs a boot uses is the slot's base file followed by this boot's archives,
  also after earlier builds were stopped at any point, even in the middle of writing the key: given that
  the hash has no collision among the inputs that occurred, and its length is fixed, a call that
  completes leaves exactly the current contents.\<close>

theorem cache_serves_current:
  assumes "cache_reach sha contents path s c" and "inj_on sha s" and "\<And>x. x \<in> s \<Longrightarrow> length (sha x) = 32"
    and "bf_path b = path" and "bf_modified b = Some m" and "key_input b ovl \<in> s"
  shows "c_out (cached_combined sha (contents b) b ovl c) = Some (contents b @ ovl)"
proof (cases "cache_hit (hex (sha (key_input b ovl))) c")
  case True
  then show ?thesis
    using cache_hit_current [OF cache_reach_valid [OF assms(1)] assms(2-6) True]
    by (simp add: cached_combined_def cached_states_def Let_def)
next
  case False
  then show ?thesis by (simp add: cached_combined_def cached_states_def rebuild_states_def Let_def)
qed

definition example_base :: base_file where
  "example_base = \<lparr>bf_path = ''/b'', bf_len = 2, bf_modified = Some 7\<rparr>"

definition example_sha :: "bytes \<Rightarrow> bytes" where
  "example_sha x = replicate 31 0 @ [last x]"

theorem cache_serves_current_witness:
  "\<exists>c. c_key c = Some (take 5 (hex (example_sha (key_input example_base [1])))) \<and>
     c_out (cached_combined example_sha [9, 9] example_base [2] c) = Some [9, 9, 2]"
proof -
  let ?s = "{key_input example_base [1], key_input example_base [2]}"
  let ?c = "\<lparr>c_out = Some [9, 9, 1], c_key = Some (take 5 (hex (example_sha (key_input example_base [1]))))\<rparr>"
  let ?f = "\<lparr>c_out = None, c_key = None\<rparr> :: cache"
  have "?c \<in> set (cached_states example_sha [9, 9] example_base [1] ?f)" by code_simp
  then have "cache_reach example_sha (\<lambda>_. [9, 9]) ''/b'' ?s ?c"
    by (intro cache_reach.call [OF cache_reach.fresh, of example_base _ 7 "[1]"]) (simp_all add: example_base_def)
  moreover have "inj_on example_sha ?s"
    by (auto simp: inj_on_def example_sha_def key_input_def example_base_def)
  ultimately have "c_out (cached_combined example_sha [9, 9] example_base [2] ?c) = Some ([9, 9] @ [2])"
    by (rule cache_serves_current [where contents = "\<lambda>_. [9, 9]"]) (auto simp: example_sha_def example_base_def)
  then show ?thesis by (intro exI [of _ ?c]) simp
qed

end
