(* ===== verification/Gpt.thy ===== *)
theory Gpt
  imports RustText
begin

text \<open>
  The GPT writer, \<open>crates/cdj3k-emu-storage/src/gpt.rs\<close>. A disk is the bytes at each offset, a
  sparse file of zeros at first; a write replaces the bytes it covers. Offsets and sector numbers
  are \<open>u64\<close> values, kept in bounds by the guard of \<open>write_gpt\<close>, where the code would panic. The
  CRC-32 of the \<open>crc\<close> crate and the random GUIDs are arguments. The properties: both headers and
  both tables agree and pass their checksums, every partition reads back, and nothing between
  them is touched.
\<close>

section \<open>Disks\<close>

type_synonym disk = "nat \<Rightarrow> u8"

definition write_at :: "nat \<Rightarrow> bytes \<Rightarrow> disk \<Rightarrow> disk" where
  "write_at off bs d = (\<lambda>i. if off \<le> i \<and> i < off + length bs then bs ! (i - off) else d i)"

definition read_at :: "disk \<Rightarrow> nat \<Rightarrow> nat \<Rightarrow> bytes" where
  "read_at d off n = map d [off..<off + n]"

lemma length_read_at [simp]: "length (read_at d off n) = n"
  by (simp add: read_at_def)

lemma read_write_same [simp]: "n = length bs \<Longrightarrow> read_at (write_at off bs d) off n = bs"
  by (auto simp: read_at_def write_at_def intro: nth_equalityI)

lemma read_write_other: "off + n \<le> w \<or> w + length bs \<le> off \<Longrightarrow> read_at (write_at w bs d) off n = read_at d off n"
  by (auto simp: read_at_def write_at_def)

lemma write_at_outside: "i < w \<or> w + length bs \<le> i \<Longrightarrow> write_at w bs d i = d i"
  by (auto simp: write_at_def)

lemma read_at_inside: "o1 \<le> o2 \<Longrightarrow> o2 + m \<le> o1 + n \<Longrightarrow> read_at d o2 m = slice_of (o2 - o1) m (read_at d o1 n)"
  by (auto simp: read_at_def slice_of_def intro!: nth_equalityI)

section \<open>The partition table\<close>

definition SECTOR :: nat where "SECTOR = 512"
definition GPT_HEADER_LBA :: nat where "GPT_HEADER_LBA = 1"
definition GPT_ENTRIES_LBA :: nat where "GPT_ENTRIES_LBA = 2"
definition GPT_ENTRY_SIZE :: nat where "GPT_ENTRY_SIZE = 128"
definition GPT_MAX_ENTRIES :: nat where "GPT_MAX_ENTRIES = 128"
definition GPT_ENTRY_TABLE_SECTORS :: nat where
  "GPT_ENTRY_TABLE_SECTORS = GPT_MAX_ENTRIES * GPT_ENTRY_SIZE div SECTOR"
definition GPT_BACKUP_RESERVED_SECTORS :: nat where
  "GPT_BACKUP_RESERVED_SECTORS = 1 + GPT_ENTRY_TABLE_SECTORS"
definition GPT_FIRST_USABLE_LBA :: nat where
  "GPT_FIRST_USABLE_LBA = GPT_ENTRIES_LBA + GPT_ENTRY_TABLE_SECTORS"

definition le64 :: "nat \<Rightarrow> bytes" where "le64 n = to_le 8 (of_nat n :: u64)"
definition le32 :: "nat \<Rightarrow> bytes" where "le32 n = to_le 4 (of_nat n :: u32)"

definition guid_to_mixed :: "u32 \<Rightarrow> u16 \<Rightarrow> u16 \<Rightarrow> bytes \<Rightarrow> bytes" where
  "guid_to_mixed d1 d2 d3 d4 =
     [ucast (d1 AND 0xFF), ucast (drop_bit 8 d1 AND 0xFF), ucast (drop_bit 16 d1 AND 0xFF), ucast (drop_bit 24 d1 AND 0xFF),
      ucast (d2 AND 0xFF), ucast (drop_bit 8 d2 AND 0xFF),
      ucast (d3 AND 0xFF), ucast (drop_bit 8 d3 AND 0xFF)] @ d4"

definition TYPE_LINUX_DATA :: bytes where
  "TYPE_LINUX_DATA = guid_to_mixed 0x0FC63DAF 0x8483 0x4772 [0x8E, 0x79, 0x3D, 0x69, 0xD8, 0x47, 0x7D, 0xE4]"

definition TYPE_LINUX_RESERVED :: bytes where
  "TYPE_LINUX_RESERVED = guid_to_mixed 0x8DA63339 0x0007 0x60C0 [0xC4, 0x36, 0x08, 0x3A, 0xC8, 0x23, 0x09, 0x08]"

record part_entry =
  type_guid :: bytes
  part_guid :: bytes
  first_lba :: nat
  last_lba :: nat
  attrs :: nat
  pe_name :: string

text \<open>The types of the fields: 16-byte arrays and \<open>u64\<close> numbers.\<close>

definition part_ok :: "part_entry \<Rightarrow> bool" where
  "part_ok p = (length (type_guid p) = 16 \<and> length (part_guid p) = 16 \<and>
     first_lba p < 2 ^ 64 \<and> last_lba p < 2 ^ 64 \<and> attrs p < 2 ^ 64)"

text \<open>\<open>encode_utf16\<close>: one unit for each character up to U+00FF.\<close>

definition utf16_le :: "string \<Rightarrow> bytes" where
  "utf16_le s = concat (map (\<lambda>c. [of_nat (code c), 0]) s)"

definition entry_slot :: "part_entry \<Rightarrow> bytes" where
  "entry_slot p =
     put_at 56 (utf16_le (take 36 (pe_name p)))
     (put_at 48 (le64 (attrs p))
     (put_at 40 (le64 (last_lba p))
     (put_at 32 (le64 (first_lba p))
     (put_at 16 (part_guid p)
     (put_at 0 (type_guid p) (replicate GPT_ENTRY_SIZE 0))))))"

definition entry_table :: "part_entry list \<Rightarrow> bytes" where
  "entry_table parts =
     fold (\<lambda>(i, p) buf. put_at (i * GPT_ENTRY_SIZE) (entry_slot p) buf) (enumerate 0 parts)
       (replicate (GPT_MAX_ENTRIES * GPT_ENTRY_SIZE) 0)"

definition EFI_PART :: bytes where "EFI_PART = [0x45, 0x46, 0x49, 0x20, 0x50, 0x41, 0x52, 0x54]"

definition header_fields :: "nat \<Rightarrow> nat \<Rightarrow> nat \<Rightarrow> nat \<Rightarrow> u32 \<Rightarrow> bytes \<Rightarrow> bytes" where
  "header_fields my_lba alternate_lba entries_start_lba disk_sectors entries_crc disk_guid =
     put_at 88 (to_le 4 entries_crc)
     (put_at 84 (le32 GPT_ENTRY_SIZE)
     (put_at 80 (le32 GPT_MAX_ENTRIES)
     (put_at 72 (le64 entries_start_lba)
     (put_at 56 disk_guid
     (put_at 48 (le64 (disk_sectors - GPT_BACKUP_RESERVED_SECTORS - 1))
     (put_at 40 (le64 GPT_FIRST_USABLE_LBA)
     (put_at 32 (le64 alternate_lba)
     (put_at 24 (le64 my_lba)
     (put_at 12 (le32 92)
     (put_at 8 [0x00, 0x00, 0x01, 0x00]
     (put_at 0 EFI_PART (replicate 92 0))))))))))))"

definition build_header ::
  "(bytes \<Rightarrow> u32) \<Rightarrow> nat \<Rightarrow> nat \<Rightarrow> nat \<Rightarrow> nat \<Rightarrow> u32 \<Rightarrow> bytes \<Rightarrow> bytes" where
  "build_header crc32 my_lba alternate_lba entries_start_lba disk_sectors entries_crc disk_guid =
     (let h = header_fields my_lba alternate_lba entries_start_lba disk_sectors entries_crc disk_guid;
          h = put_at 16 (to_le 4 (crc32 h)) h
      in h @ replicate (SECTOR - length h) 0)"

definition pmbr :: "nat \<Rightarrow> bytes" where
  "pmbr disk_sectors =
     put_at (446 + 12) (le32 (min (disk_sectors - 1) 0xFFFFFFFF))
     (put_at (446 + 8) (le32 1)
     ((replicate 512 0)[510 := 0x55, 511 := 0xAA, 446 + 4 := 0xEE]))"

text \<open>\<open>None\<close> where the code panics: too many partitions, or sector arithmetic out of range.\<close>

definition write_gpt ::
  "(bytes \<Rightarrow> u32) \<Rightarrow> bytes \<Rightarrow> nat \<Rightarrow> part_entry list \<Rightarrow> disk \<Rightarrow> disk option" where
  "write_gpt crc32 disk_guid disk_sectors partitions d =
     (if GPT_MAX_ENTRIES < length partitions \<or> disk_sectors < GPT_BACKUP_RESERVED_SECTORS + 1 \<or>
         2 ^ 64 \<le> disk_sectors * SECTOR then None
      else
        let entry_buf = entry_table partitions;
            entries_crc = crc32 entry_buf;
            backup_entries_lba = disk_sectors - GPT_BACKUP_RESERVED_SECTORS;
            d = write_at 0 (pmbr disk_sectors) d;
            d = write_at (GPT_ENTRIES_LBA * SECTOR) entry_buf d;
            d = write_at (backup_entries_lba * SECTOR) entry_buf d;
            primary = build_header crc32 GPT_HEADER_LBA (disk_sectors - 1) GPT_ENTRIES_LBA disk_sectors entries_crc disk_guid;
            d = write_at (GPT_HEADER_LBA * SECTOR) primary d;
            backup = build_header crc32 (disk_sectors - 1) GPT_HEADER_LBA backup_entries_lba disk_sectors entries_crc disk_guid
        in Some (write_at ((disk_sectors - 1) * SECTOR) backup d))"

section \<open>What a reader of the table sees\<close>

lemmas gpt_consts = SECTOR_def GPT_HEADER_LBA_def GPT_ENTRIES_LBA_def GPT_ENTRY_SIZE_def GPT_MAX_ENTRIES_def
  GPT_ENTRY_TABLE_SECTORS_def GPT_BACKUP_RESERVED_SECTORS_def GPT_FIRST_USABLE_LBA_def

definition num_at :: "nat \<Rightarrow> bytes \<Rightarrow> nat" where
  "num_at i h = unat (from_le (slice_of i 8 h) :: u64)"

definition num32_at :: "nat \<Rightarrow> bytes \<Rightarrow> nat" where
  "num32_at i h = unat (from_le (slice_of i 4 h) :: u32)"

text \<open>The checks of the UEFI specification on one header sector \<open>h\<close> at sector \<open>lba\<close>.\<close>

definition header_valid :: "(bytes \<Rightarrow> u32) \<Rightarrow> disk \<Rightarrow> nat \<Rightarrow> bool" where
  "header_valid crc32 d lba =
     (let h = read_at d (lba * SECTOR) SECTOR
      in slice_of 0 8 h = EFI_PART \<and> num32_at 12 h = 92 \<and>
         slice_of 16 4 h = to_le 4 (crc32 (put_at 16 [0, 0, 0, 0] (take 92 h))) \<and>
         num_at 24 h = lba \<and>
         slice_of 88 4 h = to_le 4 (crc32 (read_at d (num_at 72 h * SECTOR) (num32_at 80 h * num32_at 84 h))))"

definition read_part :: "disk \<Rightarrow> nat \<Rightarrow> nat \<Rightarrow> bytes \<times> bytes \<times> nat \<times> nat \<times> nat \<times> bytes" where
  "read_part d table_lba i =
     (let e = read_at d (table_lba * SECTOR + i * GPT_ENTRY_SIZE) GPT_ENTRY_SIZE
      in (slice_of 0 16 e, slice_of 16 16 e, num_at 32 e, num_at 40 e, num_at 48 e, slice_of 56 72 e))"

lemma length_le64 [simp]: "length (le64 n) = 8" and length_le32 [simp]: "length (le32 n) = 4"
  by (simp_all add: le64_def le32_def)

lemma put_at_overwrites: "length a = length b \<Longrightarrow> i + length b \<le> length x \<Longrightarrow> put_at i a (put_at i b x) = put_at i a x"
  by (simp add: put_at_def)

lemma put_at_slice: "i + n \<le> length x \<Longrightarrow> put_at i (slice_of i n x) x = x"
  by (metis append_take_drop_id drop_drop add.commute length_slice_of put_at_def slice_of_def)

lemma slice_replicate: "i + n \<le> m \<Longrightarrow> slice_of i n (replicate m x) = replicate n x"
  by (simp add: slice_of_def)

lemma replicate_4: "replicate 4 x = [x, x, x, x]"
  by (simp add: numeral_eq_Suc)

lemma num_le64: "n < 2 ^ 64 \<Longrightarrow> unat (from_le (le64 n) :: u64) = n"
  by (simp add: le64_def unat_of_nat take_bit_eq_mod)

lemma num_le32: "n < 2 ^ 32 \<Longrightarrow> unat (from_le (le32 n) :: u32) = n"
  by (simp add: le32_def unat_of_nat take_bit_eq_mod)

lemma put_at_end: "i = length pre \<Longrightarrow> length ys \<le> n \<Longrightarrow>
    put_at i ys (pre @ replicate n x) = (pre @ ys) @ replicate (n - length ys) x"
  by (simp add: put_at_def)

text \<open>The fields one after the other.\<close>

lemma header_fields_parts:
  assumes "length guid = 16"
  shows "header_fields a b c n k guid =
    concat [EFI_PART, [0x00, 0x00, 0x01, 0x00], le32 92, [0, 0, 0, 0], [0, 0, 0, 0], le64 a, le64 b, le64 34, le64 (n - 34),
      guid, le64 c, le32 128, le32 128, to_le 4 k]"
proof -
  define pre where "pre = EFI_PART @ [0, 0, 1, 0] @ le32 92 @ [0, 0, 0, 0] @ [0, 0, 0, 0]"
  have pre: "length pre = 24" by (simp add: pre_def EFI_PART_def)
  have "put_at 0 EFI_PART (replicate 92 0) = EFI_PART @ replicate 84 0"
    using put_at_end [of 0 "[]" EFI_PART 92 0] by (simp add: EFI_PART_def)
  moreover have "put_at 12 (le32 92) (put_at 8 [0, 0, 1, 0] (EFI_PART @ replicate 84 0)) = pre @ replicate 68 0"
    by (simp add: pre_def put_at_end EFI_PART_def put_at_def numeral_eq_Suc)
  ultimately have "header_fields a b c n k guid =
      pre @ le64 a @ le64 b @ le64 34 @ le64 (n - 34) @ guid @ le64 c @ le32 128 @ le32 128 @ to_le 4 k"
    using assms pre unfolding header_fields_def gpt_consts by (simp add: put_at_end del: append_assoc)
  then show ?thesis by (simp add: pre_def)
qed

lemma length_header_fields [simp]: "length guid = 16 \<Longrightarrow> length (header_fields a b c n k guid) = 92"
  by (simp add: header_fields_parts EFI_PART_def)

lemma slice_of_parts: "slice_of (length (concat xs)) (length y) (concat (xs @ y # zs)) = y"
  by (simp add: slice_of_def)

lemma header_fields_read:
  assumes "length guid = 16" and h_def: "h = header_fields a b c n k guid"
  shows "slice_of 0 8 h = EFI_PART" "slice_of 12 4 h = le32 92" "slice_of 16 4 h = [0, 0, 0, 0]"
    "slice_of 24 8 h = le64 a" "slice_of 32 8 h = le64 b" "slice_of 40 8 h = le64 34"
    "slice_of 48 8 h = le64 (n - 34)" "slice_of 56 16 h = guid" "slice_of 72 8 h = le64 c"
    "slice_of 80 4 h = le32 128" "slice_of 84 4 h = le32 128" "slice_of 88 4 h = to_le 4 k"
  unfolding h_def header_fields_parts [OF assms(1)] using assms(1)
  by (simp_all add: slice_of_def EFI_PART_def)

lemma slice_of_append_left: "i + n \<le> length xs \<Longrightarrow> slice_of i n (xs @ ys) = slice_of i n xs"
  by (simp add: slice_of_def)

lemma build_header_facts:
  fixes crc32 :: "bytes \<Rightarrow> u32"
  assumes "length guid = 16" and f_def: "f = header_fields a b c n k guid"
    and h_def: "h = build_header crc32 a b c n k guid"
  shows "length h = 512" "take 92 h = put_at 16 (to_le 4 (crc32 f)) f"
    "put_at 16 [0, 0, 0, 0] (take 92 h) = f" "slice_of 16 4 h = to_le 4 (crc32 f)"
    "\<And>i m. i + m \<le> 92 \<Longrightarrow> i + m \<le> 16 \<or> 20 \<le> i \<Longrightarrow> slice_of i m h = slice_of i m f"
proof -
  have f: "length f = 92" using assms(1) by (simp add: f_def)
  have h: "h = put_at 16 (to_le 4 (crc32 f)) f @ replicate (512 - 92) 0"
    using f by (simp add: h_def build_header_def Let_def f_def SECTOR_def)
  show "length h = 512" using f by (simp add: h)
  show t: "take 92 h = put_at 16 (to_le 4 (crc32 f)) f" using f by (simp add: h)
  have "put_at 16 [0, 0, 0, 0] f = put_at 16 (slice_of 16 4 f) f"
    using header_fields_read(3) [OF assms(1) f_def] by simp
  also have "\<dots> = f" using f by (simp add: put_at_slice)
  finally show "put_at 16 [0, 0, 0, 0] (take 92 h) = f" using f unfolding t by (simp add: put_at_overwrites)
  show "slice_of 16 4 h = to_le 4 (crc32 f)" using f by (simp add: h slice_of_append_left)
  show "slice_of i m h = slice_of i m f" if "i + m \<le> 92" "i + m \<le> 16 \<or> 20 \<le> i" for i m
    using f that by (simp add: h slice_of_append_left)
qed

lemma length_entry_slot [simp]:
  assumes "part_ok p"
  shows "length (entry_slot p) = 128"
proof -
  have "length (utf16_le (take 36 (pe_name p))) = 2 * length (take 36 (pe_name p))"
    by (simp add: utf16_le_def length_concat comp_def sum_list_triv)
  then show ?thesis using assms by (simp add: entry_slot_def part_ok_def GPT_ENTRY_SIZE_def)
qed

lemma entry_table_fold:
  assumes "\<forall>p \<in> set parts. part_ok p" and "(k + length parts) * 128 \<le> length buf"
  shows "length (fold (\<lambda>(i, p) buf. put_at (i * 128) (entry_slot p) buf) (enumerate k parts) buf) = length buf \<and>
    (\<forall>i < length parts. slice_of ((k + i) * 128) 128
       (fold (\<lambda>(i, p) buf. put_at (i * 128) (entry_slot p) buf) (enumerate k parts) buf) = entry_slot (parts ! i)) \<and>
    (\<forall>j m. j + m \<le> k * 128 \<longrightarrow> slice_of j m
       (fold (\<lambda>(i, p) buf. put_at (i * 128) (entry_slot p) buf) (enumerate k parts) buf) = slice_of j m buf)"
  using assms
proof (induction parts arbitrary: k buf)
  case (Cons p ps)
  let ?buf = "put_at (k * 128) (entry_slot p) buf"
  let ?r = "fold (\<lambda>(i, p) buf. put_at (i * 128) (entry_slot p) buf) (enumerate (Suc k) ps) ?buf"
  have p: "length (entry_slot p) = 128" using Cons.prems by simp
  have l: "length ?buf = length buf" using Cons.prems(2) p by simp
  have IH: "length ?r = length buf" "\<forall>i < length ps. slice_of ((Suc k + i) * 128) 128 ?r = entry_slot (ps ! i)"
    "\<forall>j m. j + m \<le> Suc k * 128 \<longrightarrow> slice_of j m ?r = slice_of j m ?buf"
    using Cons.IH [of "Suc k" ?buf] Cons.prems l by auto
  have "slice_of (k * 128) 128 ?r = entry_slot p"
    using IH(3) Cons.prems(2) p by simp
  then have "\<forall>i < length (p # ps). slice_of ((k + i) * 128) 128 ?r = entry_slot ((p # ps) ! i)"
    using IH(2) by (auto simp: less_Suc_eq_0_disj algebra_simps)
  moreover have "\<forall>j m. j + m \<le> k * 128 \<longrightarrow> slice_of j m ?r = slice_of j m buf"
    using IH(3) Cons.prems(2) p by simp
  ultimately show ?case using IH(1) by (simp del: fold_simps add: fold_simps(2))
qed simp

lemma entry_table_facts:
  assumes "\<forall>p \<in> set parts. part_ok p" and "length parts \<le> 128"
  shows "length (entry_table parts) = 16384"
    "i < length parts \<Longrightarrow> slice_of (i * 128) 128 (entry_table parts) = entry_slot (parts ! i)"
  using entry_table_fold [OF assms(1), of 0 "replicate 16384 0"] assms(2)
  by (simp_all add: entry_table_def gpt_consts)

text \<open>What a partition entry holds, its name filled up with zeros to 72 bytes.\<close>

definition part_view :: "part_entry \<Rightarrow> bytes \<times> bytes \<times> nat \<times> nat \<times> nat \<times> bytes" where
  "part_view p = (type_guid p, part_guid p, first_lba p, last_lba p, attrs p,
     utf16_le (take 36 (pe_name p)) @ replicate (72 - 2 * length (take 36 (pe_name p))) 0)"

lemma entry_slot_read:
  assumes "part_ok p"
  shows "(slice_of 0 16 (entry_slot p), slice_of 16 16 (entry_slot p), num_at 32 (entry_slot p), num_at 40 (entry_slot p),
     num_at 48 (entry_slot p), slice_of 56 72 (entry_slot p)) = part_view p"
proof -
  define nm where "nm = utf16_le (take 36 (pe_name p))"
  have nm: "length nm = 2 * length (take 36 (pe_name p))"
    by (simp add: nm_def utf16_le_def length_concat comp_def sum_list_triv)
  then have le: "length nm \<le> 72" by simp
  define e where "e = put_at 48 (le64 (attrs p)) (put_at 40 (le64 (last_lba p)) (put_at 32 (le64 (first_lba p))
     (put_at 16 (part_guid p) (put_at 0 (type_guid p) (replicate 128 0)))))"
  have e: "length e = 128" using assms by (simp add: e_def part_ok_def)
  have slot: "entry_slot p = put_at 56 nm e" by (simp add: entry_slot_def nm_def e_def GPT_ENTRY_SIZE_def)
  have "drop (56 + length nm) e = replicate (72 - length nm) 0"
    using assms le by (simp add: e_def put_at_def part_ok_def)
  then have "slice_of 56 72 (put_at 56 nm e) = nm @ replicate (72 - length nm) 0"
    using e le by (simp add: slice_of_def put_at_def)
  moreover have "slice_of i m (put_at 56 nm e) = slice_of i m e" if "i + m \<le> 56" for i m
    using e le that by simp
  ultimately show ?thesis using assms nm
    by (simp add: slot part_view_def nm_def [symmetric] num_at_def num_le64 e_def part_ok_def)
qed

lemma gpt_facts:
  assumes "write_gpt crc32 guid n parts d = Some d'" and "length guid = 16" and "67 \<le> n"
    and "\<forall>p \<in> set parts. part_ok p"
  shows "header_valid crc32 d' 1 \<and> header_valid crc32 d' (n - 1) \<and>
    num_at 32 (read_at d' 512 512) = n - 1 \<and> num_at 32 (read_at d' ((n - 1) * 512) 512) = 1 \<and>
    num_at 72 (read_at d' 512 512) = 2 \<and> num_at 72 (read_at d' ((n - 1) * 512) 512) = n - 33 \<and>
    (\<forall>l \<in> {1, n - 1}. num32_at 80 (read_at d' (l * 512) 512) = 128 \<and> num32_at 84 (read_at d' (l * 512) 512) = 128) \<and>
    (\<forall>t \<in> {2, n - 33}. \<forall>i < length parts. read_part d' t i =
part_view (parts ! i)) \<and>
    (\<forall>i. 34 * 512 \<le> i \<and> i < (n - 33) * 512 \<longrightarrow> d' i = d i)"
proof -
  define tab where "tab = entry_table parts"
  define prim where "prim = build_header crc32 1 (n - 1) 2 n (crc32 tab) guid"
  define bkup where "bkup = build_header crc32 (n - 1) 1 (n - 33) n (crc32 tab) guid"
  have n: "n < 2 ^ 64" "length parts \<le> 128"
    using assms(1) by (auto simp: write_gpt_def gpt_consts split: if_splits)
  have lt: "length tab = 16384" using entry_table_facts(1) assms(4) n(2) by (simp add: tab_def)
  note pf = build_header_facts [OF assms(2) refl prim_def]
  note bf = build_header_facts [OF assms(2) refl bkup_def]
  have lm: "length (pmbr n) = 512" by (simp add: pmbr_def)
  have d': "d' = write_at ((n - 1) * 512) bkup (write_at 512 prim (write_at ((n - 33) * 512) tab (write_at 1024 tab (write_at 0 (pmbr n) d))))"
    using assms(1,3) by (auto simp: write_gpt_def gpt_consts Let_def prim_def bkup_def tab_def split: if_splits)
  obtain k where k: "n = k + 67" using assms(3) le_Suc_ex [of 67 n] by auto
  have rb: "read_at d' ((n - 1) * 512) 512 = bkup" unfolding d' using bf(1) by simp
  have rp: "read_at d' 512 512 = prim" unfolding d' using pf(1) bf(1) by (simp add: read_write_other k)
  have t1: "read_at d' 1024 16384 = tab" unfolding d' using pf(1) bf(1) lt by (simp add: read_write_other k)
  have t2: "read_at d' ((n - 33) * 512) 16384 = tab" unfolding d' using pf(1) bf(1) lt by (simp add: read_write_other k)
  have data: "d' i = d i" if "34 * 512 \<le> i" "i < (n - 33) * 512" for i
    unfolding d' using that pf(1) bf(1) lt lm by (simp add: write_at_outside k)
  have 1: "header_valid crc32 d' 1"
    using pf header_fields_read [OF assms(2) refl, of 1 "n - 1" 2 n "crc32 tab"] t1
    by (simp add: header_valid_def Let_def SECTOR_def rp num_at_def num32_at_def num_le64 num_le32)
  have 2: "header_valid crc32 d' (n - 1)"
    using bf header_fields_read [OF assms(2) refl, of "n - 1" 1 "n - 33" n "crc32 tab"] t2 n(1)
    by (simp add: header_valid_def Let_def SECTOR_def rb [simplified] num_at_def num32_at_def num_le64 num_le32)
  have 3: "num_at 32 prim = n - 1" "num_at 72 prim = 2"
    using pf(5) header_fields_read [OF assms(2) refl, of 1 "n - 1" 2 n "crc32 tab"] n(1)
    by (simp_all add: num_at_def num_le64)
  have 4: "num_at 32 bkup = 1" "num_at 72 bkup = n - 33"
    using bf(5) header_fields_read [OF assms(2) refl, of "n - 1" 1 "n - 33" n "crc32 tab"] n(1)
    by (simp_all add: num_at_def num_le64)
  have 5: "num32_at 80 prim = 128" "num32_at 84 prim = 128"
    using pf(5) header_fields_read [OF assms(2) refl, of 1 "n - 1" 2 n "crc32 tab"] by (simp_all add: num32_at_def num_le32)
  have 6: "num32_at 80 bkup = 128" "num32_at 84 bkup = 128"
    using bf(5) header_fields_read [OF assms(2) refl, of "n - 1" 1 "n - 33" n "crc32 tab"] by (simp_all add: num32_at_def num_le32)
  have part: "read_part d' t i = part_view (parts ! i)" if "read_at d' (t * 512) 16384 = tab" "i < length parts" for t i
  proof -
    have "read_at d' (t * 512 + i * 128) 128 = slice_of (i * 128) 128 tab"
      using read_at_inside [of "t * 512" "t * 512 + i * 128" 128 16384 d'] that n(2) by simp
    also have "\<dots> = entry_slot (parts ! i)" using entry_table_facts(2) assms(4) n(2) that(2) by (simp add: tab_def)
    finally show ?thesis using entry_slot_read [of "parts ! i"] assms(4) that(2)
      by (simp add: read_part_def SECTOR_def GPT_ENTRY_SIZE_def Let_def)
  qed
  have "read_part d' t i = part_view (parts ! i)" if "t \<in> {2, n - 33}" "i < length parts" for t i
    using that part [of 2] part [of "n - 33"] t1 t2 by auto
  moreover have "num32_at 80 (read_at d' (l * 512) 512) = 128 \<and> num32_at 84 (read_at d' (l * 512) 512) = 128"
    if "l \<in> {1, n - 1}" for l
    using that 5 6 rb rp by auto
  ultimately show ?thesis unfolding rb rp 3 4 using 1 2 data by blast
qed

text \<open>C17: after the partition table is written, both headers, at the second and at the last
  sector, pass the checks of the specification, checksums included, and name each other; both tables hold
  every partition with its GUIDs, first and last sector, attributes and name; and no byte of the
  usable area between them has changed.\<close>

theorem gpt_written:
  assumes "write_gpt crc32 guid n parts d = Some d'" and "length guid = 16" and "67 \<le> n"
    and "\<forall>p \<in> set parts. part_ok p"
  shows "header_valid crc32 d' 1 \<and> header_valid crc32 d' (n - 1) \<and>
    num_at 32 (read_at d' 512 512) = n - 1 \<and> num_at 32 (read_at d' ((n - 1) * 512) 512) = 1 \<and>
    (\<forall>t \<in> {num_at 72 (read_at d' 512 512), num_at 72 (read_at d' ((n - 1) * 512) 512)}.
       \<forall>i < length parts. read_part d' t i = part_view (parts ! i)) \<and>
    (\<forall>i. 34 * 512 \<le> i \<and> i < (n - 33) * 512 \<longrightarrow> d' i = d i)"
  using gpt_facts [OF assms] by simp

definition example_part :: part_entry where
  "example_part = \<lparr>type_guid = TYPE_LINUX_DATA, part_guid = replicate 16 7, first_lba = 40, last_lba = 59, attrs = 0,
     pe_name = ''data''\<rparr>"

theorem gpt_written_witness:
  "\<exists>d. write_gpt (\<lambda>_. 5) (replicate 16 1) 100 [example_part] (\<lambda>_. 0) = Some d \<and>
     header_valid (\<lambda>_. 5) d 1 \<and> header_valid (\<lambda>_. 5) d (100 - 1)"
proof -
  obtain d where d: "write_gpt (\<lambda>_. 5) (replicate 16 1) 100 [example_part] (\<lambda>_. 0) = Some d"
    by (simp add: write_gpt_def gpt_consts Let_def)
  moreover have "\<forall>p \<in> set [example_part]. part_ok p"
    by (simp add: example_part_def part_ok_def TYPE_LINUX_DATA_def guid_to_mixed_def)
  ultimately show ?thesis using gpt_written [OF d] by auto
qed

end
