(* ===== verification/Qcow2.thy ===== *)
theory Qcow2
  imports Prelude
begin

text \<open>
  Reading a byte range of a qcow2 image, \<open>crates/cdj3k-emu-storage/src/qcow2.rs\<close>. The image is the
  bytes of its file; a read past its end fails. Offsets are \<open>u64\<close>, and sums of values taken from
  the file wrap around at 64 bits. The reference is \<open>guest_byte\<close>, the byte the two lookup tables
  give for one guest offset; the loop over clusters returns exactly these bytes.
\<close>

definition QCOW_MAGIC :: bytes where "QCOW_MAGIC = [0x51, 0x46, 0x49, 0xFB]"
definition OFFSET_MASK :: u64 where "OFFSET_MASK = 0x00FFFFFFFFFFFE00"
definition COMPRESSED :: u64 where "COMPRESSED = push_bit 62 1"

definition read_exact :: "bytes \<Rightarrow> nat \<Rightarrow> nat \<Rightarrow> unit + bytes" where
  "read_exact f off n = ok_or () (get_range off (off + n) f)"

definition read_u64 :: "bytes \<Rightarrow> u64 \<Rightarrow> unit + u64" where
  "read_u64 f off = bindR (read_exact f (unat off) 8) (\<lambda>b. Inr (from_be b))"

lemma read_exact_Inr: "read_exact f off n = Inr b \<longleftrightarrow> off + n \<le> length f \<and> b = slice_of off n f"
  unfolding read_exact_def get_range_def slice_of_def by (auto simp: ok_or_def)

lemma bindR_cong [fundef_cong]:
  "r = r' \<Longrightarrow> (\<And>x. r' = Inr x \<Longrightarrow> f x = g x) \<Longrightarrow> bindR r f = bindR r' g"
  by (cases r) auto

record qcow_head =
  q_bits :: nat
  q_l1_len :: nat
  q_l1_offset :: u64

abbreviation q_cluster :: "qcow_head \<Rightarrow> nat" where
  "q_cluster h \<equiv> 2 ^ q_bits h"

text \<open>The fields of the header, or \<open>None\<close> when the file is not an image this reader takes.\<close>

definition read_head :: "bytes \<Rightarrow> unit + qcow_head option" where
  "read_head f =
     bindR (read_exact f 0 48) (\<lambda>head.
       if take 4 head \<noteq> QCOW_MAGIC then Inr None
       else
         let cluster_bits = unat (from_be (slice_of 20 4 head) :: u32)
         in if \<not> (9 \<le> cluster_bits \<and> cluster_bits \<le> 21) then Inr None
            else Inr (Some \<lparr>q_bits = cluster_bits,
                   q_l1_len = unat (from_be (slice_of 36 4 head) :: u32),
                   q_l1_offset = from_be (slice_of 40 8 head)\<rparr>))"

text \<open>The host offset of a guest cluster, \<open>None\<close> when it is not mapped.\<close>

definition host_cluster :: "bytes \<Rightarrow> qcow_head \<Rightarrow> nat \<Rightarrow> unit + nat option" where
  "host_cluster f h guest_cluster =
     (let l2_entries = q_cluster h div 8;
          l1_index = guest_cluster div l2_entries
      in if q_l1_len h \<le> l1_index then Inr None
         else bindR (read_u64 f (q_l1_offset h + of_nat (l1_index * 8))) (\<lambda>l1.
                let l2_table = l1 AND OFFSET_MASK
                in if l2_table = 0 then Inr None
                   else bindR (read_u64 f (l2_table + of_nat (guest_cluster mod l2_entries * 8))) (\<lambda>entry.
                          let host = entry AND OFFSET_MASK
                          in if host = 0 \<or> entry AND COMPRESSED \<noteq> 0 then Inr None
                             else Inr (Some (unat host)))))"

function read_clusters :: "bytes \<Rightarrow> qcow_head \<Rightarrow> nat \<Rightarrow> nat \<Rightarrow> bytes \<Rightarrow> unit + bytes option" where
  "read_clusters f h len pos out =
     (if length out < len
      then
        let within = pos mod q_cluster h;
            n = min (q_cluster h - within) (len - length out)
        in bindR (host_cluster f h (pos div q_cluster h)) (\<lambda>m.
             (case m of
                None \<Rightarrow> Inr None
              | Some host \<Rightarrow>
                  bindR (read_exact f (host + within) n) (\<lambda>buf.
                    read_clusters f h len (pos + n) (out @ buf))))
      else Inr (Some out))"
  by pat_completeness auto
termination
proof (relation "measure (\<lambda>(f, h, len, pos, out). len - length out)", goal_cases)
  case (2 f h len pos out within n m host buf)
  have "pos mod q_cluster h < q_cluster h" by simp
  then have "0 < n" using 2(1-3) by (simp del: mod_less_divisor)
  moreover have "length buf = n" using 2 by (simp add: read_exact_Inr)
  ultimately have "0 < length buf" "length out < len" using 2(1) by blast+
  then show ?case by (simp add: diff_less_mono2)
qed simp

definition qcow_read_at :: "bytes \<Rightarrow> nat \<Rightarrow> nat \<Rightarrow> unit + bytes option" where
  "qcow_read_at f offset len =
     bindR (read_head f) (\<lambda>h.
       (case h of None \<Rightarrow> Inr None | Some h \<Rightarrow> read_clusters f h len offset []))"

section \<open>One byte at a time\<close>

definition cluster_byte :: "bytes \<Rightarrow> qcow_head \<Rightarrow> nat \<Rightarrow> u8 option" where
  "cluster_byte f h pos =
     (case host_cluster f h (pos div q_cluster h) of
        Inr (Some host) \<Rightarrow>
          let i = host + pos mod q_cluster h in if i < length f then Some (f ! i) else None
      | _ \<Rightarrow> None)"

definition guest_byte :: "bytes \<Rightarrow> nat \<Rightarrow> u8 option" where
  "guest_byte f pos =
     (case read_head f of Inr (Some h) \<Rightarrow> cluster_byte f h pos | _ \<Rightarrow> None)"

lemma same_cluster:
  fixes c pos k :: nat
  assumes "0 < c" and "k < c - pos mod c"
  shows "(pos + k) div c = pos div c" "(pos + k) mod c = pos mod c + k"
proof -
  have "pos mod c + k < c" using assms by linarith
  moreover have "pos + k = (pos mod c + k) + pos div c * c" by simp
  ultimately show "(pos + k) div c = pos div c" "(pos + k) mod c = pos mod c + k"
    using assms(1) by (simp_all only: div_mult_self1 mod_mult_self1 div_less mod_less)
qed

lemma cluster_chunk:
  assumes "0 < n" and "n \<le> q_cluster h - pos mod q_cluster h"
  shows "(\<exists>host. host_cluster f h (pos div q_cluster h) = Inr (Some host) \<and>
      read_exact f (host + pos mod q_cluster h) n = Inr buf) \<longleftrightarrow>
    length buf = n \<and> (\<forall>i < n. cluster_byte f h (pos + i) = Some (buf ! i))"
proof -
  have same: "(pos + i) div q_cluster h = pos div q_cluster h" "(pos + i) mod q_cluster h = pos mod q_cluster h + i" if "i < n" for i
    using same_cluster [of "q_cluster h" i pos] that assms(2) by simp_all
  show ?thesis
  proof
    assume "\<exists>host. host_cluster f h (pos div q_cluster h) = Inr (Some host) \<and> read_exact f (host + pos mod q_cluster h) n = Inr buf"
    then obtain host where host: "host_cluster f h (pos div q_cluster h) = Inr (Some host)"
      and buf: "host + pos mod q_cluster h + n \<le> length f" "buf = slice_of (host + pos mod q_cluster h) n f"
      by (auto simp: read_exact_Inr)
    have "cluster_byte f h (pos + i) = Some (buf ! i)" if "i < n" for i
    proof -
      have "buf ! i = f ! (host + pos mod q_cluster h + i)" using buf that by (simp add: nth_slice_of)
      then show ?thesis using same [OF that] host buf(1) that
        by (simp add: cluster_byte_def Let_def add.assoc)
    qed
    then show "length buf = n \<and> (\<forall>i < n. cluster_byte f h (pos + i) = Some (buf ! i))" using buf by simp
  next
    assume b: "length buf = n \<and> (\<forall>i < n. cluster_byte f h (pos + i) = Some (buf ! i))"
    then have "cluster_byte f h pos = Some (buf ! 0)" using assms(1) by fastforce
    then obtain host where host: "host_cluster f h (pos div q_cluster h) = Inr (Some host)"
      by (auto simp: cluster_byte_def split: sum.splits option.splits)
    have byte: "host + pos mod q_cluster h + i < length f \<and> f ! (host + pos mod q_cluster h + i) = buf ! i" if "i < n" for i
      using b that same [OF that] host
      by (auto simp: cluster_byte_def Let_def add.assoc split: if_splits)
    have len: "host + pos mod q_cluster h + n \<le> length f" using byte [of "n - 1"] assms(1) by linarith
    then have "buf = slice_of (host + pos mod q_cluster h) n f"
      using b byte by (intro nth_equalityI) (simp_all add: nth_slice_of)
    then show "\<exists>host. host_cluster f h (pos div q_cluster h) = Inr (Some host) \<and> read_exact f (host + pos mod q_cluster h) n = Inr buf"
      using host len by (auto simp: read_exact_Inr)
  qed
qed

declare read_clusters.simps [simp del]

lemma read_clusters_bytes:
  assumes "length out \<le> len"
  shows "read_clusters f h len pos out = Inr (Some r) \<longleftrightarrow>
    (\<exists>bs. r = out @ bs \<and> length bs = len - length out \<and> (\<forall>i < length bs. cluster_byte f h (pos + i) = Some (bs ! i)))"
  using assms
proof (induction f h len pos out arbitrary: r rule: read_clusters.induct)
  case (1 f h len pos out)
  show ?case
  proof (cases "length out < len")
    case False
    then show ?thesis using 1 by (auto simp: read_clusters.simps)
  next
    case True
    define n where "n = min (q_cluster h - pos mod q_cluster h) (len - length out)"
    have n: "0 < n" "n \<le> q_cluster h - pos mod q_cluster h" "n \<le> len - length out"
      using True mod_less_divisor [of "q_cluster h" pos] by (auto simp: n_def simp del: mod_less_divisor)
    have "read_clusters f h len pos out = Inr (Some r) \<longleftrightarrow>
        (\<exists>host buf. host_cluster f h (pos div q_cluster h) = Inr (Some host) \<and>
           read_exact f (host + pos mod q_cluster h) n = Inr buf \<and>
           read_clusters f h len (pos + n) (out @ buf) = Inr (Some r))"
      using True by (subst read_clusters.simps) (auto simp: Let_def n_def bindR_eq_Inr split: option.splits)
    also have "\<dots> \<longleftrightarrow> (\<exists>buf. (length buf = n \<and> (\<forall>i < n. cluster_byte f h (pos + i) = Some (buf ! i))) \<and>
        (\<exists>bs. r = (out @ buf) @ bs \<and> length bs = len - length (out @ buf) \<and>
           (\<forall>i < length bs. cluster_byte f h (pos + n + i) = Some (bs ! i))))"
    proof -
      let ?L = "\<lambda>buf. length buf = n \<and> (\<forall>i < n. cluster_byte f h (pos + i) = Some (buf ! i))"
      let ?R = "\<lambda>host buf. host_cluster f h (pos div q_cluster h) = Inr (Some host) \<and>
        read_exact f (host + pos mod q_cluster h) n = Inr buf"
      have "read_clusters f h len (pos + n) (out @ buf) = Inr (Some r) \<longleftrightarrow>
          (\<exists>bs. r = (out @ buf) @ bs \<and> length bs = len - length (out @ buf) \<and>
             (\<forall>i < length bs. cluster_byte f h (pos + n + i) = Some (bs ! i)))"
        if L: "?L buf" for buf
      proof -
        obtain host where R: "?R host buf" using cluster_chunk [OF n(1,2), of f buf] L by blast
        have "length (out @ buf) \<le> len" using L n(3) True by simp
        then show ?thesis using 1(1) [OF True refl n_def conjunct1 [OF R] refl conjunct2 [OF R]] by blast
      qed
      then have "(\<exists>buf. ?L buf \<and> read_clusters f h len (pos + n) (out @ buf) = Inr (Some r)) \<longleftrightarrow>
          (\<exists>buf. ?L buf \<and> (\<exists>bs. r = (out @ buf) @ bs \<and> length bs = len - length (out @ buf) \<and>
             (\<forall>i < length bs. cluster_byte f h (pos + n + i) = Some (bs ! i))))"
        by (intro ex_cong1 conj_cong refl)
      moreover have "(\<exists>host buf. host_cluster f h (pos div q_cluster h) = Inr (Some host) \<and>
           read_exact f (host + pos mod q_cluster h) n = Inr buf \<and>
           read_clusters f h len (pos + n) (out @ buf) = Inr (Some r)) \<longleftrightarrow>
         (\<exists>buf. (\<exists>host. ?R host buf) \<and> read_clusters f h len (pos + n) (out @ buf) = Inr (Some r))"
        by blast
      ultimately show ?thesis unfolding cluster_chunk [OF n(1,2)] by simp
    qed
    also have "\<dots> \<longleftrightarrow> (\<exists>bs. r = out @ bs \<and> length bs = len - length out \<and>
        (\<forall>i < length bs. cluster_byte f h (pos + i) = Some (bs ! i)))"
    proof
      assume "\<exists>buf. (length buf = n \<and> (\<forall>i < n. cluster_byte f h (pos + i) = Some (buf ! i))) \<and>
        (\<exists>bs. r = (out @ buf) @ bs \<and> length bs = len - length (out @ buf) \<and>
           (\<forall>i < length bs. cluster_byte f h (pos + n + i) = Some (bs ! i)))"
      then obtain buf bs where b: "length buf = n" "\<forall>i < n. cluster_byte f h (pos + i) = Some (buf ! i)"
        "r = (out @ buf) @ bs" "length bs = len - length (out @ buf)" "\<forall>i < length bs. cluster_byte f h (pos + n + i) = Some (bs ! i)"
        by blast
      have "cluster_byte f h (pos + i) = Some ((buf @ bs) ! i)" if "i < length (buf @ bs)" for i
        using b(1,2) b(5) [rule_format, of "i - n"] that by (cases "i < n") (simp_all add: nth_append)
      then show "\<exists>bs. r = out @ bs \<and> length bs = len - length out \<and> (\<forall>i < length bs. cluster_byte f h (pos + i) = Some (bs ! i))"
        using b(1,3,4) n(3) by (intro exI [of _ "buf @ bs"]) simp
    next
      assume "\<exists>bs. r = out @ bs \<and> length bs = len - length out \<and> (\<forall>i < length bs. cluster_byte f h (pos + i) = Some (bs ! i))"
      then obtain bs where bs: "r = out @ bs" "length bs = len - length out" "\<forall>i < length bs. cluster_byte f h (pos + i) = Some (bs ! i)"
        by blast
      then show "\<exists>buf. (length buf = n \<and> (\<forall>i < n. cluster_byte f h (pos + i) = Some (buf ! i))) \<and>
        (\<exists>bs. r = (out @ buf) @ bs \<and> length bs = len - length (out @ buf) \<and>
           (\<forall>i < length bs. cluster_byte f h (pos + n + i) = Some (bs ! i)))"
        using n by (intro exI [of _ "take n bs"] conjI exI [of _ "drop n bs"]) (simp_all add: add.assoc)
    qed
    finally show ?thesis .
  qed
qed

lemma qcow_read_bytes:
  assumes "0 < len"
  shows "qcow_read_at f off len = Inr (Some r) \<longleftrightarrow>
    length r = len \<and> (\<forall>i < len. guest_byte f (off + i) = Some (r ! i))"
proof (cases "\<exists>h. read_head f = Inr (Some h)")
  case True
  then obtain h where "read_head f = Inr (Some h)" by blast
  then show ?thesis using read_clusters_bytes [of "[]" len f h off r]
    by (auto simp: qcow_read_at_def guest_byte_def)
next
  case False
  then have "guest_byte f pos = None" for pos by (auto simp: guest_byte_def split: sum.splits option.splits)
  then show ?thesis using False assms by (auto simp: qcow_read_at_def bindR_eq_Inr split: option.splits)
qed

text \<open>C18: reading a range of a qcow2 image through its clusters returns exactly the bytes the
  lookup tables give one by one, for every image, offset and length; it returns them exactly when each is
  mapped, uncompressed and inside the file.\<close>

theorem qcow_read_exact:
  assumes "0 < len"
  shows "qcow_read_at f off len = Inr (Some r) \<longleftrightarrow>
    length r = len \<and> (\<forall>i < len. guest_byte f (off + i) = Some (r ! i))"
  using assms by (rule qcow_read_bytes)

definition example_image :: bytes where
  "example_image = QCOW_MAGIC @ replicate 16 0 @ to_be 4 (9 :: u32) @ replicate 12 0 @ to_be 4 (1 :: u32) @ to_be 8 (48 :: u64) @
     to_be 8 (512 :: u64) @ replicate 456 0 @ to_be 8 (512 :: u64)"

theorem qcow_read_exact_witness:
  "guest_byte example_image 6 = Some 2"
proof -
  have "qcow_read_at example_image 5 3 = Inr (Some [0, 2, 0])" by code_simp
  moreover have "0 < (3 :: nat)" by simp
  ultimately have "\<forall>i < 3. guest_byte example_image (5 + i) = Some ([0, 2, 0] ! i)" using qcow_read_exact by blast
  from this [rule_format, of 1] show ?thesis by simp
qed

end
