(* ===== verification/Emmc.thy ===== *)
theory Emmc
  imports Gpt Qcow2 Utf8Text KvFile PanelModel "HOL-Library.List_Lexorder"
begin

text \<open>
  The eMMC image of a slot, \<open>crates/cdj3k-emu-storage/src/emmc.rs\<close>: the deck's partition layout, the
  U-Boot environment with the slot's identity, the staged cabinet image, and reading the
  environment back. The image is written as a sparse raw disk (\<open>Gpt\<close>) and converted to qcow2 by
  \<open>qemu-img\<close>, which enters as an argument; CRC-32 and the random GUIDs are arguments too. Strings
  in the environment block are UTF-8 byte strings.
\<close>

definition MB :: nat where "MB = 1024 * 1024"
definition GB :: nat where "GB = 1024 * MB"
definition EMMC_SIZE :: nat where "EMMC_SIZE = 29 * GB + 100 * MB"
definition UBOOT_ENV_OFFSET :: nat where "UBOOT_ENV_OFFSET = 0x003F8000"
definition UBOOT_ENV_SIZE :: nat where "UBOOT_ENV_SIZE = 0x8000"

section \<open>The environment\<close>

definition pad_6 :: "string \<Rightarrow> string" where
  "pad_6 s = replicate (6 - length s) (CHR ''0'') @ s"

definition device_serial :: "u32 \<Rightarrow> string" where
  "device_serial instance_id = ''DJMP'' @ pad_6 (show_nat (unat instance_id)) @ ''EH''"

record firmware_info =
  fw_release :: "string option"
  fw_rev_apl :: "string option"
  fw_rev_system :: "string option"
  fw_miniloader :: "string option"

definition or_empty :: "string option \<Rightarrow> string" where
  "or_empty s = (case s of None \<Rightarrow> [] | Some s \<Rightarrow> s)"

definition vars_1500x :: "(string \<times> string) list" where
  "vars_1500x =
     [(''arch'', ''arm''), (''baudrate'', ''1500000''), (''board'', ''evb_rk3568''), (''board_name'', ''evb_rk3568''),
      (''bootcmd'', ''boot_fit''), (''bootcmd_emmc'', ''boot_fit''), (''bootdelay'', ''0''), (''cpu'', ''armv8''),
      (''devnum'', ''0''), (''devtype'', ''mmc''), (''fdt_addr_r'', ''0x0a100000''),
      (''kernel_addr_no_low_bl32_r'', ''0x00280000''), (''kernel_addr_r'', ''0x00a80000''), (''kernel_bank'', ''A''),
      (''model'', model_env (spec Cdj1500x)), (''model_name'', title (spec Cdj1500x)),
      (''ramdisk_addr_r'', ''0x0a200000''), (''soc'', ''rockchip''), (''stderr'', ''serial,vidconsole''),
      (''stdin'', ''serial,usbkbd''), (''stdout'', ''serial,vidconsole''), (''vendor'', ''rockchip'')]"

definition vars_rk3399 :: "model \<Rightarrow> firmware_info \<Rightarrow> (string \<times> string) list" where
  "vars_rk3399 m fw =
     [(''arch'', ''arm''), (''baudrate'', ''115200''), (''board'', ''evb_rk3399''), (''board_name'', ''evb_rk3399''),
      (''bootargs_emmc'', ''earlycon=uart8250,mmio32,0xff1a0000 swiotlb=1 console=ttyFIQ0 rw rootfstype=ramfs rootwait quiet loglevel=3 coherent_pool=1m''),
      (''bootcmd'', ''run bootcmd_emmc''),
      (''bootcmd_emmc'', ''setenv bootargs ${bootargs_emmc};load mmc ${part} ${kernel_addr_r} /${image};run booti_cmd''),
      (''bootdelay'', ''0''), (''booti_cmd'', ''booti ${kernel_addr_r} - ${fdt_addr_r}''), (''boot_type'', ''normal''),
      (''cpu'', ''armv8''), (''fdt_addr_r'', ''0x00280000''), (''image'', ''Image''),
      (''kernel_addr_r'', ''0x10480000''), (''kernel_bank'', ''B''), (''miniloader'', or_empty (fw_miniloader fw)),
      (''model'', model_env (spec m)), (''part'', ''0:6''), (''pxefile_addr_r'', ''0x00600000''),
      (''ramdisk_addr_r'', ''0x0a200000''), (''release'', or_empty (fw_release fw)), (''rev_apl'', or_empty (fw_rev_apl fw)),
      (''soc'', ''rockchip''), (''stderr'', ''serial,vidconsole''), (''stdout'', ''serial,vidconsole''),
      (''update_status'', ''success''), (''vendor'', ''rockchip'')]"

definition uboot_vars :: "model \<Rightarrow> firmware_info \<Rightarrow> string \<Rightarrow> (string \<times> string) list" where
  "uboot_vars m fw serial =
     (case m of Cdj1500x \<Rightarrow> vars_1500x | _ \<Rightarrow> vars_rk3399 m fw) @
     (case system_rev_env (spec m) of Some rv \<Rightarrow> [(rv, or_empty (fw_rev_system fw))] | None \<Rightarrow> []) @
     [(''serial_number'', serial)]"

definition EQUALS :: u8 where "EQUALS = 0x3D"

definition env_data :: "(string \<times> string) list \<Rightarrow> bytes" where
  "env_data vars = concat (map (\<lambda>(k, v). utf8_bytes k @ [EQUALS] @ utf8_bytes v @ [0]) vars) @ [0]"

text \<open>The block: the CRC-32 of the data region, then the region; \<open>None\<close> where the code panics.\<close>

definition env_block :: "(bytes \<Rightarrow> u32) \<Rightarrow> (string \<times> string) list \<Rightarrow> bytes option" where
  "env_block crc32 vars =
     (let d = env_data vars; data_len = UBOOT_ENV_SIZE - 4
      in if data_len < length d then None
         else let d = d @ replicate (data_len - length d) 0 in Some (to_le 4 (crc32 d) @ d))"

type_synonym env_map = "(bytes, bytes) btree"

definition env_entry :: "bytes \<Rightarrow> (bytes \<times> bytes) option" where
  "env_entry e = split_once (\<lambda>b. b = EQUALS) (utf8_lossy e)"

definition parse_env_block :: "(bytes \<Rightarrow> u32) \<Rightarrow> bytes \<Rightarrow> env_map option" where
  "parse_env_block crc32 blk =
     (let stored = take 4 blk; d = drop 4 blk
      in if crc32 d \<noteq> from_le stored then None
         else Some (fold (\<lambda>e m. case env_entry e of Some (k, v) \<Rightarrow> bt_insert k v m | None \<Rightarrow> m)
                (takeWhile (\<lambda>e. e \<noteq> []) (split_by (\<lambda>b. b = 0) d)) []))"

definition read_uboot_env :: "(bytes \<Rightarrow> u32) \<Rightarrow> bytes \<Rightarrow> env_map option" where
  "read_uboot_env crc32 img =
     (case qcow_read_at img UBOOT_ENV_OFFSET UBOOT_ENV_SIZE of
        Inr (Some blk) \<Rightarrow> parse_env_block crc32 blk
      | _ \<Rightarrow> None)"

section \<open>The layout\<close>

record layout =
  sized :: "(nat \<times> string) list"
  rest :: string
  stage :: nat

definition layout_of :: "model \<Rightarrow> layout" where
  "layout_of m =
     (case m of
        Cdj1500x \<Rightarrow>
          \<lparr>sized = [(4 * MB, ''uboot''), (256 * MB, ''boota''), (256 * MB, ''bootb''), (64 * MB, ''setting''),
             (512 * MB, ''update'')], rest = ''reserve'', stage = 2\<rparr>
      | _ \<Rightarrow>
          \<lparr>sized = [(4 * MB, ''bootloader''), (4 * MB, ''trustfirmware''), (4 * MB, ''resource''),
             (128 * MB, ''recovery''), (256 * MB, ''firmware-a''), (256 * MB, ''firmware-b''), (64 * MB, ''settings'')],
           rest = ''userdata'', stage = 3\<rparr>)"

definition sectors :: "nat \<Rightarrow> nat" where
  "sectors n = (n + SECTOR - 1) div SECTOR"

definition ALIGN :: nat where "ALIGN = 2048"

definition align_up :: "nat \<Rightarrow> nat" where
  "align_up cursor = (if cursor mod ALIGN \<noteq> 0 then (cursor div ALIGN + 1) * ALIGN else cursor)"

text \<open>The closure \<open>p\<close>, over the sized partitions: first and last sector of each, and the cursor
  after them.\<close>

fun place_sized :: "nat \<Rightarrow> (nat \<times> string) list \<Rightarrow> (nat \<times> nat \<times> string) list \<times> nat" where
  "place_sized cursor [] = ([], cursor)"
| "place_sized cursor ((sz, name) # ps) =
     (let first = cursor;
          lst = first + sectors sz - 1;
          (placed, cursor) = place_sized (align_up (lst + 1)) ps
      in ((first, lst, name) # placed, cursor))"

definition part_new :: "bytes \<Rightarrow> nat \<times> nat \<times> string \<Rightarrow> part_entry" where
  "part_new guid = (\<lambda>(first, lst, name).
     \<lparr>type_guid = TYPE_LINUX_DATA, part_guid = guid, first_lba = first, last_lba = lst, attrs = 0, pe_name = name\<rparr>)"

definition emmc_sectors :: nat where "emmc_sectors = EMMC_SIZE div SECTOR"

definition emmc_places :: "model \<Rightarrow> (nat \<times> nat \<times> string) list" where
  "emmc_places m =
     (let (placed, cursor) = place_sized ALIGN (sized (layout_of m))
      in placed @ [(cursor, emmc_sectors - GPT_BACKUP_RESERVED_SECTORS - 1, rest (layout_of m))])"

definition emmc_parts :: "(nat \<Rightarrow> bytes) \<Rightarrow> model \<Rightarrow> part_entry list" where
  "emmc_parts guids m = map (\<lambda>(i, p). part_new (guids i) p) (enumerate 0 (emmc_places m))"

section \<open>Writing the image\<close>

definition CABINET_STAGE_MAGIC :: string where "CABINET_STAGE_MAGIC = ''CDJ3KCAB1''"
definition CABINET_STAGE_HEADER :: nat where "CABINET_STAGE_HEADER = 512"

datatype emmc_error = CabinetTooLarge | EmmcPanic | ConvertFailed

definition stage_header :: "nat \<Rightarrow> bytes" where
  "stage_header n =
     (let h = utf8_bytes (CABINET_STAGE_MAGIC @ [CHR ''\<newline>''] @ ''size='' @ show_nat n @ [CHR ''\<newline>''])
      in take CABINET_STAGE_HEADER (h @ replicate (CABINET_STAGE_HEADER - length h) 0))"

definition stage_cabinet :: "part_entry \<Rightarrow> bytes \<Rightarrow> disk \<Rightarrow> emmc_error + disk" where
  "stage_cabinet part cabinet d =
     (let capacity = (last_lba part - first_lba part + 1) * SECTOR;
          needed = CABINET_STAGE_HEADER + length cabinet
      in if capacity < needed then Inl CabinetTooLarge
         else Inr (write_at (first_lba part * SECTOR + CABINET_STAGE_HEADER) cabinet
                (write_at (first_lba part * SECTOR) (stage_header (length cabinet)) d)))"

definition write_uboot_env ::
  "(bytes \<Rightarrow> u32) \<Rightarrow> u32 \<Rightarrow> model \<Rightarrow> firmware_info \<Rightarrow> disk \<Rightarrow> emmc_error + disk" where
  "write_uboot_env crc32 instance_id m fw d =
     (case env_block crc32 (uboot_vars m fw (device_serial instance_id)) of
        None \<Rightarrow> Inl EmmcPanic
      | Some blk \<Rightarrow> Inr (write_at UBOOT_ENV_OFFSET blk d))"

record emmc_config =
  ec_instance :: u32
  ec_model :: model
  ec_firmware :: firmware_info
  ec_cabinet :: "bytes option"

definition write_gpt_raw ::
  "(bytes \<Rightarrow> u32) \<Rightarrow> bytes \<Rightarrow> (nat \<Rightarrow> bytes) \<Rightarrow> emmc_config \<Rightarrow> emmc_error + disk" where
  "write_gpt_raw crc32 disk_guid guids config =
     (let parts = emmc_parts guids (ec_model config)
      in bindR (ok_or EmmcPanic (write_gpt crc32 disk_guid emmc_sectors parts (\<lambda>_. 0))) (\<lambda>d.
         bindR (case ec_cabinet config of
                  None \<Rightarrow> Inr d
                | Some cabinet \<Rightarrow> stage_cabinet (parts ! stage (layout_of (ec_model config))) cabinet d) (\<lambda>d.
           write_uboot_env crc32 (ec_instance config) (ec_model config) (ec_firmware config) d)))"

text \<open>An image that is there is kept; \<open>convert\<close> is \<open>qemu-img convert\<close>.\<close>

definition provision_emmc ::
  "(disk \<Rightarrow> bytes option) \<Rightarrow> (bytes \<Rightarrow> u32) \<Rightarrow> bytes \<Rightarrow> (nat \<Rightarrow> bytes) \<Rightarrow> emmc_config \<Rightarrow> bytes option \<Rightarrow>
     emmc_error + bytes" where
  "provision_emmc convert crc32 disk_guid guids config existing =
     (case existing of
        Some img \<Rightarrow> Inr img
      | None \<Rightarrow>
          bindR (write_gpt_raw crc32 disk_guid guids config) (\<lambda>raw. ok_or ConvertFailed (convert raw)))"

section \<open>The layout is sound\<close>

lemma emmc_sectors_value: "emmc_sectors = 61022208"
  by (simp add: emmc_sectors_def EMMC_SIZE_def GB_def MB_def SECTOR_def)

lemma sectors_MB: "sectors (k * MB) = k * 2048"
  by (simp add: sectors_def SECTOR_def MB_def)

text \<open>The layout in units of 1 MiB.\<close>

fun place_mb :: "nat \<Rightarrow> (nat \<times> string) list \<Rightarrow> (nat \<times> nat \<times> string) list" where
  "place_mb c [] = []"
| "place_mb c ((k, n) # ps) = (c, c + k, n) # place_mb (c + k) ps"

lemma place_sized_mb:
  assumes "\<forall>(k, n) \<in> set ps. 0 < k"
  shows "place_sized (c * 2048) (map (\<lambda>(k, n). (k * MB, n)) ps) =
    (map (\<lambda>(a, b, n). (a * 2048, b * 2048 - 1, n)) (place_mb c ps), (c + sum_list (map fst ps)) * 2048)"
  using assms
proof (induction c ps rule: place_mb.induct)
  case (2 c k n ps)
  have k: "0 < k" and ps: "\<forall>(k, n) \<in> set ps. 0 < k" using 2(2) by auto
  have lst: "c * 2048 + sectors (k * MB) - 1 = (c + k) * 2048 - 1" by (simp add: sectors_MB add_mult_distrib)
  have "(c + k) * 2048 - 1 + 1 = (c + k) * 2048" using k by simp
  moreover have "align_up ((c + k) * 2048) = (c + k) * 2048" by (simp only: align_up_def ALIGN_def) simp
  ultimately have al: "align_up ((c + k) * 2048 - 1 + 1) = (c + k) * 2048" by simp
  show ?case
    unfolding list.map case_prod_conv place_sized.simps Let_def lst al 2(1) [OF ps] place_mb.simps by (simp add: add.assoc)
qed simp

definition mb_layout :: "model \<Rightarrow> (nat \<times> string) list" where
  "mb_layout m = (case m of
     Cdj1500x \<Rightarrow> [(4, ''uboot''), (256, ''boota''), (256, ''bootb''), (64, ''setting''), (512, ''update'')]
   | _ \<Rightarrow> [(4, ''bootloader''), (4, ''trustfirmware''), (4, ''resource''), (128, ''recovery''), (256, ''firmware-a''),
       (256, ''firmware-b''), (64, ''settings'')])"

lemma mb_layout: "sized (layout_of m) = map (\<lambda>(k, n). (k * MB, n)) (mb_layout m)" "\<forall>(k, n) \<in> set (mb_layout m). 0 < k"
  by (cases m; simp add: layout_of_def mb_layout_def)+

lemma emmc_places_mb:
  "emmc_places m = map (\<lambda>(a, b, n). (a * 2048, b * 2048 - 1, n)) (place_mb 1 (mb_layout m)) @
     [((1 + sum_list (map fst (mb_layout m))) * 2048, 61022174, rest (layout_of m))]"
  using place_sized_mb [OF mb_layout(2), of 1]
  by (simp add: emmc_places_def mb_layout(1) ALIGN_def emmc_sectors_value gpt_consts)

lemma emmc_places_rk3399:
  "m \<noteq> Cdj1500x \<Longrightarrow> emmc_places m =
   [(2048, 10239, ''bootloader''), (10240, 18431, ''trustfirmware''), (18432, 26623, ''resource''),
    (26624, 288767, ''recovery''), (288768, 813055, ''firmware-a''), (813056, 1337343, ''firmware-b''),
    (1337344, 1468415, ''settings''), (1468416, 61022174, ''userdata'')]"
  by (cases m) (simp_all add: emmc_places_mb mb_layout_def layout_of_def)

lemma emmc_places_1500x:
  "emmc_places Cdj1500x =
   [(2048, 10239, ''uboot''), (10240, 534527, ''boota''), (534528, 1058815, ''bootb''), (1058816, 1189887, ''setting''),
    (1189888, 2238463, ''update''), (2238464, 61022174, ''reserve'')]"
  by (simp add: emmc_places_mb mb_layout_def layout_of_def)

lemmas layout_consts = sectors_MB ALIGN_def align_up_def emmc_sectors_value gpt_consts

fun ascending :: "nat \<Rightarrow> (nat \<times> nat \<times> string) list \<Rightarrow> bool" where
  "ascending lo [] = True"
| "ascending lo ((a, b, _) # ps) = (lo \<le> a \<and> a \<le> b \<and> a mod ALIGN = 0 \<and> ascending (b + 1) ps)"

text \<open>C19: on every player the eMMC partitions start on 1 MiB boundaries, follow each other without
  overlap after the primary table, end before the backup table, have the stated sizes, and the U-Boot
  environment lies inside the first one; the cabinet image is staged in the partition the layout names.\<close>

theorem emmc_layout_sound:
  "ascending GPT_FIRST_USABLE_LBA (emmc_places m) \<and>
   (\<forall>(a, b, n) \<in> set (emmc_places m). b \<le> emmc_sectors - GPT_BACKUP_RESERVED_SECTORS - 1) \<and>
   length (emmc_places m) = length (sized (layout_of m)) + 1 \<and>
   (\<forall>i < length (sized (layout_of m)).
      (case emmc_places m ! i of (a, b, n) \<Rightarrow> ((b + 1 - a) * SECTOR, n) = sized (layout_of m) ! i)) \<and>
   (case hd (emmc_places m) of (a, b, _) \<Rightarrow>
      a * SECTOR \<le> UBOOT_ENV_OFFSET \<and> UBOOT_ENV_OFFSET + UBOOT_ENV_SIZE \<le> (b + 1) * SECTOR) \<and>
   stage (layout_of m) < length (sized (layout_of m))"
proof (cases "m = Cdj1500x")
  case True
  show ?thesis unfolding True emmc_places_1500x
    by (simp add: layout_of_def layout_consts UBOOT_ENV_OFFSET_def UBOOT_ENV_SIZE_def MB_def less_Suc_eq all_conj_distrib)
next
  case False
  then have "layout_of m = layout_of Cdj3k" by (cases m) (simp_all add: layout_of_def)
  then show ?thesis using emmc_places_rk3399 [OF False]
    by (simp add: layout_of_def layout_consts UBOOT_ENV_OFFSET_def UBOOT_ENV_SIZE_def MB_def less_Suc_eq)
qed

theorem emmc_layout_sound_witness:
  "ascending 34 (emmc_places Cdj3k) \<and> length (emmc_places Cdj3k) = 8 \<and> stage (layout_of Cdj3k) < 7"
proof -
  have 7: "length (sized (layout_of Cdj3k)) = 7" by (simp add: layout_of_def)
  have "GPT_FIRST_USABLE_LBA = 34" by (simp add: gpt_consts)
  then show ?thesis using emmc_layout_sound [of Cdj3k, unfolded 7] by simp
qed

section \<open>The environment reads back\<close>

definition var_ok :: "string \<times> string \<Rightarrow> bool" where
  "var_ok = (\<lambda>(k, v). CHR ''='' \<notin> set k \<and> CHR 0x00 \<notin> set k \<and> CHR 0x00 \<notin> set v)"

lemma utf8_char_ascii: "code c < 128 \<Longrightarrow> utf8_char c = [of_nat (code c)]"
  by (simp add: utf8_char_def)

lemma byte_not_in_utf8: "b < 0x80 \<Longrightarrow> char_of (unat b) \<notin> set s \<Longrightarrow> b \<notin> set (utf8_bytes s)"
  using ascii_in_bytes by blast

lemma nul_char: "char_of (0 :: nat) = CHR 0x00" and equals_char: "char_of (61 :: nat) = CHR ''=''"
  by code_simp+

lemma nul_not_in_utf8: "CHR 0x00 \<notin> set s \<Longrightarrow> 0 \<notin> set (utf8_bytes s)"
  using byte_not_in_utf8 [of 0 s] by (simp add: nul_char)

lemma equals_not_in_utf8: "CHR ''='' \<notin> set s \<Longrightarrow> EQUALS \<notin> set (utf8_bytes s)"
  by (rule byte_not_in_utf8) (simp_all add: EQUALS_def equals_char)

abbreviation var_bytes :: "string \<times> string \<Rightarrow> bytes" where
  "var_bytes \<equiv> \<lambda>(k, v). utf8_bytes k @ [EQUALS] @ utf8_bytes v"

lemma env_entry_var:
  assumes "var_ok (k, v)"
  shows "env_entry (var_bytes (k, v)) = Some (utf8_bytes k, utf8_bytes v)"
proof -
  have e: "utf8_bytes ''='' = [EQUALS]" by (simp add: utf8_bytes_def utf8_char_def EQUALS_def)
  have "var_bytes (k, v) = utf8_bytes (k @ ''='' @ v)" by (simp only: utf8_bytes_append e case_prod_conv)
  then have "utf8_lossy (var_bytes (k, v)) = var_bytes (k, v)" by (simp add: utf8_lossy_valid utf8_valid_bytes)
  then show ?thesis using assms equals_not_in_utf8 [of k]
    by (auto simp: env_entry_def var_ok_def intro!: split_once_append)
qed

lemma env_region:
  "env_data vars @ replicate n 0 = concat (map (\<lambda>l. l @ [0]) (map var_bytes vars @ replicate (Suc n) []))"
proof -
  have "concat (map (\<lambda>l. l @ [0 :: u8]) (replicate (Suc n) [])) = replicate (Suc n) 0" for n
    by (induction n) simp_all
  then show ?thesis by (simp add: env_data_def case_prod_beta comp_def split_def del: replicate_Suc) simp
qed

lemma env_entries:
  assumes "\<forall>x \<in> set vars. var_ok x"
  shows "takeWhile (\<lambda>e. e \<noteq> []) (split_by (\<lambda>b. b = 0) (env_data vars @ replicate n 0)) = map var_bytes vars"
proof -
  have "\<forall>l \<in> set (map var_bytes vars @ replicate (Suc n) []). 0 \<notin> set l"
    using assms nul_not_in_utf8 by (fastforce simp: var_ok_def EQUALS_def simp del: replicate_Suc)
  then have "split_by (\<lambda>b. b = 0) (env_data vars @ replicate n 0) = (map var_bytes vars @ replicate (Suc n) []) @ [[]]"
    unfolding env_region by (rule split_terminated)
  moreover have "takeWhile (\<lambda>e. e \<noteq> []) (map var_bytes vars @ r) = map var_bytes vars @ takeWhile (\<lambda>e. e \<noteq> []) r" for r
    by (rule takeWhile_append2) auto
  ultimately show ?thesis by simp
qed

lemma insert_vars:
  assumes "\<forall>x \<in> set vars. var_ok x"
  shows "fold (\<lambda>e m. case env_entry e of Some (k, v) \<Rightarrow> bt_insert k v m | None \<Rightarrow> m) (map var_bytes vars) m =
    fold (\<lambda>(k, v). bt_insert (utf8_bytes k) (utf8_bytes v)) vars m"
  using assms
proof (induction vars arbitrary: m)
  case (Cons x vars)
  obtain k v where x: "x = (k, v)" by (cases x)
  show ?case using Cons env_entry_var [of k v] by (simp add: x)
qed simp

lemma get_vars:
  assumes "distinct (map fst vars)" and "bt_sorted m"
  shows "bt_get (fold (\<lambda>(k, v). bt_insert (utf8_bytes k) (utf8_bytes v)) vars m) (utf8_bytes k) =
    (case map_of vars k of Some v \<Rightarrow> Some (utf8_bytes v) | None \<Rightarrow> bt_get m (utf8_bytes k))"
  using assms
proof (induction vars arbitrary: m)
  case (Cons x vars)
  have "bt_sorted (bt_insert (utf8_bytes (fst x)) (utf8_bytes (snd x)) m)" using Cons.prems by (simp add: bt_sorted_insert)
  moreover have "map_of vars (fst x) = None" using Cons.prems by (simp add: map_of_eq_None_iff)
  ultimately show ?case using Cons utf8_bytes_inject
    by (auto simp: case_prod_beta bt_get_insert split: option.splits dest: utf8_bytes_inject)
qed simp

lemma env_round_trip:
  assumes "env_block crc32 vars = Some blk" and "\<forall>x \<in> set vars. var_ok x" and "distinct (map fst vars)"
  shows "length blk = UBOOT_ENV_SIZE \<and> (\<exists>env. parse_env_block crc32 blk = Some env \<and>
    (\<forall>k. bt_get env (utf8_bytes k) = map_option utf8_bytes (map_of vars k)))"
proof -
  let ?d = "env_data vars"
  let ?r = "?d @ replicate (UBOOT_ENV_SIZE - 4 - length ?d) 0"
  have blk: "blk = to_le 4 (crc32 ?r) @ ?r" and fit: "length ?d \<le> UBOOT_ENV_SIZE - 4"
    using assms(1) by (auto simp: env_block_def Let_def split: if_splits)
  have "parse_env_block crc32 blk = Some (fold (\<lambda>(k, v). bt_insert (utf8_bytes k) (utf8_bytes v)) vars [])"
    unfolding blk parse_env_block_def
    by (simp add: Let_def env_entries [OF assms(2)] insert_vars [OF assms(2), simplified])
  moreover have "length blk = UBOOT_ENV_SIZE" using fit by (simp add: blk UBOOT_ENV_SIZE_def)
  ultimately show ?thesis using get_vars [OF assms(3), of "[]"]
    by (auto simp: bt_sorted_def bt_get_def split: option.splits)
qed

section \<open>The image is complete\<close>

text \<open>What a written table says depends on the bytes outside the usable area only.\<close>

lemma read_at_cong: "(\<And>i. off \<le> i \<Longrightarrow> i < off + n \<Longrightarrow> d i = d' i) \<Longrightarrow> read_at d off n = read_at d' off n"
  by (auto simp: read_at_def)

lemma gpt_kept:
  assumes "write_gpt crc32 guid n parts d = Some d1" "length guid = 16" "67 \<le> n" "\<forall>p \<in> set parts. part_ok p"
    and same: "\<And>i. i < 34 * 512 \<or> (n - 33) * 512 \<le> i \<Longrightarrow> d2 i = d1 i"
  shows "header_valid crc32 d2 1" "header_valid crc32 d2 (n - 1)" "num_at 72 (read_at d2 512 512) = 2"
    "i < length parts \<Longrightarrow> read_part d2 2 i = part_view (parts ! i)"
    "i < length parts \<Longrightarrow> read_part d2 (n - 33) i = part_view (parts ! i)"
proof -
  note f = gpt_facts [OF assms(1-4)]
  have n: "length parts \<le> 128" using assms(1) by (auto simp: write_gpt_def gpt_consts split: if_splits)
  have lo: "read_at d2 off m = read_at d1 off m" if "off + m \<le> 34 * 512" for off m
    using same that by (intro read_at_cong) auto
  have hi: "read_at d2 off m = read_at d1 off m" if "(n - 33) * 512 \<le> off" for off m
    using same that by (intro read_at_cong) auto
  have h: "read_at d2 512 512 = read_at d1 512 512" "read_at d2 1024 16384 = read_at d1 1024 16384" by (simp_all add: lo)
  have b: "read_at d2 ((n - 1) * 512) 512 = read_at d1 ((n - 1) * 512) 512"
    "read_at d2 ((n - 33) * 512) 16384 = read_at d1 ((n - 33) * 512) 16384" by (simp_all add: hi)
  have g: "num32_at 80 (read_at d1 512 512) = 128" "num32_at 84 (read_at d1 512 512) = 128"
    "num32_at 80 (read_at d1 ((n - 1) * 512) 512) = 128" "num32_at 84 (read_at d1 ((n - 1) * 512) 512) = 128"
    using f by simp_all
  show "header_valid crc32 d2 1" using f h g by (simp add: header_valid_def Let_def SECTOR_def)
  show "header_valid crc32 d2 (n - 1)" using f b g by (simp add: header_valid_def Let_def SECTOR_def)
  show "num_at 72 (read_at d2 512 512) = 2" using f h by simp
  show "read_part d2 2 i = part_view (parts ! i)" if "i < length parts"
  proof -
    have "read_part d2 2 i = read_part d1 2 i" using that n by (simp add: read_part_def gpt_consts lo)
    then show ?thesis using f that by simp
  qed
  show "read_part d2 (n - 33) i = part_view (parts ! i)" if "i < length parts"
  proof -
    have "read_part d2 (n - 33) i = read_part d1 (n - 33) i" by (simp add: read_part_def gpt_consts hi)
    then show ?thesis using f that by simp
  qed
qed

definition fw_ok :: "firmware_info \<Rightarrow> bool" where
  "fw_ok fw = (\<forall>s \<in> {fw_release fw, fw_rev_apl fw, fw_rev_system fw, fw_miniloader fw}. CHR 0x00 \<notin> set (or_empty s))"

lemma serial_no_nul: "CHR 0x00 \<notin> set (device_serial k)"
  using show_nat_all_digits [of "CHR 0x00" "unat k"] by (auto simp: device_serial_def pad_6_def is_digit_def)

lemma spec_env:
  "model_env SPEC_3k = ''CDJ3K-RK3399''" "model_env SPEC_3kx = ''CDJ3000X''"
  "model_env SPEC_1500x = ''6516d11b-fad9-4f28-9a01-fd2af5e1ef40''" "title SPEC_1500x = ''CDJ-1500X''"
  "system_rev_env SPEC_3k = Some ''rev_kernel''" "system_rev_env SPEC_3kx = Some ''rev_system''"
  "system_rev_env SPEC_1500x = None"
  by (simp_all add: SPEC_3k_def SPEC_3kx_def SPEC_1500x_def)

lemmas uboot_vars_simps = uboot_vars_def vars_1500x_def vars_rk3399_def spec_env or_empty_def

lemma uboot_vars_ok:
  assumes "fw_ok fw"
  shows "\<forall>x \<in> set (uboot_vars m fw (device_serial k)). var_ok x"
  using assms serial_no_nul [of k]
  by (cases m) (simp_all add: uboot_vars_simps fw_ok_def var_ok_def)

fun var_names :: "model \<Rightarrow> string list" where
  "var_names m = map fst (uboot_vars m \<lparr>fw_release = None, fw_rev_apl = None, fw_rev_system = None, fw_miniloader = None\<rparr> [])"

lemma uboot_vars_distinct: "distinct (map fst (uboot_vars m fw s))"
proof -
  have "map fst (uboot_vars m fw s) = var_names m"
    by (cases m) (simp_all add: uboot_vars_simps)
  moreover have "distinct (var_names m)" by (cases m) (simp_all only:, code_simp+)
  ultimately show ?thesis by simp
qed

lemma emmc_parts_facts:
  assumes "\<forall>i. length (guids i) = 16"
  shows "length (emmc_parts guids m) = length (emmc_places m)" "\<forall>p \<in> set (emmc_parts guids m). part_ok p"
    "i < length (emmc_places m) \<Longrightarrow> emmc_parts guids m ! i = part_new (guids i) (emmc_places m ! i)"
proof -
  show "length (emmc_parts guids m) = length (emmc_places m)" by (simp add: emmc_parts_def)
  show n: "emmc_parts guids m ! i = part_new (guids i) (emmc_places m ! i)" if "i < length (emmc_places m)" for i
    using that by (simp add: emmc_parts_def nth_enumerate_eq)
  have b: "a < 2 ^ 64 \<and> b < 2 ^ 64" if "(a, b, n) \<in> set (emmc_places m)" for a b n
    using that emmc_places_rk3399 [of m] emmc_places_1500x by (cases "m = Cdj1500x") auto
  have "length TYPE_LINUX_DATA = 16" by (simp add: TYPE_LINUX_DATA_def guid_to_mixed_def)
  then show "\<forall>p \<in> set (emmc_parts guids m). part_ok p"
    using assms b by (fastforce simp: emmc_parts_def enumerate_eq_zip part_new_def part_ok_def dest!: set_zip_rightD)
qed

lemma stage_facts:
  assumes "m = ec_model config" and "(a, b, nm) = emmc_places m ! stage (layout_of m)"
  shows "stage (layout_of m) < length (emmc_places m)" "(UBOOT_ENV_OFFSET + UBOOT_ENV_SIZE) div SECTOR \<le> a" "a \<le> b"
    "b \<le> 61022174" "34 \<le> a"
  using assms emmc_places_rk3399 [of m] emmc_places_1500x
  by (cases m; simp add: layout_of_def UBOOT_ENV_OFFSET_def UBOOT_ENV_SIZE_def SECTOR_def)+

lemma length_stage_header [simp]: "length (stage_header n) = 512"
  by (simp add: stage_header_def Let_def CABINET_STAGE_HEADER_def)

text \<open>The three steps, taken apart: the table, the cabinet image in its partition, the
  environment.\<close>

lemma write_gpt_raw_steps:
  assumes "write_gpt_raw crc32 dg guids config = Inr raw" and "\<forall>i. length (guids i) = 16"
    and m: "m = ec_model config" and p: "(a, b, nm) = emmc_places m ! stage (layout_of m)"
  obtains d1 d2 blk where
    "write_gpt crc32 dg emmc_sectors (emmc_parts guids m) (\<lambda>_. 0) = Some d1"
    "ec_cabinet config = None \<and> d2 = d1 \<or>
     (\<exists>cab. ec_cabinet config = Some cab \<and> (a * 512 + 512) + length cab \<le> (b + 1) * 512 \<and>
        d2 = write_at (a * 512 + 512) cab (write_at (a * 512) (stage_header (length cab)) d1))"
    "env_block crc32 (uboot_vars m (ec_firmware config) (device_serial (ec_instance config))) = Some blk"
    "raw = write_at UBOOT_ENV_OFFSET blk d2"
proof -
  have part: "emmc_parts guids m ! stage (layout_of m) = part_new (guids (stage (layout_of m))) (a, b, nm)"
    using emmc_parts_facts(3) [OF assms(2)] stage_facts(1) [OF m p] p by simp
  obtain d1 d2 where 1: "write_gpt crc32 dg emmc_sectors (emmc_parts guids m) (\<lambda>_. 0) = Some d1"
    and 2: "(case ec_cabinet config of None \<Rightarrow> Inr d1
       | Some cab \<Rightarrow> stage_cabinet (emmc_parts guids m ! stage (layout_of m)) cab d1) = Inr d2"
    and 3: "write_uboot_env crc32 (ec_instance config) m (ec_firmware config) d2 = Inr raw"
    using assms(1) by (auto simp: write_gpt_raw_def Let_def bindR_eq_Inr ok_or_def m split: option.splits)
  obtain blk where 4: "env_block crc32 (uboot_vars m (ec_firmware config) (device_serial (ec_instance config))) = Some blk"
    "raw = write_at UBOOT_ENV_OFFSET blk d2"
    using 3 by (auto simp: write_uboot_env_def split: option.splits)
  have "ec_cabinet config = None \<and> d2 = d1 \<or>
     (\<exists>cab. ec_cabinet config = Some cab \<and> (a * 512 + 512) + length cab \<le> (b + 1) * 512 \<and>
        d2 = write_at (a * 512 + 512) cab (write_at (a * 512) (stage_header (length cab)) d1))"
    using 2 stage_facts(3) [OF m p]
    by (auto simp: stage_cabinet_def part part_new_def Let_def SECTOR_def CABINET_STAGE_HEADER_def split: option.splits if_splits)
  then show ?thesis using that 1 4 by blast
qed

lemma emmc_raw_facts:
  assumes "write_gpt_raw crc32 dg guids config = Inr raw" and dg: "length dg = 16" and g: "\<forall>i. length (guids i) = 16"
    and fw: "fw_ok (ec_firmware config)" and m: "m = ec_model config"
    and p: "(a, b, nm) = emmc_places m ! stage (layout_of m)"
  shows "header_valid crc32 raw 1" "header_valid crc32 raw (emmc_sectors - 1)"
    "\<forall>i < length (emmc_places m). read_part raw GPT_ENTRIES_LBA i = part_view (part_new (guids i) (emmc_places m ! i))"
    "\<exists>env. parse_env_block crc32 (read_at raw UBOOT_ENV_OFFSET UBOOT_ENV_SIZE) = Some env \<and>
       (\<forall>k. bt_get env (utf8_bytes k) =
          map_option utf8_bytes (map_of (uboot_vars m (ec_firmware config) (device_serial (ec_instance config))) k))"
    "ec_cabinet config = Some cab \<Longrightarrow> a * SECTOR + CABINET_STAGE_HEADER + length cab \<le> (b + 1) * SECTOR \<and>
       read_at raw (a * SECTOR) CABINET_STAGE_HEADER = stage_header (length cab) \<and>
       read_at raw (a * SECTOR + CABINET_STAGE_HEADER) (length cab) = cab"
proof -
  obtain d1 d2 blk where 1: "write_gpt crc32 dg emmc_sectors (emmc_parts guids m) (\<lambda>_. 0) = Some d1"
    and 2: "ec_cabinet config = None \<and> d2 = d1 \<or>
     (\<exists>cab. ec_cabinet config = Some cab \<and> (a * 512 + 512) + length cab \<le> (b + 1) * 512 \<and>
        d2 = write_at (a * 512 + 512) cab (write_at (a * 512) (stage_header (length cab)) d1))"
    and 3: "env_block crc32 (uboot_vars m (ec_firmware config) (device_serial (ec_instance config))) = Some blk"
    and 4: "raw = write_at UBOOT_ENV_OFFSET blk d2"
    by (rule write_gpt_raw_steps [OF assms(1) g m p])
  note env = env_round_trip [OF 3 uboot_vars_ok [OF fw] uboot_vars_distinct]
  have blk: "length blk = 32768" using env by (simp add: UBOOT_ENV_SIZE_def)
  have st: "8192 \<le> a" "b \<le> 61022174" "a \<le> b"
    using stage_facts [OF m p] by (simp_all add: UBOOT_ENV_OFFSET_def UBOOT_ENV_SIZE_def SECTOR_def)
  have same: "raw i = d1 i" if "i < 34 * 512 \<or> (emmc_sectors - 33) * 512 \<le> i" for i
    using that 2 st blk by (auto simp: 4 emmc_sectors_value UBOOT_ENV_OFFSET_def write_at_outside)
  have n: "67 \<le> emmc_sectors" by (simp add: emmc_sectors_value)
  note gpt = gpt_kept [OF 1 dg n emmc_parts_facts(2) [OF g] same]
  show "header_valid crc32 raw 1" "header_valid crc32 raw (emmc_sectors - 1)" using gpt(1,2) by simp_all
  show "\<forall>i < length (emmc_places m). read_part raw GPT_ENTRIES_LBA i = part_view (part_new (guids i) (emmc_places m ! i))"
    using gpt(4) emmc_parts_facts(1,3) [OF g] by (simp add: GPT_ENTRIES_LBA_def)
  have "read_at raw UBOOT_ENV_OFFSET UBOOT_ENV_SIZE = blk" using blk by (simp add: 4 UBOOT_ENV_SIZE_def)
  then show "\<exists>env. parse_env_block crc32 (read_at raw UBOOT_ENV_OFFSET UBOOT_ENV_SIZE) = Some env \<and>
       (\<forall>k. bt_get env (utf8_bytes k) =
          map_option utf8_bytes (map_of (uboot_vars m (ec_firmware config) (device_serial (ec_instance config))) k))"
    using env by simp
  show "a * SECTOR + CABINET_STAGE_HEADER + length cab \<le> (b + 1) * SECTOR \<and>
       read_at raw (a * SECTOR) CABINET_STAGE_HEADER = stage_header (length cab) \<and>
       read_at raw (a * SECTOR + CABINET_STAGE_HEADER) (length cab) = cab" if "ec_cabinet config = Some cab"
    using that 2 st blk
    by (simp add: 4 SECTOR_def CABINET_STAGE_HEADER_def UBOOT_ENV_OFFSET_def read_write_other)
qed


definition example_emmc :: emmc_config where
  "example_emmc = \<lparr>ec_instance = 3, ec_model = Cdj1500x,
     ec_firmware = \<lparr>fw_release = None, fw_rev_apl = None, fw_rev_system = None, fw_miniloader = None\<rparr>,
     ec_cabinet = Some [1, 2, 3]\<rparr>"

lemma length_utf8_bytes: "length (utf8_bytes s) \<le> 2 * length s"
  by (induction s) (simp_all add: utf8_bytes_def utf8_char_def Let_def)

lemma length_env_data: "length (env_data vars) \<le> (\<Sum>(k, v) \<leftarrow> vars. 2 * length k + 2 * length v + 2) + 1"
proof (induction vars)
  case (Cons x vars)
  then show ?case using length_utf8_bytes [of "fst x"] length_utf8_bytes [of "snd x"]
    by (simp add: env_data_def case_prod_beta)
qed (simp add: env_data_def)


lemma converted_env_read:
  assumes "write_gpt_raw crc32 dg guids config = Inr raw" and "length dg = 16" and "\<forall>i. length (guids i) = 16"
    and "fw_ok (ec_firmware config)"
    and conv: "\<And>i. i < UBOOT_ENV_SIZE \<Longrightarrow> guest_byte img (UBOOT_ENV_OFFSET + i) = Some (raw (UBOOT_ENV_OFFSET + i))"
  shows "\<exists>env. read_uboot_env crc32 img = Some env \<and>
    bt_get env (utf8_bytes ''serial_number'') = Some (utf8_bytes (device_serial (ec_instance config)))"
proof -
  let ?blk = "read_at raw UBOOT_ENV_OFFSET UBOOT_ENV_SIZE"
  let ?m = "ec_model config"
  obtain a b nm where st: "(a, b, nm) = emmc_places ?m ! stage (layout_of ?m)" by (metis prod_cases3)
  have "qcow_read_at img UBOOT_ENV_OFFSET UBOOT_ENV_SIZE = Inr (Some ?blk)"
    using qcow_read_bytes [of UBOOT_ENV_SIZE] conv by (simp add: UBOOT_ENV_SIZE_def read_at_def)
  moreover obtain env where "parse_env_block crc32 ?blk = Some env"
    "\<forall>k. bt_get env (utf8_bytes k) =
       map_option utf8_bytes (map_of (uboot_vars ?m (ec_firmware config) (device_serial (ec_instance config))) k)"
    using emmc_raw_facts(4) [OF assms(1-4) refl st] by blast
  moreover have "map_of (uboot_vars ?m (ec_firmware config) (device_serial (ec_instance config))) ''serial_number'' =
      Some (device_serial (ec_instance config))"
    using uboot_vars_distinct by (intro map_of_is_SomeI) (auto simp: uboot_vars_def)
  ultimately show ?thesis by (simp add: read_uboot_env_def)
qed

end
