(* ===== verification/Luks.thy ===== *)
theory Luks
  imports Utf8Text
begin

text \<open>
  LUKS1 key slots, \<open>crates/cdj3k-emu-firmware/src/luks/crypto.rs\<close> and
  \<open>crates/cdj3k-emu-firmware/src/luks/rekey.rs\<close>: the anti-forensic split and merge, the checked
  header layout, opening a slot, and adding the slot of one unit to a cabinet image. The ciphers, hashes
  and the key derivation come from third-party crates; they are the fields of \<open>crypto\<close>, and
  \<open>crypto_ok\<close> states the documented facts the proofs need of them. Random bytes are an argument that gives
  the bytes of each draw. \<open>usize\<close> is 64 bits wide. Header texts are UTF-8 byte strings.
\<close>

section \<open>Primitives\<close>

text \<open>The hashes; PBKDF2 with HMAC over SHA-1 and SHA-256 for a password, salt, number of rounds and
  output length; AES-XTS on one sector for the two key halves and the tweak, AES-CBC decryption and one
  AES-256 block.\<close>

record crypto =
  c_sha1 :: "bytes \<Rightarrow> bytes"
  c_sha256 :: "bytes \<Rightarrow> bytes"
  c_sha512 :: "bytes \<Rightarrow> bytes"
  c_pbkdf2_sha1 :: "bytes \<Rightarrow> bytes \<Rightarrow> u32 \<Rightarrow> nat \<Rightarrow> bytes option"
  c_pbkdf2_sha256 :: "bytes \<Rightarrow> bytes \<Rightarrow> u32 \<Rightarrow> nat \<Rightarrow> bytes option"
  c_xts_enc :: "bytes \<Rightarrow> bytes \<Rightarrow> bytes \<Rightarrow> bytes \<Rightarrow> bytes"
  c_xts_dec :: "bytes \<Rightarrow> bytes \<Rightarrow> bytes \<Rightarrow> bytes \<Rightarrow> bytes"
  c_cbc_dec :: "bytes \<Rightarrow> bytes \<Rightarrow> bytes \<Rightarrow> bytes"
  c_aes_block :: "bytes \<Rightarrow> bytes \<Rightarrow> bytes"

definition crypto_ok :: "crypto \<Rightarrow> bool" where
  "crypto_ok c \<longleftrightarrow>
     (\<forall>b. length (c_sha1 c b) = 20) \<and> (\<forall>b. length (c_sha256 c b) = 32) \<and>
     (\<forall>p s i n k. c_pbkdf2_sha1 c p s i n = Some k \<longrightarrow> length k = n) \<and>
     (\<forall>p s i n k. c_pbkdf2_sha256 c p s i n = Some k \<longrightarrow> length k = n) \<and>
     (\<forall>k1 k2 t b. length k1 = length k2 \<and> length k1 \<in> {16, 32} \<and> length t = 16 \<and> 16 \<le> length b \<longrightarrow>
        length (c_xts_enc c k1 k2 t b) = length b \<and> length (c_xts_dec c k1 k2 t b) = length b \<and>
        c_xts_dec c k1 k2 t (c_xts_enc c k1 k2 t b) = b)"

definition lower_byte :: "u8 \<Rightarrow> u8" where
  "lower_byte b = (if 0x41 \<le> b \<and> b \<le> 0x5A then b + 0x20 else b)"

text \<open>\<open>to_lowercase\<close> on a header text. Where the code uses the result it looks for ASCII names
  only, and no other character becomes one of theirs.\<close>

definition lower_text :: "bytes \<Rightarrow> bytes" where "lower_text s = map lower_byte s"

definition SHA1 :: bytes where "SHA1 = utf8_bytes ''sha1''"
definition SHA256 :: bytes where "SHA256 = utf8_bytes ''sha256''"

definition pbkdf2_derive :: "crypto \<Rightarrow> bytes \<Rightarrow> bytes \<Rightarrow> bytes \<Rightarrow> u32 \<Rightarrow> nat \<Rightarrow> bytes option" where
  "pbkdf2_derive c hash_spec pwd salt iters n =
     (if lower_text hash_spec = SHA256 then c_pbkdf2_sha256 c pwd salt iters n
      else c_pbkdf2_sha1 c pwd salt iters n)"

section \<open>The anti-forensic splitter\<close>

definition xor_into :: "bytes \<Rightarrow> bytes \<Rightarrow> bytes" where
  "xor_into d s = map2 (XOR) d s @ drop (length s) d"

definition diffuse_blocks :: "(bytes \<Rightarrow> bytes) \<Rightarrow> nat \<Rightarrow> bytes \<Rightarrow> bytes" where
  "diffuse_blocks H hlen buf =
     (let blocks = length buf div hlen; padding = length buf mod hlen
      in concat (map (\<lambda>j. H (to_be 4 (of_nat j :: u32) @ slice_of (j * hlen) hlen buf)) [0..<blocks]) @
         (if 0 < padding then take padding (H (to_be 4 (of_nat blocks :: u32) @ drop (blocks * hlen) buf)) else []))"

definition diffuse_sha256 :: "crypto \<Rightarrow> bytes \<Rightarrow> bytes" where
  "diffuse_sha256 c buf = diffuse_blocks (c_sha256 c) 32 buf"

definition diffuse_sha1 :: "crypto \<Rightarrow> bytes \<Rightarrow> bytes" where
  "diffuse_sha1 c buf = diffuse_blocks (c_sha1 c) 20 buf"

definition diffuse :: "crypto \<Rightarrow> bytes \<Rightarrow> bytes \<Rightarrow> bytes" where
  "diffuse c buf hash_spec = (if lower_text hash_spec = SHA256 then diffuse_sha256 c buf else diffuse_sha1 c buf)"

text \<open>The loop both directions share.\<close>

definition af_mix :: "crypto \<Rightarrow> bytes \<Rightarrow> nat \<Rightarrow> nat \<Rightarrow> bytes \<Rightarrow> bytes" where
  "af_mix c src bs n hash_spec =
     fold (\<lambda>i d. diffuse c (xor_into d (slice_of (i * bs) bs src)) hash_spec) [0..<n] (replicate bs 0)"

definition af_merge :: "crypto \<Rightarrow> bytes \<Rightarrow> nat \<Rightarrow> nat \<Rightarrow> bytes \<Rightarrow> bytes" where
  "af_merge c src key_bytes stripes hash_spec =
     xor_into (af_mix c src key_bytes (stripes - 1) hash_spec) (slice_of ((stripes - 1) * key_bytes) key_bytes src)"

definition af_split :: "crypto \<Rightarrow> (nat \<Rightarrow> bytes) \<Rightarrow> bytes \<Rightarrow> nat \<Rightarrow> bytes \<Rightarrow> bytes" where
  "af_split c random_bytes key stripes hash_spec =
     (let bs = length key;
          out = random_bytes (bs * (stripes - 1));
          d = af_mix c out bs (stripes - 1) hash_spec
      in out @ xor_into d key)"

lemma length_xor_into [simp]: "length (xor_into d s) = length d"
  by (simp add: xor_into_def)

lemma xor_into_twice: "length s = length d \<Longrightarrow> xor_into d (xor_into d s) = s"
  by (auto simp: xor_into_def intro!: nth_equalityI)

lemma length_concat_const: "(\<And>x. x \<in> set xs \<Longrightarrow> length (f x) = n) \<Longrightarrow> length (concat (map f xs)) = length xs * n"
  by (induction xs) simp_all

lemma length_diffuse_blocks:
  assumes "\<And>b. length (H b) = hlen" and "0 < hlen"
  shows "length (diffuse_blocks H hlen buf) = length buf"
proof -
  have "length buf mod hlen \<le> hlen" using assms(2) by (simp add: order_less_imp_le)
  then show ?thesis using assms(1)
    by (simp add: diffuse_blocks_def Let_def length_concat_const [where n = hlen] min_absorb1 div_mult_mod_eq)
      (metis div_mult_mod_eq add_0_right)
qed

lemma length_diffuse: "crypto_ok c \<Longrightarrow> length (diffuse c buf hs) = length buf"
  by (simp add: diffuse_def diffuse_sha256_def diffuse_sha1_def length_diffuse_blocks crypto_ok_def)

lemma length_af_mix: "crypto_ok c \<Longrightarrow> length (af_mix c src bs n hs) = bs"
  unfolding af_mix_def by (induction n) (simp_all add: length_diffuse)

lemma length_af_merge [simp]: "crypto_ok c \<Longrightarrow> length (af_merge c src kb st hs) = kb"
  by (simp add: af_merge_def length_af_mix)

lemma af_mix_prefix:
  assumes "n * bs \<le> length a"
  shows "af_mix c (a @ b) bs n hs = af_mix c a bs n hs"
  unfolding af_mix_def
proof (rule fold_cong [OF refl refl])
  fix i assume "i \<in> set [0..<n]"
  then have "(i + 1) * bs \<le> n * bs" by (intro mult_le_mono1) simp
  then show "(\<lambda>d. diffuse c (xor_into d (slice_of (i * bs) bs (a @ b))) hs) =
      (\<lambda>d. diffuse c (xor_into d (slice_of (i * bs) bs a)) hs)"
    using assms by (simp add: slice_of_def)
qed

lemma af_merge_split:
  assumes "crypto_ok c" and "\<And>n. length (rnd n) = n"
  shows "af_merge c (af_split c rnd key stripes hs) (length key) stripes hs = key"
    "length (af_split c rnd key stripes hs) = length key * (stripes - 1) + length key"
proof -
  let ?out = "rnd (length key * (stripes - 1))"
  let ?d = "af_mix c ?out (length key) (stripes - 1) hs"
  have s: "af_split c rnd key stripes hs = ?out @ xor_into ?d key" by (simp add: af_split_def Let_def)
  have d: "length ?d = length key" by (rule length_af_mix [OF assms(1)])
  show "length (af_split c rnd key stripes hs) = length key * (stripes - 1) + length key"
    by (simp only: s length_append length_xor_into assms(2) d)
  have "af_mix c (?out @ xor_into ?d key) (length key) (stripes - 1) hs = ?d"
    by (rule af_mix_prefix) (simp add: assms(2) mult.commute)
  moreover have "slice_of ((stripes - 1) * length key) (length key) (?out @ xor_into ?d key) = xor_into ?d key"
    by (simp add: slice_of_def assms(2) mult.commute length_af_mix [OF assms(1)])
  ultimately show "af_merge c (af_split c rnd key stripes hs) (length key) stripes hs = key"
    by (simp add: af_merge_def s xor_into_twice length_af_mix [OF assms(1)])
qed

section \<open>The header\<close>

definition LUKS_MAGIC :: bytes where "LUKS_MAGIC = [0x4C, 0x55, 0x4B, 0x53, 0xBA, 0xBE]"
definition LUKS_SECTOR :: nat where "LUKS_SECTOR = 512"
definition LUKS1_STRIPES :: u32 where "LUKS1_STRIPES = 4000"
definition SLOT_ITERATIONS :: u32 where "SLOT_ITERATIONS = 200000"
definition SLOT_ACTIVE :: u32 where "SLOT_ACTIVE = 0x00AC71F3"
definition SLOT_INACTIVE :: u32 where "SLOT_INACTIVE = 0x0000DEAD"
definition SLOT_COUNT :: nat where "SLOT_COUNT = 8"
definition HEADER_BYTES :: nat where "HEADER_BYTES = 592"
definition SLOT_TABLE_OFFSET :: nat where "SLOT_TABLE_OFFSET = 208"
definition SLOT_ENTRY_BYTES :: nat where "SLOT_ENTRY_BYTES = 48"

datatype rekey_error =
  NotLuks1 | VendorSlotLocked | RekeyCipher bytes | Malformed string | NoFreeSlot | Truncated | BadSerial

record keyslot =
  ks_active :: bool
  ks_iterations :: u32
  ks_salt :: bytes
  km_start :: nat
  km_end :: nat
  ks_stripes :: nat

record luks1_layout =
  lay_hash :: bytes
  lay_key_bytes :: nat
  lay_mk_digest :: bytes
  lay_mk_salt :: bytes
  lay_mk_iter :: u32
  lay_slots :: "keyslot list"

definition be32 :: "bytes \<Rightarrow> nat \<Rightarrow> u32" where
  "be32 img i = from_be (slice_of i 4 img)"

definition cstr :: "bytes \<Rightarrow> bytes" where
  "cstr bs = utf8_lossy (takeWhile (\<lambda>b. b \<noteq> 0) bs)"

definition sector_offset :: "u32 \<Rightarrow> string \<Rightarrow> rekey_error + nat" where
  "sector_offset n what =
     (if unat n * LUKS_SECTOR < 2 ^ 64 then Inr (unat n * LUKS_SECTOR) else Inl (Malformed what))"

definition parse_identity :: "bytes \<Rightarrow> rekey_error + bytes" where
  "parse_identity img =
     (if length img < HEADER_BYTES \<or> slice_of 0 6 img \<noteq> LUKS_MAGIC then Inl NotLuks1
      else if (from_be (slice_of 6 2 img) :: u16) \<noteq> 1 then Inl NotLuks1
      else
        let cipher = cstr (slice_of 8 32 img); mode = cstr (slice_of 40 32 img)
        in if lower_text cipher \<noteq> utf8_bytes ''aes'' \<or> lower_text mode \<noteq> utf8_bytes ''xts-plain64''
           then Inl (RekeyCipher (cipher @ utf8_bytes ''-'' @ mode))
           else
             let hash_spec = lower_text (cstr (slice_of 72 32 img))
             in if hash_spec \<noteq> SHA1 \<and> hash_spec \<noteq> SHA256 then Inl (RekeyCipher hash_spec) else Inr hash_spec)"

definition slot_entry :: "nat \<Rightarrow> nat" where
  "slot_entry index = SLOT_TABLE_OFFSET + index * SLOT_ENTRY_BYTES"

definition keyslot_parse :: "bytes \<Rightarrow> nat \<Rightarrow> nat \<Rightarrow> nat \<Rightarrow> rekey_error + keyslot" where
  "keyslot_parse img index key_bytes payload_start =
     (let entry = slot_entry index; state = be32 img entry
      in bindR (if state = SLOT_ACTIVE then Inr True else if state = SLOT_INACTIVE then Inr False
                else Inl (Malformed ''keyslot state is neither active nor inactive'')) (\<lambda>active.
         let iterations = be32 img (entry + 4)
         in if active \<and> iterations = 0 then Inl (Malformed ''keyslot iterations are zero'')
         else
           let stripes = be32 img (entry + 44)
           in if stripes \<noteq> LUKS1_STRIPES then Inl (Malformed ''keyslot stripe count is not 4000'')
           else bindR (sector_offset (be32 img (entry + 40)) ''key material offset'') (\<lambda>start.
             if start < HEADER_BYTES then Inl (Malformed ''the key material is inside the header'')
             else
               let fin = start + key_bytes * unat stripes
               in if 2 ^ 64 \<le> fin then Inl (Malformed ''key material end overflows'')
                  else if length img < fin then Inl Truncated
                  else if payload_start < fin then Inl (Malformed ''key material overlaps the payload'')
                  else Inr \<lparr>ks_active = active, ks_iterations = iterations, ks_salt = slice_of (entry + 8) 32 img,
                         km_start = start, km_end = fin, ks_stripes = unat stripes\<rparr>)))"

fun parse_slots :: "bytes \<Rightarrow> nat \<Rightarrow> nat \<Rightarrow> nat list \<Rightarrow> rekey_error + keyslot list" where
  "parse_slots img kb ps [] = Inr []"
| "parse_slots img kb ps (i # is) =
     bindR (keyslot_parse img i kb ps) (\<lambda>s. bindR (parse_slots img kb ps is) (\<lambda>ss. Inr (s # ss)))"

definition slots_overlap :: "keyslot \<Rightarrow> keyslot \<Rightarrow> bool" where
  "slots_overlap a b = (km_start a < km_end b \<and> km_start b < km_end a)"

fun check_disjoint :: "keyslot list \<Rightarrow> rekey_error + unit" where
  "check_disjoint [] = Inr ()"
| "check_disjoint (a # bs) =
     (if list_ex (slots_overlap a) bs then Inl (Malformed ''keyslot material regions overlap'') else check_disjoint bs)"

definition layout_parse :: "bytes \<Rightarrow> rekey_error + luks1_layout" where
  "layout_parse img =
     bindR (parse_identity img) (\<lambda>hash_spec.
     bindR (if be32 img 108 = 32 then Inr 32 else if be32 img 108 = 64 then Inr 64
            else Inl (Malformed ''master key size is not 32 or 64 bytes'')) (\<lambda>key_bytes.
     bindR (sector_offset (be32 img 104) ''payload offset'') (\<lambda>payload_start.
       if payload_start < HEADER_BYTES then Inl (Malformed ''the payload offset is inside the header'')
       else if length img < payload_start then Inl Truncated
       else if be32 img 164 = 0 then Inl (Malformed ''mk-digest iterations are zero'')
       else
         bindR (parse_slots img key_bytes payload_start [0..<SLOT_COUNT]) (\<lambda>slots.
         bindR (check_disjoint slots) (\<lambda>_.
           Inr \<lparr>lay_hash = hash_spec, lay_key_bytes = key_bytes, lay_mk_digest = slice_of 112 20 img,
                lay_mk_salt = slice_of 132 32 img, lay_mk_iter = be32 img 164, lay_slots = slots\<rparr>)))))"

section \<open>Opening a slot\<close>

function chunks :: "nat \<Rightarrow> 'a list \<Rightarrow> 'a list list" where
  "chunks n xs = (if n = 0 \<or> xs = [] then [] else take n xs # chunks n (drop n xs))"
  by pat_completeness auto
termination chunks
  by (relation "measure (length \<circ> snd)") auto

declare chunks.simps [simp del]

definition sector_tweak :: "nat \<Rightarrow> bytes" where
  "sector_tweak n = put_at 0 (to_le 8 (of_nat n :: u64)) (replicate 16 0)"

definition xts_sectors :: "crypto \<Rightarrow> nat \<Rightarrow> bytes \<Rightarrow> bytes \<Rightarrow> bool \<Rightarrow> rekey_error + bytes" where
  "xts_sectors c cipher_key material key encrypt =
     (let data_key = take (length key div 2) key; tweak_key = drop (length key div 2) key
      in if length data_key \<noteq> cipher_key \<or> length tweak_key \<noteq> cipher_key
         then Inl (Malformed ''master key size is not 32 or 64 bytes'')
         else if length material mod 16 \<noteq> 0 then Inl (Malformed ''key material is not whole AES blocks'')
         else Inr (concat (map (\<lambda>(i, chunk).
                (if encrypt then c_xts_enc c else c_xts_dec c) data_key tweak_key (sector_tweak i) chunk)
                (enumerate 0 (chunks LUKS_SECTOR material)))))"

definition xts_material :: "crypto \<Rightarrow> bytes \<Rightarrow> bytes \<Rightarrow> bool \<Rightarrow> rekey_error + bytes" where
  "xts_material c material slot_key encrypt =
     (if length slot_key = 32 then xts_sectors c 16 material slot_key encrypt
      else if length slot_key = 64 then xts_sectors c 32 material slot_key encrypt
      else Inl (Malformed ''master key size is not 32 or 64 bytes''))"

definition mk_digest_ok :: "crypto \<Rightarrow> luks1_layout \<Rightarrow> bytes \<Rightarrow> bool" where
  "mk_digest_ok c l mk =
     (pbkdf2_derive c (lay_hash l) mk (lay_mk_salt l) (lay_mk_iter l) 20 = Some (lay_mk_digest l))"

fun unlock_slots :: "crypto \<Rightarrow> luks1_layout \<Rightarrow> bytes \<Rightarrow> bytes \<Rightarrow> keyslot list \<Rightarrow> rekey_error + bytes" where
  "unlock_slots c l img passphrase [] = Inl VendorSlotLocked"
| "unlock_slots c l img passphrase (slot # slots) =
     (case pbkdf2_derive c (lay_hash l) passphrase (ks_salt slot) (ks_iterations slot) (lay_key_bytes l) of
        None \<Rightarrow> unlock_slots c l img passphrase slots
      | Some slot_key \<Rightarrow>
          bindR (xts_material c (slice_of (km_start slot) (km_end slot - km_start slot) img) slot_key False) (\<lambda>material.
            let mk = af_merge c material (lay_key_bytes l) (ks_stripes slot) (lay_hash l)
            in if mk_digest_ok c l mk then Inr mk else unlock_slots c l img passphrase slots))"

definition unlock :: "crypto \<Rightarrow> luks1_layout \<Rightarrow> bytes \<Rightarrow> bytes \<Rightarrow> rekey_error + bytes" where
  "unlock c l img passphrase = unlock_slots c l img passphrase (filter ks_active (lay_slots l))"

section \<open>Adding a slot\<close>

text \<open>The image is changed in place: a step gives its result and the image it leaves. \<open>rnd\<close> gives
  the bytes of each draw.\<close>

definition write_slot ::
  "crypto \<Rightarrow> (nat \<Rightarrow> nat \<Rightarrow> bytes) \<Rightarrow> luks1_layout \<Rightarrow> nat \<Rightarrow> bytes \<Rightarrow> bytes \<Rightarrow> u32 \<Rightarrow> bytes \<Rightarrow> (rekey_error + unit) \<times> bytes" where
  "write_slot c rnd l index master_key passphrase iterations img =
     (let slot = lay_slots l ! index; salt = rnd 0 32
      in case pbkdf2_derive c (lay_hash l) passphrase salt iterations (lay_key_bytes l) of
           None \<Rightarrow> (Inl (RekeyCipher (lay_hash l)), img)
         | Some slot_key \<Rightarrow>
             (case xts_material c (af_split c (rnd 1) master_key (ks_stripes slot) (lay_hash l)) slot_key True of
                Inl e \<Rightarrow> (Inl e, img)
              | Inr material \<Rightarrow>
                  let img = put_at (km_start slot) material img;
                      entry = slot_entry index;
                      img = put_at entry (to_be 4 SLOT_ACTIVE) img;
                      img = put_at (entry + 4) (to_be 4 iterations) img
                  in (Inr (), put_at (entry + 8) salt img)))"

definition swap_slot_entries :: "nat \<Rightarrow> nat \<Rightarrow> bytes \<Rightarrow> bytes" where
  "swap_slot_entries a b img =
     (if a = b then img
      else let lo = slot_entry (min a b); hi = slot_entry (max a b)
           in put_at hi (slice_of lo SLOT_ENTRY_BYTES img) (put_at lo (slice_of hi SLOT_ENTRY_BYTES img) img))"

fun slot_position :: "('a \<Rightarrow> bool) \<Rightarrow> 'a list \<Rightarrow> nat option" where
  "slot_position P [] = None"
| "slot_position P (x # xs) = (if P x then Some 0 else map_option Suc (slot_position P xs))"

definition add_keyslot_with ::
  "crypto \<Rightarrow> (nat \<Rightarrow> nat \<Rightarrow> bytes) \<Rightarrow> bytes \<Rightarrow> bytes \<Rightarrow> u32 \<Rightarrow> bytes \<Rightarrow> (rekey_error + nat) \<times> bytes" where
  "add_keyslot_with c rnd vendor_passphrase unit_passphrase iterations img =
     (case layout_parse img of
        Inl e \<Rightarrow> (Inl e, img)
      | Inr l \<Rightarrow>
          (case unlock c l img vendor_passphrase of
             Inl e \<Rightarrow> (Inl e, img)
           | Inr master_key \<Rightarrow>
               (case slot_position (\<lambda>s. \<not> ks_active s) (lay_slots l) of
                  None \<Rightarrow> (Inl NoFreeSlot, img)
                | Some index \<Rightarrow>
                    (case write_slot c rnd l index master_key unit_passphrase iterations img of
                       (Inl e, img) \<Rightarrow> (Inl e, img)
                     | (Inr _, img) \<Rightarrow> (Inr 0, swap_slot_entries 0 index img)))))"

definition add_keyslot ::
  "crypto \<Rightarrow> (nat \<Rightarrow> nat \<Rightarrow> bytes) \<Rightarrow> bytes \<Rightarrow> bytes \<Rightarrow> bytes \<Rightarrow> (rekey_error + nat) \<times> bytes" where
  "add_keyslot c rnd vendor_passphrase unit_passphrase img =
     add_keyslot_with c rnd vendor_passphrase unit_passphrase SLOT_ITERATIONS img"

section \<open>Facts about the parts\<close>

lemmas luks_consts = LUKS_SECTOR_def HEADER_BYTES_def SLOT_TABLE_OFFSET_def SLOT_ENTRY_BYTES_def slot_entry_def

lemma chunks_Cons: "0 < n \<Longrightarrow> xs \<noteq> [] \<Longrightarrow> chunks n xs = take n xs # chunks n (drop n xs)"
  by (subst chunks.simps) simp

lemma chunks_Nil [simp]: "chunks n [] = []"
  by (subst chunks.simps) simp

lemma sectors_round_trip:
  assumes "0 < n" and "\<And>i ch. ch \<in> set (chunks n xs) \<Longrightarrow> length (f i ch) = length ch \<and> g i (f i ch) = ch"
  shows "length (concat (map (\<lambda>(i, ch). f i ch) (enumerate k (chunks n xs)))) = length xs \<and>
    concat (map (\<lambda>(i, ch). g i ch)
      (enumerate k (chunks n (concat (map (\<lambda>(i, ch). f i ch) (enumerate k (chunks n xs))))))) = xs"
  using assms
proof (induction n xs arbitrary: k rule: chunks.induct)
  case (1 n xs)
  show ?case
  proof (cases "xs = []")
    case False
    let ?r = "concat (map (\<lambda>(i, ch). f i ch) (enumerate (Suc k) (chunks n (drop n xs))))"
    let ?h = "f k (take n xs)"
    have ch: "chunks n xs = take n xs # chunks n (drop n xs)" using False 1(2) by (rule chunks_Cons [rotated])
    have h: "length ?h = length (take n xs)" "g k ?h = take n xs" using 1(3) [of "take n xs" k] ch by simp_all
    have IH: "length ?r = length (drop n xs)"
      "concat (map (\<lambda>(i, ch). g i ch) (enumerate (Suc k) (chunks n ?r))) = drop n xs"
      using 1(1) [of "Suc k"] 1(2,3) False ch by simp_all
    have "?h @ ?r \<noteq> []" using h(1) False 1(2) by (cases n; cases xs) auto
    then have "chunks n (?h @ ?r) = take n (?h @ ?r) # chunks n (drop n (?h @ ?r))" using 1(2) by (rule chunks_Cons [rotated])
    moreover have "take n (?h @ ?r) = ?h \<and> drop n (?h @ ?r) = ?r" using h(1) IH(1) by (cases "n \<le> length xs") simp_all
    ultimately have "chunks n (?h @ ?r) = ?h # chunks n ?r" by simp
    then show ?thesis using h IH by (simp add: ch)
  qed simp
qed

lemma chunk_blocks:
  assumes "length xs mod 16 = 0" and "ch \<in> set (chunks 512 xs)"
  shows "16 \<le> length ch"
  using assms
proof (induction "512 :: nat" xs rule: chunks.induct)
  case (1 xs)
  show ?case
  proof (cases "xs = []")
    case False
    have "16 \<le> length xs" using 1(2) False by (metis length_greater_0_conv mod_less not_le less_numeral_extra(3))
    moreover have "length (drop 512 xs) mod 16 = 0"
    proof (cases "512 \<le> length xs")
      case True
      then have "length xs = length (drop 512 xs) + 32 * 16" by simp
      then show ?thesis using 1(2) by (metis mod_mult_self1)
    qed simp
    ultimately show ?thesis using 1 False by (auto simp: chunks_Cons)
  qed (use 1 in simp)
qed

lemma length_sector_tweak [simp]: "length (sector_tweak n) = 16"
  by (simp add: sector_tweak_def)

lemma xts_round_trip:
  assumes "crypto_ok c" and "xts_material c m key True = Inr m'"
  shows "length m' = length m" "xts_material c m' key False = Inr m"
proof -
  define kl where "kl = length key div 2"
  have kl: "kl \<in> {16, 32}" and len: "length key = 2 * kl" and m16: "length m mod 16 = 0"
    using assms(2) by (auto simp: xts_material_def xts_sectors_def Let_def kl_def split: if_splits)
  let ?f = "\<lambda>i. c_xts_enc c (take kl key) (drop kl key) (sector_tweak i)"
  let ?g = "\<lambda>i. c_xts_dec c (take kl key) (drop kl key) (sector_tweak i)"
  have m': "m' = concat (map (\<lambda>(i, ch). ?f i ch) (enumerate 0 (chunks 512 m)))"
    using assms(2) by (auto simp: xts_material_def xts_sectors_def Let_def kl_def LUKS_SECTOR_def split: if_splits)
  have fg: "length (?f i ch) = length ch \<and> ?g i (?f i ch) = ch" if "ch \<in> set (chunks 512 m)" for i ch
    using assms(1) kl len chunk_blocks [OF m16 that] unfolding crypto_ok_def by simp
  note * = sectors_round_trip [of 512 m ?f ?g 0, OF _ fg]
  show l: "length m' = length m" using * by (simp add: m')
  show "xts_material c m' key False = Inr m"
    using kl len m16 l * by (auto simp: xts_material_def xts_sectors_def Let_def LUKS_SECTOR_def m')
qed

lemma be32_inside: "k + 4 \<le> n \<Longrightarrow> e + n \<le> length img \<Longrightarrow> be32 img (e + k) = be32 (slice_of e n img) k"
  by (simp add: be32_def slice_of_def take_drop min_def add.commute)

lemma slice_inside: "k + m \<le> n \<Longrightarrow> slice_of (e + k) m img = slice_of k m (slice_of e n img)"
  by (simp add: slice_of_def take_drop min_def add.commute)

text \<open>A slot's state depends on the 48 bytes of its entry.\<close>

lemma keyslot_parse_entry:
  assumes "slice_of (slot_entry i) 48 img = slice_of (slot_entry j) 48 img'" and "length img = length img'"
    and "592 \<le> length img" and "i < 8" and "j < 8"
  shows "keyslot_parse img i kb ps = keyslot_parse img' j kb ps"
proof -
  have b: "be32 img (slot_entry i + k) = be32 img' (slot_entry j + k)" if "k + 4 \<le> 48" for k
    using be32_inside [OF that, of "slot_entry i" img] be32_inside [OF that, of "slot_entry j" img'] assms
    by (simp add: luks_consts)
  have s: "slice_of (slot_entry i + 8) 32 img = slice_of (slot_entry j + 8) 32 img'"
    using slice_inside [of 8 32 48 "slot_entry i" img] slice_inside [of 8 32 48 "slot_entry j" img'] assms(1) by simp
  have b0: "be32 img (slot_entry i) = be32 img' (slot_entry j)" using b [of 0] by simp
  show ?thesis unfolding keyslot_parse_def Let_def by (simp only: b [of 4, simplified] b [of 40, simplified] b [of 44, simplified] b0 s assms(2))
qed

lemma keyslot_parse_Inr:
  assumes "keyslot_parse img i kb ps = Inr s"
  shows "592 \<le> km_start s" "km_end s = km_start s + kb * 4000" "km_end s \<le> length img" "km_end s \<le> ps"
    "ks_stripes s = 4000" "ks_salt s = slice_of (slot_entry i + 8) 32 img"
  using assms
  by (auto simp: keyslot_parse_def Let_def bindR_eq_Inr sector_offset_def LUKS1_STRIPES_def HEADER_BYTES_def split: if_splits)

lemma parse_slots_Inr:
  "parse_slots img kb ps is = Inr ss \<longleftrightarrow>
     length ss = length is \<and> (\<forall>k < length is. keyslot_parse img (is ! k) kb ps = Inr (ss ! k))"
proof (induction "is" arbitrary: ss)
  case (Cons i "is")
  show ?case
  proof (cases ss)
    case (Cons s ss')
    then show ?thesis using Cons.IH [of ss'] by (auto simp: bindR_eq_Inr nth_Cons less_Suc_eq_0_disj split: nat.splits)
  qed (auto simp: bindR_eq_Inr)
qed auto

lemma slots_overlap_sym: "slots_overlap a b = slots_overlap b a"
  by (auto simp: slots_overlap_def)

lemma check_disjoint_iff:
  "check_disjoint ss = Inr () \<longleftrightarrow> (\<forall>i < length ss. \<forall>j < length ss. i \<noteq> j \<longrightarrow> \<not> slots_overlap (ss ! i) (ss ! j))"
proof (induction ss)
  case (Cons a ss)
  have ex: "list_ex (slots_overlap a) ss \<longleftrightarrow> (\<exists>i < length ss. slots_overlap a (ss ! i))"
    by (metis list_ex_iff in_set_conv_nth)
  show ?case unfolding check_disjoint.simps ex using Cons
    by (auto simp: All_less_Suc2 slots_overlap_sym)
qed simp

lemma slot_position_Some: "slot_position P xs = Some i \<Longrightarrow> i < length xs \<and> P (xs ! i) \<and> (\<forall>j < i. \<not> P (xs ! j))"
proof (induction xs arbitrary: i)
  case (Cons x xs)
  then show ?case by (auto simp: less_Suc_eq_0_disj split: if_splits)
qed simp

lemma layout_parse_iff:
  "layout_parse img = Inr l \<longleftrightarrow>
     (\<exists>ps. parse_identity img = Inr (lay_hash l) \<and>
        (lay_key_bytes l = 32 \<and> be32 img 108 = 32 \<or> lay_key_bytes l = 64 \<and> be32 img 108 = 64) \<and>
        sector_offset (be32 img 104) ''payload offset'' = Inr ps \<and> 592 \<le> ps \<and> ps \<le> length img \<and> be32 img 164 \<noteq> 0 \<and>
        length (lay_slots l) = 8 \<and> (\<forall>k < 8. keyslot_parse img k (lay_key_bytes l) ps = Inr (lay_slots l ! k)) \<and>
        check_disjoint (lay_slots l) = Inr () \<and> lay_mk_digest l = slice_of 112 20 img \<and>
        lay_mk_salt l = slice_of 132 32 img \<and> lay_mk_iter l = be32 img 164)"
  by (cases l) (auto simp: layout_parse_def bindR_eq_Inr parse_slots_Inr SLOT_COUNT_def HEADER_BYTES_def not_less
      cong: conj_cong split: if_splits)

lemma identity_facts: "parse_identity img = Inr h \<Longrightarrow> 592 \<le> length img \<and> (h = SHA1 \<or> h = SHA256)"
  by (auto simp: parse_identity_def Let_def HEADER_BYTES_def split: if_splits)

lemma layout_parse_kept:
  assumes "layout_parse img = Inr l" and ps: "sector_offset (be32 img 104) ''payload offset'' = Inr ps"
    and len: "length img' = length img" and hd: "\<And>i n. i + n \<le> 208 \<Longrightarrow> slice_of i n img' = slice_of i n img"
    and "length ss = 8" and "\<And>k. k < 8 \<Longrightarrow> keyslot_parse img' k (lay_key_bytes l) ps = Inr (ss ! k)"
    and "check_disjoint ss = Inr ()"
  shows "layout_parse img' = Inr (l\<lparr>lay_slots := ss\<rparr>)"
proof -
  have "be32 img' i = be32 img i" if "i + 4 \<le> 208" for i using hd [OF that] by (simp add: be32_def)
  moreover have "parse_identity img' = parse_identity img"
  proof -
    have h: "slice_of 0 6 img' = slice_of 0 6 img" "slice_of 6 2 img' = slice_of 6 2 img" "slice_of 8 32 img' = slice_of 8 32 img"
      "slice_of 40 32 img' = slice_of 40 32 img" "slice_of 72 32 img' = slice_of 72 32 img" by (simp_all add: hd)
    show ?thesis unfolding parse_identity_def Let_def by (simp only: len h)
  qed
  ultimately show ?thesis using assms unfolding layout_parse_iff by (auto simp: hd)
qed

text \<open>The image after one slot has been written.\<close>

definition slot_image :: "nat \<Rightarrow> nat \<Rightarrow> bytes \<Rightarrow> u32 \<Rightarrow> bytes \<Rightarrow> bytes \<Rightarrow> bytes" where
  "slot_image e st material iterations salt img =
     put_at (e + 8) salt (put_at (e + 4) (to_be 4 iterations) (put_at e (to_be 4 SLOT_ACTIVE) (put_at st material img)))"

lemma slice_split: "slice_of e (a + b) y = slice_of e a y @ slice_of (e + a) b y"
  by (simp add: slice_of_def take_add add.commute)

lemma slot_image_facts:
  assumes "e + 48 \<le> 592" "592 \<le> st" "st + length m \<le> length img" "length salt = 32"
  shows "length (slot_image e st m it salt img) = length img"
    "slice_of st (length m) (slot_image e st m it salt img) = m"
    "slice_of e 48 (slot_image e st m it salt img) = to_be 4 SLOT_ACTIVE @ to_be 4 it @ salt @ slice_of (e + 40) 8 img"
    "\<And>i n. i + n \<le> length img \<Longrightarrow> i + n \<le> e \<or> e + 40 \<le> i \<Longrightarrow> i + n \<le> st \<or> st + length m \<le> i \<Longrightarrow>
       slice_of i n (slot_image e st m it salt img) = slice_of i n img"
proof -
  show len: "length (slot_image e st m it salt img) = length img" using assms by (simp add: slot_image_def)
  show "slice_of st (length m) (slot_image e st m it salt img) = m" using assms by (simp add: slot_image_def)
  show other: "slice_of i n (slot_image e st m it salt img) = slice_of i n img"
    if "i + n \<le> length img" "i + n \<le> e \<or> e + 40 \<le> i" "i + n \<le> st \<or> st + length m \<le> i" for i n
    using assms that by (auto simp: slot_image_def)
  have split: "slice_of e 48 y = slice_of e 4 y @ slice_of (e + 4) 4 y @ slice_of (e + 8) 32 y @ slice_of (e + 40) 8 y"
    for y :: bytes
    using slice_split [of e 4 "4 + (32 + 8)" y] slice_split [of "e + 4" 4 "32 + 8" y] slice_split [of "e + 8" 32 8 y] by (simp add: add.commute)
  show "slice_of e 48 (slot_image e st m it salt img) = to_be 4 SLOT_ACTIVE @ to_be 4 it @ salt @ slice_of (e + 40) 8 img"
    unfolding split using assms other [of "e + 40" 8] by (simp add: slot_image_def)
qed

section \<open>The added slot opens\<close>

lemma swap_entries_facts:
  assumes "a < 8" "b < 8" "592 \<le> length img"
  shows "length (swap_slot_entries a b img) = length img"
    "j < 8 \<Longrightarrow> slice_of (slot_entry j) 48 (swap_slot_entries a b img) =
       slice_of (slot_entry (if j = a then b else if j = b then a else j)) 48 img"
    "\<And>i n. i + n \<le> length img \<Longrightarrow> i + n \<le> 208 \<or> 592 \<le> i \<Longrightarrow> slice_of i n (swap_slot_entries a b img) = slice_of i n img"
proof -
  define lo hi where "lo = min a b" and "hi = max a b"
  have lh: "a \<noteq> b \<Longrightarrow> lo < hi" "hi < 8" using assms by (auto simp: lo_def hi_def)
  have e: "slot_entry lo + 48 \<le> 592" "slot_entry hi + 48 \<le> 592" "208 \<le> slot_entry lo" "208 \<le> slot_entry hi"
    "a \<noteq> b \<Longrightarrow> slot_entry lo + 48 \<le> slot_entry hi" using lh assms by (auto simp: luks_consts lo_def)
  have s: "swap_slot_entries a b img = (if a = b then img
      else put_at (slot_entry hi) (slice_of (slot_entry lo) 48 img) (put_at (slot_entry lo) (slice_of (slot_entry hi) 48 img) img))"
    by (simp add: swap_slot_entries_def Let_def lo_def hi_def SLOT_ENTRY_BYTES_def)
  show "length (swap_slot_entries a b img) = length img" using e assms by (simp add: s)
  show "slice_of i n (swap_slot_entries a b img) = slice_of i n img"
    if "i + n \<le> length img" "i + n \<le> 208 \<or> 592 \<le> i" for i n
    using e assms that by (auto simp: s)
  show "slice_of (slot_entry j) 48 (swap_slot_entries a b img) =
       slice_of (slot_entry (if j = a then b else if j = b then a else j)) 48 img" if "j < 8"
  proof (cases "a = b")
    case False
    have far: "slot_entry j + 48 \<le> slot_entry k \<or> slot_entry k + 48 \<le> slot_entry j" if "k \<noteq> j" for k
      using that by (cases "j < k") (auto simp: luks_consts)
    have je: "slot_entry j + 48 \<le> 592" using that by (simp add: luks_consts)
    consider "j = lo" | "j = hi" | "j \<noteq> lo" "j \<noteq> hi" by blast
    then show ?thesis
    proof cases
      case 1
      then show ?thesis using False e assms by (auto simp: s lo_def hi_def min_def max_def)
    next
      case 2
      then show ?thesis using False e assms by (auto simp: s lo_def hi_def min_def max_def)
    next
      case 3
      then have "j \<noteq> a" "j \<noteq> b" by (auto simp: lo_def hi_def min_def max_def split: if_splits)
      then show ?thesis using False e assms je far [of lo] far [of hi] 3 by (simp add: s)
    qed
  qed (simp add: swap_slot_entries_def)
qed

definition opened_slot :: "keyslot \<Rightarrow> u32 \<Rightarrow> bytes \<Rightarrow> keyslot" where
  "opened_slot s it salt = s\<lparr>ks_active := True, ks_iterations := it, ks_salt := salt\<rparr>"

lemma keyslot_parse_opened:
  assumes "keyslot_parse img i kb ps = Inr s" and "i < 8" and "it \<noteq> 0" and len: "length img' = length img" "592 \<le> length img"
    and "slice_of (slot_entry i) 48 img' = to_be 4 SLOT_ACTIVE @ to_be 4 it @ salt @ slice_of (slot_entry i + 40) 8 img"
    and salt: "length salt = 32"
  shows "keyslot_parse img' i kb ps = Inr (opened_slot s it salt)"
proof -
  let ?e = "slot_entry i"
  have el: "?e + 48 \<le> length img" using assms(2) len by (simp add: luks_consts)
  have eb: "be32 img' (?e + k) = be32 (to_be 4 SLOT_ACTIVE @ to_be 4 it @ salt @ slice_of (?e + 40) 8 img) k" if "k + 4 \<le> 48" for k
    using be32_inside [OF that, of ?e img'] el len assms(6) by simp
  have b: "be32 img' ?e = SLOT_ACTIVE" "be32 img' (?e + 4) = it"
    using eb [of 0] eb [of 4] by (simp_all add: be32_def slice_of_def)
  have b40: "be32 img' (?e + 40) = be32 img (?e + 40)" "be32 img' (?e + 44) = be32 img (?e + 44)"
    using eb [of 40] eb [of 44] be32_inside [of 0 8 "?e + 40" img] be32_inside [of 4 8 "?e + 40" img] el salt
    by (simp_all add: be32_def slice_of_def add.assoc)
  have s: "slice_of (?e + 8) 32 img' = salt"
    using slice_inside [of 8 32 48 ?e img'] assms(6) salt by (simp add: slice_of_def)
  show ?thesis using assms(1,3)
    by (auto simp: keyslot_parse_def Let_def bindR_eq_Inr b b40 s len opened_slot_def split: if_splits)
qed

text \<open>A slot opens with a passphrase when its material gives a key with the header's digest.\<close>

definition slot_opens :: "crypto \<Rightarrow> luks1_layout \<Rightarrow> bytes \<Rightarrow> bytes \<Rightarrow> keyslot \<Rightarrow> bytes \<Rightarrow> bool" where
  "slot_opens c l img passphrase slot mk \<longleftrightarrow>
     (\<exists>slot_key material.
        pbkdf2_derive c (lay_hash l) passphrase (ks_salt slot) (ks_iterations slot) (lay_key_bytes l) = Some slot_key \<and>
        xts_material c (slice_of (km_start slot) (km_end slot - km_start slot) img) slot_key False = Inr material \<and>
        mk = af_merge c material (lay_key_bytes l) (ks_stripes slot) (lay_hash l) \<and> mk_digest_ok c l mk)"

lemma unlock_slots_sound:
  "unlock_slots c l img p ss = Inr mk \<Longrightarrow> \<exists>s \<in> set ss. slot_opens c l img p s mk"
proof (induction ss)
  case (Cons s ss)
  then show ?case
    by (fastforce simp: bindR_eq_Inr Let_def slot_opens_def split: option.splits if_splits)
qed simp

lemma pbkdf2_length: "crypto_ok c \<Longrightarrow> pbkdf2_derive c h p s i n = Some k \<Longrightarrow> length k = n"
  unfolding crypto_ok_def pbkdf2_derive_def by (auto split: if_splits)

lemma xts_total:
  assumes "length key \<in> {32, 64}" and "length m mod 16 = 0"
  shows "\<exists>m'. xts_material c m key e = Inr m'"
  using assms by (auto simp: xts_material_def xts_sectors_def Let_def)

text \<open>A slot that opens is never missed: the slots before it cannot stop the search.\<close>

lemma unlock_slots_complete:
  assumes "crypto_ok c" and "lay_key_bytes l \<in> {32, 64}" and "s \<in> set ss" and "slot_opens c l img p s mk"
    and "\<forall>s \<in> set ss. (km_end s - km_start s) mod 16 = 0 \<and> km_end s \<le> length img"
  shows "\<exists>mk. unlock_slots c l img p ss = Inr mk"
  using assms(3-5)
proof (induction ss)
  case (Cons t ss)
  have r: "\<exists>mk. unlock_slots c l img p ss = Inr mk" if "s \<in> set ss" using Cons that by simp
  show ?case
  proof (cases "pbkdf2_derive c (lay_hash l) p (ks_salt t) (ks_iterations t) (lay_key_bytes l)")
    case None
    then show ?thesis using r Cons.prems by (auto simp: slot_opens_def)
  next
    case (Some key)
    have "length (slice_of (km_start t) (km_end t - km_start t) img) mod 16 = 0"
    proof (cases "km_start t \<le> km_end t")
      case True
      then show ?thesis using Cons.prems(3) by simp
    qed (simp add: slice_of_def)
    then obtain m where m: "xts_material c (slice_of (km_start t) (km_end t - km_start t) img) key False = Inr m"
      using xts_total pbkdf2_length [OF assms(1) Some] assms(2) by metis
    show ?thesis using Some m r Cons.prems by (auto simp: slot_opens_def Let_def)
  qed
qed simp

lemma mk_digest_slots [simp]: "mk_digest_ok c (l\<lparr>lay_slots := ss\<rparr>) = mk_digest_ok c l"
  by (simp add: mk_digest_ok_def fun_eq_iff)

lemma slot_opens_slots [simp]: "slot_opens c (l\<lparr>lay_slots := ss\<rparr>) = slot_opens c l"
  by (simp add: slot_opens_def fun_eq_iff)

text \<open>The slots after the entries of slot 0 and the new slot have changed places.\<close>

definition new_slots :: "keyslot list \<Rightarrow> nat \<Rightarrow> keyslot \<Rightarrow> keyslot list" where
  "new_slots ss index new = (let ss = ss[index := new] in ss[0 := new, index := (if index = 0 then new else ss ! 0)])"

lemma new_slots_nth:
  "length ss = 8 \<Longrightarrow> index < 8 \<Longrightarrow> k < 8 \<Longrightarrow> new_slots ss index new ! k =
     ss[index := new] ! (if k = 0 then index else if k = index then 0 else k)"
  by (auto simp: new_slots_def Let_def nth_list_update)

lemma new_slots_disjoint:
  assumes "length ss = 8" "index < 8" "km_start new = km_start (ss ! index)" "km_end new = km_end (ss ! index)"
    and "check_disjoint ss = Inr ()"
  shows "check_disjoint (new_slots ss index new) = Inr ()"
proof -
  let ?p = "\<lambda>k. if k = 0 then index else if k = index then 0 else k"
  have p: "?p i \<noteq> ?p j" "?p i < 8" "?p j < 8" if "i \<noteq> j" "i < 8" "j < 8" for i j using that assms(2) by auto
  have o: "slots_overlap (ss[index := new] ! i) (ss[index := new] ! j) = slots_overlap (ss ! i) (ss ! j)"
    if "i < 8" "j < 8" for i j
    using that assms by (cases "i = index"; cases "j = index") (simp_all add: slots_overlap_def)
  have "length (new_slots ss index new) = 8" using assms(1) by (simp add: new_slots_def Let_def)
  then show ?thesis using assms(1,2,5) p o
    by (auto simp: check_disjoint_iff new_slots_nth simp del: nth_list_update)
qed

lemma new_slots_set:
  assumes "length ss = 8" "index < 8" "s \<in> set ss" "s \<noteq> ss ! index"
  shows "s \<in> set (new_slots ss index new)"
proof -
  obtain k where k: "k < 8" "ss ! k = s" using assms by (metis in_set_conv_nth)
  define j where "j = (if k = 0 then index else if k = index then 0 else k)"
  have "j < 8" "new_slots ss index new ! j = s"
    using assms k by (auto simp: j_def new_slots_nth)
  moreover have "length (new_slots ss index new) = 8" using assms(1) by (simp add: new_slots_def Let_def)
  ultimately show ?thesis by (metis nth_mem)
qed

lemma write_slot_Inr:
  assumes "write_slot c rnd l index mk p it img = (Inr (), img1)" and s: "s = lay_slots l ! index"
  obtains key material where
    "pbkdf2_derive c (lay_hash l) p (rnd 0 32) it (lay_key_bytes l) = Some key"
    "xts_material c (af_split c (rnd 1) mk (ks_stripes s) (lay_hash l)) key True = Inr material"
    "img1 = slot_image (slot_entry index) (km_start s) material it (rnd 0 32) img"
  using assms by (auto simp: write_slot_def Let_def slot_image_def split: option.splits sum.splits)

lemma write_slot_Inl: "write_slot c rnd l index mk p it img = (Inl e, img1) \<Longrightarrow> img1 = img"
  by (auto simp: write_slot_def Let_def split: option.splits sum.splits)

lemma add_keyslot_with_Inr:
  assumes "add_keyslot_with c rnd vp up it img = (Inr r, img')"
  obtains l mk index img1 where "layout_parse img = Inr l" "unlock c l img vp = Inr mk"
    "slot_position (\<lambda>s. \<not> ks_active s) (lay_slots l) = Some index"
    "write_slot c rnd l index mk up it img = (Inr (), img1)" "img' = swap_slot_entries 0 index img1"
  using assms by (auto simp: add_keyslot_with_def split: sum.splits option.splits prod.splits)

text \<open>What one written slot and the exchange of the entries leave of the image.\<close>

lemma rekeyed_image:
  fixes ps :: nat
  assumes l: "layout_parse img = Inr l" and i: "index < 8" and s: "s = lay_slots l ! index" and "it \<noteq> 0"
    and "length salt = 32" and m: "length m = km_end s - km_start s"
    and img1: "img1 = slot_image (slot_entry index) (km_start s) m it salt img"
    and img': "img' = swap_slot_entries 0 index img1"
  shows "length img' = length img"
    "layout_parse img' = Inr (l\<lparr>lay_slots := new_slots (lay_slots l) index (opened_slot s it salt)\<rparr>)"
    "slice_of (km_start s) (km_end s - km_start s) img' = m"
    "\<And>i n. 592 \<le> i \<Longrightarrow> i + n \<le> length img \<Longrightarrow> i + n \<le> km_start s \<or> km_end s \<le> i \<Longrightarrow> slice_of i n img' = slice_of i n img"
    "be32 img' 104 = be32 img 104"
proof -
  let ?kb = "lay_key_bytes l"
  let ?new = "opened_slot s it salt"
  obtain ps where ps: "sector_offset (be32 img 104) ''payload offset'' = Inr ps"
    and slots: "length (lay_slots l) = 8" "\<And>k. k < 8 \<Longrightarrow> keyslot_parse img k ?kb ps = Inr (lay_slots l ! k)"
    and dis: "check_disjoint (lay_slots l) = Inr ()" and "parse_identity img = Inr (lay_hash l)"
    using l unfolding layout_parse_iff by blast
  then have len: "592 \<le> length img" using identity_facts by blast
  have sk: "keyslot_parse img index ?kb ps = Inr s" using slots(2) [OF i] s by simp
  note k = keyslot_parse_Inr [OF sk]
  have e: "slot_entry index + 48 \<le> 592" "208 \<le> slot_entry index" using i by (simp_all add: luks_consts)
  have mr: "km_start s + length m = km_end s" using m k(2) by simp
  note w = slot_image_facts [where e = "slot_entry index" and st = "km_start s" and m = m and img = img and salt = salt and it = it, OF e(1) k(1) _ assms(5), folded img1, unfolded mr, OF k(3)]
  have len1: "592 \<le> length img1" using w(1) len by simp
  note x = swap_entries_facts [of 0 index img1, OF _ i len1, folded img', simplified]
  show len': "length img' = length img" using w(1) x(1) by simp
  have eq: "slice_of a n img' = slice_of a n img"
    if "a + n \<le> length img" "a + n \<le> 208 \<or> 592 \<le> a" "a + n \<le> km_start s \<or> km_end s \<le> a" for a n
    using that w(1) x(3) [of a n] w(4) [of a n] e by auto
  show "slice_of (km_start s) (km_end s - km_start s) img' = m"
    using x(3) [of "km_start s" "length m"] w(1,2) k(1,3) mr m by simp
  show "slice_of a n img' = slice_of a n img"
    if "592 \<le> a" "a + n \<le> length img" "a + n \<le> km_start s \<or> km_end s \<le> a" for a n
    using eq that by simp
  show "be32 img' 104 = be32 img 104" using eq [of 104 4] k(1) len by (simp add: be32_def)
  have s1: "keyslot_parse img1 k ?kb ps = Inr ((lay_slots l)[index := ?new] ! k)" if "k < 8" for k
  proof (cases "k = index")
    case True
    then show ?thesis using keyslot_parse_opened [OF sk i assms(4) w(1) len w(3) assms(5)] slots(1) i by simp
  next
    case False
    have "slot_entry k + 48 \<le> slot_entry index \<or> slot_entry index + 48 \<le> slot_entry k"
      using False by (cases "k < index") (auto simp: luks_consts)
    moreover have "slot_entry k + 48 \<le> 592" using that by (simp add: luks_consts)
    ultimately have "slice_of (slot_entry k) 48 img1 = slice_of (slot_entry k) 48 img" using w(4) k(1) len by auto
    then have "keyslot_parse img1 k ?kb ps = keyslot_parse img k ?kb ps" using keyslot_parse_entry w(1) len that by metis
    then show ?thesis using False slots that by simp
  qed
  have "keyslot_parse img' k ?kb ps = Inr (new_slots (lay_slots l) index ?new ! k)" if "k < 8" for k
  proof -
    let ?j = "if k = 0 then index else if k = index then 0 else k"
    have j: "?j < 8" using that i by simp
    have "keyslot_parse img' k ?kb ps = keyslot_parse img1 ?j ?kb ps"
      by (rule keyslot_parse_entry) (use x(1,2) that j len1 in auto)
    then show ?thesis using s1 [OF j] new_slots_nth [OF slots(1) i that] by simp
  qed
  moreover have "check_disjoint (new_slots (lay_slots l) index ?new) = Inr ()"
    by (rule new_slots_disjoint [OF slots(1) i _ _ dis]) (simp_all add: s opened_slot_def)
  ultimately show "layout_parse img' = Inr (l\<lparr>lay_slots := new_slots (lay_slots l) index ?new\<rparr>)"
    using eq k(1) len by (intro layout_parse_kept [OF l ps len']) (auto simp: new_slots_def Let_def slots(1))
qed

lemma unlock_slots_slots [simp]: "unlock_slots c (l\<lparr>lay_slots := ss\<rparr>) img p ts = unlock_slots c l img p ts"
  by (induction ts) (simp_all add: Let_def cong: if_cong split: option.splits)

lemma disjoint_slots:
  assumes "check_disjoint ss = Inr ()" and "s \<in> set ss" and "i < length ss" and "s \<noteq> ss ! i"
  shows "km_end s \<le> km_start (ss ! i) \<or> km_end (ss ! i) \<le> km_start s"
proof -
  obtain k where "k < length ss" "ss ! k = s" using assms(2) by (metis in_set_conv_nth)
  then show ?thesis using assms by (auto simp: check_disjoint_iff slots_overlap_def not_less)
qed

lemma rekey_facts:
  assumes "crypto_ok c" and rnd: "\<And>k n. length (rnd k n) = n" and it: "it \<noteq> 0"
    and "add_keyslot_with c rnd vp up it img = (Inr r, img')"
  obtains l ss mk where "layout_parse img = Inr l" "unlock c l img vp = Inr mk" "mk_digest_ok c l mk"
    "layout_parse img' = Inr (l\<lparr>lay_slots := ss\<rparr>)" "length img' = length img"
    "unlock c (l\<lparr>lay_slots := ss\<rparr>) img' up = Inr mk"
    "\<And>s. s \<in> set (lay_slots l) \<Longrightarrow> ks_active s \<Longrightarrow> s \<in> set ss \<and>
       slice_of (km_start s) (km_end s - km_start s) img' = slice_of (km_start s) (km_end s - km_start s) img"
    "drop (unat (be32 img 104) * 512) img' = drop (unat (be32 img 104) * 512) img"
    "ks_active (ss ! 0)" "slot_opens c l img' up (ss ! 0) mk" "be32 img' 104 = be32 img 104"
proof -
  obtain l mk index img1 where l: "layout_parse img = Inr l" and vp: "unlock c l img vp = Inr mk"
    and pos: "slot_position (\<lambda>s. \<not> ks_active s) (lay_slots l) = Some index"
    and w: "write_slot c rnd l index mk up it img = (Inr (), img1)" and img': "img' = swap_slot_entries 0 index img1"
    by (rule add_keyslot_with_Inr [OF assms(4)])
  define s where "s = lay_slots l ! index"
  obtain key material where key: "pbkdf2_derive c (lay_hash l) up (rnd 0 32) it (lay_key_bytes l) = Some key"
    and enc: "xts_material c (af_split c (rnd 1) mk (ks_stripes s) (lay_hash l)) key True = Inr material"
    and img1: "img1 = slot_image (slot_entry index) (km_start s) material it (rnd 0 32) img"
    by (rule write_slot_Inr [OF w s_def])
  obtain ps where ps: "ps = unat (be32 img 104) * 512" "ps \<le> length img" "592 \<le> ps" and kb: "lay_key_bytes l \<in> {32, 64}"
    and slots: "length (lay_slots l) = 8" "\<And>k. k < 8 \<Longrightarrow> keyslot_parse img k (lay_key_bytes l) ps = Inr (lay_slots l ! k)"
    and dis: "check_disjoint (lay_slots l) = Inr ()"
    using l unfolding layout_parse_iff by (auto simp: sector_offset_def LUKS_SECTOR_def split: if_splits)
  have i: "index < 8" "\<not> ks_active s" using slot_position_Some [OF pos] slots(1) by (auto simp: s_def)
  note k = keyslot_parse_Inr [OF slots(2) [OF i(1)], folded s_def]
  obtain t where "slot_opens c l img vp t mk" using vp unlock_slots_sound unfolding unlock_def by blast
  then have mk: "mk_digest_ok c l mk" "length mk = lay_key_bytes l"
    using assms(1) by (auto simp: slot_opens_def)
  note af = af_merge_split [OF assms(1), where rnd = "rnd 1" and key = mk and stripes = "ks_stripes s" and hs = "lay_hash l",
      OF rnd, unfolded mk(2)]
  note dec = xts_round_trip [OF assms(1) enc]
  have m: "length material = km_end s - km_start s" using dec(1) af(2) k(2,5) by simp
  note im = rekeyed_image [OF l i(1) s_def it rnd m img1 img']
  let ?new = "opened_slot s it (rnd 0 32)"
  let ?ss = "new_slots (lay_slots l) index ?new"
  have "?ss ! 0 = ?new" using new_slots_nth [OF slots(1) i(1), of 0] slots(1) i(1) by simp
  moreover have "length ?ss = 8" using slots(1) by (simp add: new_slots_def Let_def)
  ultimately obtain rest where ss: "?ss = ?new # rest" by (metis length_0_conv nth_Cons_0 list.exhaust zero_neq_numeral)
  have open_up: "unlock c (l\<lparr>lay_slots := ?ss\<rparr>) img' up = Inr mk"
  proof -
    have f: "filter ks_active ?ss = ?new # filter ks_active rest" unfolding ss by (simp add: opened_slot_def)
    have lay: "lay_slots (l\<lparr>lay_slots := ?ss\<rparr>) = ?ss" by simp
    have n: "ks_salt ?new = rnd 0 32" "ks_iterations ?new = it" "km_start ?new = km_start s" "km_end ?new = km_end s"
      "ks_stripes ?new = ks_stripes s" by (simp_all add: opened_slot_def)
    have "unlock c (l\<lparr>lay_slots := ?ss\<rparr>) img' up = unlock_slots c l img' up (?new # filter ks_active rest)"
      by (simp only: unlock_def unlock_slots_slots lay f)
    then show ?thesis by (simp only: unlock_slots.simps n key option.case im(3) dec(2) bindR_Inr Let_def af(1) mk(1) if_True)
  qed
  have first: "ks_active (?ss ! 0)" "slot_opens c l img' up (?ss ! 0) mk"
    unfolding ss nth_Cons_0 slot_opens_def using key im(3) dec(2) af(1) mk(1) by (simp_all add: opened_slot_def)
  have kept: "t \<in> set ?ss \<and> slice_of (km_start t) (km_end t - km_start t) img' = slice_of (km_start t) (km_end t - km_start t) img"
    if tl: "t \<in> set (lay_slots l)" and "ks_active t" for t
  proof -
    have ne: "t \<noteq> lay_slots l ! index" using i that by (auto simp: s_def)
    obtain j where j: "j < length (lay_slots l)" "lay_slots l ! j = t" using tl unfolding in_set_conv_nth by blast
    have "keyslot_parse img j (lay_key_bytes l) ps = Inr t" using slots(2) [of j] j slots(1) by simp
    note t = keyslot_parse_Inr [OF this]
    have "592 \<le> km_start t" "km_end t \<le> length img" "km_start t \<le> km_end t" using t(1-3) by simp_all
    moreover have "km_end t \<le> km_start s \<or> km_end s \<le> km_start t"
      using disjoint_slots [OF dis that(1) _ ne] slots(1) i(1) by (simp add: s_def)
    ultimately show ?thesis using im(4) [of "km_start t" "km_end t - km_start t"] new_slots_set [OF slots(1) i(1) that(1) ne] by auto
  qed
  have "slice_of ps (length img - ps) img' = slice_of ps (length img - ps) img"
    using im(4) [of ps "length img - ps"] ps k(4) by simp
  then have "drop ps img' = drop ps img" using im(1) by (simp add: slice_of_def)
  then show thesis using that [OF l vp mk(1) im(2,1) open_up kept _ first im(5)] ps(1) by simp
qed

lemma vendor_opens_after:
  assumes "crypto_ok c" and l: "layout_parse img = Inr l" and vp: "unlock c l img vp = Inr mk"
    and l': "layout_parse img' = Inr (l\<lparr>lay_slots := ss\<rparr>)" and "length img' = length img"
    and kept: "\<And>s. s \<in> set (lay_slots l) \<Longrightarrow> ks_active s \<Longrightarrow> s \<in> set ss \<and>
       slice_of (km_start s) (km_end s - km_start s) img' = slice_of (km_start s) (km_end s - km_start s) img"
  shows "\<exists>mk'. unlock c (l\<lparr>lay_slots := ss\<rparr>) img' vp = Inr mk' \<and> mk_digest_ok c l mk'"
proof -
  obtain s where s: "s \<in> set (filter ks_active (lay_slots l))" "slot_opens c l img vp s mk"
    using vp unlock_slots_sound unfolding unlock_def by blast
  then have o: "slot_opens c l img' vp s mk" and m: "s \<in> set (filter ks_active ss)"
    using kept [of s] by (auto simp: slot_opens_def)
  obtain ps where kb: "lay_key_bytes l \<in> {32, 64}" and "length ss = 8"
    and slots: "\<And>k. k < 8 \<Longrightarrow> keyslot_parse img' k (lay_key_bytes l) ps = Inr (ss ! k)"
    using l' unfolding layout_parse_iff by auto
  then have "(km_end t - km_start t) mod 16 = 0 \<and> km_end t \<le> length img'" if "t \<in> set ss" for t
    using that keyslot_parse_Inr(2,3) [OF slots] by (auto simp: in_set_conv_nth)
  then obtain mk' where mk': "unlock_slots c l img' vp (filter ks_active ss) = Inr mk'"
    using unlock_slots_complete [OF assms(1) kb m o] by auto
  moreover have "mk_digest_ok c l mk'" using unlock_slots_sound [OF mk'] by (auto simp: slot_opens_def)
  ultimately show ?thesis using mk' by (simp add: unlock_def)
qed

text \<open>C6: adding a unit's key slot to a cabinet works: the image stays a valid LUKS1 container of the same
  length whose unit passphrase opens the same master key the factory passphrase opened; every
  slot in use keeps its entry and its key material, the payload does not change, and the factory
  passphrase still opens a key with the header's digest.\<close>

theorem rekey_opens:
  assumes "crypto_ok c" and "\<forall>k n. length (rnd k n) = n"
    and "add_keyslot c rnd vp up img = (Inr r, img')"
  shows "\<exists>l l' mk mk'. layout_parse img = Inr l \<and> unlock c l img vp = Inr mk \<and>
    layout_parse img' = Inr l' \<and> length img' = length img \<and> unlock c l' img' up = Inr mk \<and>
    unlock c l' img' vp = Inr mk' \<and> mk_digest_ok c l mk' \<and>
    (\<forall>s \<in> set (lay_slots l). ks_active s \<longrightarrow> s \<in> set (lay_slots l') \<and>
       slice_of (km_start s) (km_end s - km_start s) img' = slice_of (km_start s) (km_end s - km_start s) img) \<and>
    drop (unat (be32 img 104) * 512) img' = drop (unat (be32 img 104) * 512) img"
proof -
  have "SLOT_ITERATIONS \<noteq> 0" by (simp add: SLOT_ITERATIONS_def)
  then obtain l ss mk where r: "layout_parse img = Inr l" "unlock c l img vp = Inr mk" "mk_digest_ok c l mk"
    "layout_parse img' = Inr (l\<lparr>lay_slots := ss\<rparr>)" "length img' = length img"
    "unlock c (l\<lparr>lay_slots := ss\<rparr>) img' up = Inr mk"
    "\<And>s. s \<in> set (lay_slots l) \<Longrightarrow> ks_active s \<Longrightarrow> s \<in> set ss \<and>
       slice_of (km_start s) (km_end s - km_start s) img' = slice_of (km_start s) (km_end s - km_start s) img"
    "drop (unat (be32 img 104) * 512) img' = drop (unat (be32 img 104) * 512) img"
    by (rule rekey_facts [OF assms(1) assms(2) [rule_format] _ assms(3) [unfolded add_keyslot_def]]) blast
  obtain mk' where "unlock c (l\<lparr>lay_slots := ss\<rparr>) img' vp = Inr mk'" "mk_digest_ok c l mk'"
    using vendor_opens_after [OF assms(1) r(1,2,4,5,7)] by blast
  then show ?thesis using r by (intro exI [of _ l] exI [of _ "l\<lparr>lay_slots := ss\<rparr>"] exI [of _ mk] exI [of _ mk']) simp
qed

text \<open>C8: when a key slot cannot be added, for whatever reason, the image is left as it was.\<close>

theorem rekey_error_unchanged:
  assumes "add_keyslot c rnd vp up img = (Inl e, img')"
  shows "img' = img"
  using assms write_slot_Inl
  by (auto simp: add_keyslot_def add_keyslot_with_def split: sum.splits option.splits prod.splits)

text \<open>A concrete container: slot 0 in use, the others free, primitives that return zeros.\<close>

definition zero_crypto :: crypto where
  "zero_crypto = \<lparr>c_sha1 = (\<lambda>_. replicate 20 0), c_sha256 = (\<lambda>_. replicate 32 0), c_sha512 = (\<lambda>_. replicate 64 0),
     c_pbkdf2_sha1 = (\<lambda>_ _ _ n. Some (replicate n 0)), c_pbkdf2_sha256 = (\<lambda>_ _ _ n. Some (replicate n 0)),
     c_xts_enc = (\<lambda>_ _ _ b. b), c_xts_dec = (\<lambda>_ _ _ b. b), c_cbc_dec = (\<lambda>_ _ b. b), c_aes_block = (\<lambda>_ b. b)\<rparr>"

lemma zero_crypto_ok: "crypto_ok zero_crypto"
  by (simp add: crypto_ok_def zero_crypto_def)

definition pad_to :: "nat \<Rightarrow> bytes \<Rightarrow> bytes" where "pad_to n bs = bs @ replicate (n - length bs) 0"

definition example_slot :: "nat \<Rightarrow> bytes" where
  "example_slot k = to_be 4 (if k = 0 then SLOT_ACTIVE else SLOT_INACTIVE) @ to_be 4 (1 :: u32) @ replicate 32 0 @
     to_be 4 (8 + 500 * of_nat k :: u32) @ to_be 4 LUKS1_STRIPES"

definition example_header :: bytes where
  "example_header = LUKS_MAGIC @ [0, 1] @ pad_to 32 (utf8_bytes ''aes'') @ pad_to 32 (utf8_bytes ''xts-plain64'') @
     pad_to 32 SHA256 @ to_be 4 (4008 :: u32) @ to_be 4 (64 :: u32) @ replicate 20 0 @ replicate 32 0 @ to_be 4 (1 :: u32) @
     replicate 40 0 @ concat (map example_slot [0..<8])"

definition example_cabinet :: bytes where
  "example_cabinet = example_header @ replicate 2051504 0 @ replicate 16 7"

lemma example_fields:
  "length example_header = 592" "slice_of 0 6 example_header = LUKS_MAGIC" "(from_be (slice_of 6 2 example_header) :: u16) = 1"
  "lower_text (cstr (slice_of 8 32 example_header)) = utf8_bytes ''aes''"
  "lower_text (cstr (slice_of 40 32 example_header)) = utf8_bytes ''xts-plain64''"
  "lower_text (cstr (slice_of 72 32 example_header)) = SHA256"
  "be32 example_header 104 = 4008" "be32 example_header 108 = 64" "be32 example_header 164 = 1"
  "slice_of 112 20 example_header = replicate 20 0"
  by code_simp+

lemma slice_concat_map:
  "(\<And>x. x \<in> set xs \<Longrightarrow> length (f x) = n) \<Longrightarrow> k < length xs \<Longrightarrow> slice_of (k * n) n (concat (map f xs)) = f (xs ! k)"
proof (induction xs arbitrary: k)
  case (Cons x xs)
  show ?case
  proof (cases k)
    case (Suc j)
    then have "slice_of (k * n) n (concat (map f (x # xs))) = slice_of (j * n) n (concat (map f xs))"
      using Cons.prems(1) [of x] by (simp add: slice_of_def)
    then show ?thesis using Cons Suc by simp
  qed (use Cons.prems(1) [of x] in \<open>simp add: slice_of_def\<close>)
qed simp

lemma example_entry:
  assumes "k < 8"
  shows "slice_of (slot_entry k) 48 example_cabinet = example_slot k"
proof -
  define pre where "pre = LUKS_MAGIC @ [0, 1] @ pad_to 32 (utf8_bytes ''aes'') @ pad_to 32 (utf8_bytes ''xts-plain64'') @
     pad_to 32 SHA256 @ to_be 4 (4008 :: u32) @ to_be 4 (64 :: u32) @ replicate 20 0 @ replicate 32 0 @ to_be 4 (1 :: u32) @
     replicate 40 0"
  let ?t = "concat (map example_slot [0..<8])"
  have pre: "length pre = 208" by (simp add: pre_def LUKS_MAGIC_def pad_to_def SHA256_def utf8_bytes_def utf8_char_def)
  have t: "length ?t = 384" by (subst length_concat_const [where n = 48]) (simp_all add: example_slot_def)
  have c: "example_cabinet = pre @ ?t @ replicate 2051504 0 @ replicate 16 7"
    by (simp only: example_cabinet_def example_header_def pre_def append_assoc)
  have a: "slice_of (208 + k * 48) 48 (pre @ ?t @ r) = slice_of (k * 48) 48 ?t" for r
    using assms pre t by (simp add: slice_of_def)
  have b: "slice_of (k * 48) 48 ?t = example_slot k"
    using slice_concat_map [of "[0..<8]" example_slot 48 k] assms by (simp add: example_slot_def)
  show ?thesis by (simp only: luks_consts c a b)
qed

definition example_keyslot :: "nat \<Rightarrow> keyslot" where
  "example_keyslot k = \<lparr>ks_active = (k = 0), ks_iterations = 1, ks_salt = replicate 32 0, km_start = (8 + 500 * k) * 512,
     km_end = (508 + 500 * k) * 512, ks_stripes = 4000\<rparr>"

lemma length_example [simp]: "length example_cabinet = 2052112"
  by (simp add: example_cabinet_def example_fields)

lemma example_keyslots:
  assumes "k < 8"
  shows "keyslot_parse example_cabinet k 64 2052096 = Inr (example_keyslot k)"
proof -
  let ?e = "slot_entry k"
  have b: "be32 example_cabinet (?e + i) = be32 (example_slot k) i" if "i + 4 \<le> 48" for i
    using be32_inside [OF that, of ?e example_cabinet] example_entry [OF assms] assms by (simp add: luks_consts)
  have off: "unat (8 + 500 * of_nat k :: u32) = 8 + 500 * k"
    using assms by (simp add: unat_word_ariths unat_of_nat take_bit_eq_mod)
  have "be32 example_cabinet ?e = (if k = 0 then SLOT_ACTIVE else SLOT_INACTIVE)" "be32 example_cabinet (?e + 4) = 1"
    "be32 example_cabinet (?e + 40) = 8 + 500 * of_nat k" "be32 example_cabinet (?e + 44) = LUKS1_STRIPES"
    using b [of 0] b [of 4] b [of 40] b [of 44] by (simp_all add: be32_def slice_of_def example_slot_def)
  moreover have "slice_of (?e + 8) 32 example_cabinet = replicate 32 0"
    using slice_inside [of 8 32 48 ?e example_cabinet] example_entry [OF assms] by (simp add: slice_of_def example_slot_def)
  moreover have "SLOT_ACTIVE \<noteq> SLOT_INACTIVE" "unat LUKS1_STRIPES = 4000"
    by (simp_all add: SLOT_ACTIVE_def SLOT_INACTIVE_def LUKS1_STRIPES_def)
  ultimately show ?thesis using assms
    by (simp add: keyslot_parse_def Let_def sector_offset_def off HEADER_BYTES_def LUKS_SECTOR_def example_keyslot_def)
qed

definition example_layout :: luks1_layout where
  "example_layout = \<lparr>lay_hash = SHA256, lay_key_bytes = 64, lay_mk_digest = replicate 20 0,
     lay_mk_salt = slice_of 132 32 example_cabinet, lay_mk_iter = 1, lay_slots = map example_keyslot [0..<8]\<rparr>"

lemma example_layout: "layout_parse example_cabinet = Inr example_layout"
proof -
  have sl: "slice_of i n example_cabinet = slice_of i n example_header" if "i + n \<le> 592" for i n
    using that example_fields(1) by (simp add: example_cabinet_def slice_of_def)
  have b: "be32 example_cabinet i = be32 example_header i" if "i + 4 \<le> 592" for i by (simp add: be32_def sl that)
  have "parse_identity example_cabinet = Inr SHA256"
    by (simp add: parse_identity_def sl example_fields Let_def HEADER_BYTES_def)
  moreover have "check_disjoint (map example_keyslot [0..<8]) = Inr ()"
    unfolding check_disjoint_iff by (auto simp: slots_overlap_def example_keyslot_def)
  moreover have "sector_offset (be32 example_cabinet 104) ''payload offset'' = Inr 2052096"
    by (simp add: sector_offset_def b example_fields LUKS_SECTOR_def)
  ultimately show ?thesis unfolding layout_parse_iff
    by (intro exI [of _ 2052096]) (simp add: example_layout_def b sl example_fields example_keyslots)
qed

lemma slot_position_total: "\<exists>x \<in> set xs. P x \<Longrightarrow> \<exists>i. slot_position P xs = Some i"
  by (induction xs) auto

lemma rekey_total:
  assumes "crypto_ok c" and rnd: "\<And>k n. length (rnd k n) = n" and l: "layout_parse img = Inr l"
    and vp: "unlock c l img vp = Inr mk" and "\<exists>s \<in> set (lay_slots l). \<not> ks_active s"
    and key: "pbkdf2_derive c (lay_hash l) up (rnd 0 32) it (lay_key_bytes l) \<noteq> None"
  shows "\<exists>img'. add_keyslot_with c rnd vp up it img = (Inr 0, img')"
proof -
  obtain ps where kb: "lay_key_bytes l \<in> {32, 64}" and slots: "length (lay_slots l) = 8"
    "\<And>k. k < 8 \<Longrightarrow> keyslot_parse img k (lay_key_bytes l) ps = Inr (lay_slots l ! k)"
    using l unfolding layout_parse_iff by auto
  obtain i where i: "slot_position (\<lambda>s. \<not> ks_active s) (lay_slots l) = Some i" using slot_position_total [OF assms(5)] by blast
  have "i < 8" using slot_position_Some [OF i] slots(1) by simp
  then have st: "ks_stripes (lay_slots l ! i) = 4000" by (rule keyslot_parse_Inr(5) [OF slots(2)])
  obtain t where "slot_opens c l img vp t mk" using vp unlock_slots_sound unfolding unlock_def by blast
  then have "length mk = lay_key_bytes l" using assms(1) by (auto simp: slot_opens_def)
  then have m: "length (af_split c (rnd 1) mk 4000 (lay_hash l)) mod 16 = 0"
    using af_merge_split(2) [OF assms(1), of "rnd 1" mk 4000 "lay_hash l"] rnd kb by auto
  obtain k where k: "pbkdf2_derive c (lay_hash l) up (rnd 0 32) it (lay_key_bytes l) = Some k" using key by blast
  obtain m' where "xts_material c (af_split c (rnd 1) mk 4000 (lay_hash l)) k True = Inr m'"
    using xts_total [OF _ m, of k c True] pbkdf2_length [OF assms(1) k] kb by auto
  then show ?thesis by (simp add: add_keyslot_with_def l vp i write_slot_def Let_def k st)
qed

text \<open>C7: a unit's slot is always added where it can be: to a valid container that the factory passphrase
  opens and that has a free slot, with a key derivation that does not fail.\<close>

theorem rekey_succeeds:
  assumes "crypto_ok c" and "\<forall>k n. length (rnd k n) = n" and "layout_parse img = Inr l"
    and "unlock c l img vp = Inr mk" and "\<exists>s \<in> set (lay_slots l). \<not> ks_active s"
    and "pbkdf2_derive c (lay_hash l) up (rnd 0 32) SLOT_ITERATIONS (lay_key_bytes l) \<noteq> None"
  shows "\<exists>img'. add_keyslot c rnd vp up img = (Inr 0, img')"
  unfolding add_keyslot_def by (rule rekey_total [where rnd = rnd, OF assms(1) assms(2) [rule_format] assms(3-6)])

lemma example_unlock: "\<exists>mk. unlock zero_crypto example_layout example_cabinet p = Inr mk"
proof -
  have d: "mk_digest_ok zero_crypto example_layout mk" for mk
    by (simp add: mk_digest_ok_def pbkdf2_derive_def zero_crypto_def example_layout_def)
  have k: "pbkdf2_derive zero_crypto h p s i n = Some (replicate n 0)" for h s i n
    by (simp add: pbkdf2_derive_def zero_crypto_def)
  have f: "filter ks_active (lay_slots example_layout) = [example_keyslot 0]"
    by (simp add: example_layout_def example_keyslot_def upt_rec)
  have s: "km_start (example_keyslot 0) = 4096" "km_end (example_keyslot 0) = 260096" "lay_key_bytes example_layout = 64"
    by (simp_all add: example_keyslot_def example_layout_def)
  have "length (slice_of 4096 256000 example_cabinet) mod 16 = 0" by simp
  then obtain m where "xts_material zero_crypto (slice_of 4096 256000 example_cabinet) (replicate 64 0) False = Inr m"
    using xts_total [of "replicate 64 0"] by fastforce
  then show ?thesis by (simp add: unlock_def f k d s Let_def)
qed

lemma example_free: "\<exists>s \<in> set (lay_slots example_layout). \<not> ks_active s"
proof (rule bexI)
  show "\<not> ks_active (example_keyslot 1)" by (simp add: example_keyslot_def)
  show "example_keyslot 1 \<in> set (lay_slots example_layout)" unfolding example_layout_def by simp
qed

lemma example_key: "pbkdf2_derive zero_crypto h p s i n \<noteq> None"
  by (simp add: pbkdf2_derive_def zero_crypto_def)

definition zero_rnd :: "nat \<Rightarrow> nat \<Rightarrow> bytes" where "zero_rnd k n = replicate n 0"

theorem rekey_succeeds_witness:
  "\<exists>img'. add_keyslot zero_crypto zero_rnd [1] [2] example_cabinet = (Inr 0, img')"
proof -
  obtain mk where mk: "unlock zero_crypto example_layout example_cabinet [1] = Inr mk" using example_unlock by blast
  show ?thesis
    by (rule rekey_succeeds [OF zero_crypto_ok _ example_layout mk example_free example_key]) (simp add: zero_rnd_def)
qed

theorem rekey_opens_witness:
  "\<exists>img' l' mk. add_keyslot zero_crypto zero_rnd [1] [2] example_cabinet = (Inr 0, img') \<and>
     layout_parse img' = Inr l' \<and> unlock zero_crypto l' img' [2] = Inr mk"
proof -
  obtain mk where mk: "unlock zero_crypto example_layout example_cabinet [1] = Inr mk" using example_unlock by blast
  have rnd: "length (zero_rnd k n) = n" for k n by (simp add: zero_rnd_def)
  obtain img' where a: "add_keyslot zero_crypto zero_rnd [1] [2] example_cabinet = (Inr 0, img')"
    unfolding add_keyslot_def
    using rekey_total [where rnd = zero_rnd, OF zero_crypto_ok rnd example_layout mk example_free example_key] by blast
  then show ?thesis using rekey_opens [OF zero_crypto_ok _ a] rnd by blast
qed

theorem rekey_error_unchanged_witness:
  "snd (add_keyslot zero_crypto zero_rnd [1] [2] [7, 8]) = [7, 8]"
proof -
  obtain img' where "add_keyslot zero_crypto zero_rnd [1] [2] [7, 8] = (Inl NotLuks1, img')"
    by (simp add: add_keyslot_def add_keyslot_with_def layout_parse_def parse_identity_def HEADER_BYTES_def)
  then show ?thesis using rekey_error_unchanged [of zero_crypto zero_rnd "[1]" "[2]" "[7, 8]" NotLuks1 img'] by simp
qed

end
