(* ===== verification/LuksUpd.thy ===== *)
theory LuksUpd
  imports Luks
begin

text \<open>
  Decrypting a firmware update, \<open>crates/cdj3k-emu-firmware/src/luks.rs\<close> and the payload decryptors of
  \<open>luks/crypto.rs\<close>: reading the header, the keys a user may type, opening a slot with every variant the
  code tries, decrypting the payload, and the second attempt behind the decoy header. Files are byte
  strings that can be read to their end; base64 is an argument; the diagnostic text of
  \<open>NoValidKeySlot\<close> is left out. The properties: a failed attempt leaves the output alone, the payload
  decrypts to what was encrypted, and a container with an added slot opens with that slot's key.
\<close>

section \<open>The header\<close>

datatype luks_error =
  LuksIo | BadMagic | UnsupportedVersion u16 | UnsupportedCipher bytes bytes | NoValidKeySlot | DecryptFailed

record key_slot =
  sl_active :: bool
  sl_iterations :: u32
  sl_salt :: bytes
  sl_offset :: u32
  sl_stripes :: u32

record luks1_header =
  h_cipher_name :: bytes
  h_cipher_mode :: bytes
  h_hash_spec :: bytes
  h_payload_offset :: u32
  h_key_bytes :: u32
  h_mk_digest :: bytes
  h_mk_salt :: bytes
  h_mk_iter :: u32
  h_uuid :: bytes
  h_slots :: "key_slot list"

definition DECOY_HEADER_BYTES :: nat where "DECOY_HEADER_BYTES = 512"

definition read_key_slot :: "bytes \<Rightarrow> nat \<Rightarrow> key_slot" where
  "read_key_slot buf i =
     (let base = 208 + i * 48
      in \<lparr>sl_active = (be32 buf base = 0x00AC71F3), sl_iterations = be32 buf (base + 4),
          sl_salt = slice_of (base + 8) 32 buf, sl_offset = be32 buf (base + 40), sl_stripes = be32 buf (base + 44)\<rparr>)"

definition read_luks1_header :: "bytes \<Rightarrow> luks_error + luks1_header" where
  "read_luks1_header f =
     (if length f < 592 then Inl LuksIo
      else
        let buf = take 592 f; version = from_be (slice_of 6 2 buf) :: u16
        in if slice_of 0 6 buf \<noteq> LUKS_MAGIC then Inl BadMagic
           else if version \<noteq> 1 then Inl (UnsupportedVersion version)
           else Inr \<lparr>h_cipher_name = cstr (slice_of 8 32 buf), h_cipher_mode = cstr (slice_of 40 32 buf),
                  h_hash_spec = cstr (slice_of 72 32 buf), h_payload_offset = be32 buf 104, h_key_bytes = be32 buf 108,
                  h_mk_digest = slice_of 112 20 buf, h_mk_salt = slice_of 132 32 buf, h_mk_iter = be32 buf 164,
                  h_uuid = cstr (slice_of 168 40 buf), h_slots = map (read_key_slot buf) [0..<8]\<rparr>)"

section \<open>Keys\<close>

datatype b64_engine = Standard | UrlSafe | UrlSafeNoPad

type_synonym b64 = "b64_engine \<Rightarrow> bytes \<Rightarrow> bytes option"

definition trim_end_equals :: "bytes \<Rightarrow> bytes" where
  "trim_end_equals s = rev (dropWhile (\<lambda>b. b = 0x3D) (rev s))"

definition try_base64 :: "b64 \<Rightarrow> bytes \<Rightarrow> bytes option" where
  "try_base64 decode s =
     (let stripped = trim_end_equals s
      in find_some (\<lambda>(pad, engine). decode engine (stripped @ replicate pad 0x3D))
           (List.product [0, 1, 2] [Standard, UrlSafe, UrlSafeNoPad]))"

definition is_ascii_ws_byte :: "u8 \<Rightarrow> bool" where
  "is_ascii_ws_byte b = (b \<in> {0x20, 0x09, 0x0A, 0x0C, 0x0D})"

text \<open>A key as the user gives it: hex digits, base64, or the path of a file. \<open>read_file\<close> is \<open>None\<close> where no file
  is.\<close>

datatype key_error = KeyEmpty | KeyFileRead | KeyFormat

definition is_hex :: "char \<Rightarrow> bool" where
  "is_hex c = (to_digit 16 (code c) \<noteq> None)"

fun hex_key :: "string \<Rightarrow> bytes" where
  "hex_key (a # b # cs) =
     of_nat (16 * the (to_digit 16 (code a)) + the (to_digit 16 (code b))) # hex_key cs"
| "hex_key _ = []"

definition from_user_input :: "b64 \<Rightarrow> (string \<Rightarrow> (unit + bytes) option) \<Rightarrow> string \<Rightarrow> key_error + bytes" where
  "from_user_input decode read_file s =
     (let trimmed = trim s
      in if trimmed = [] then Inl KeyEmpty
         else
           let clean = filter (\<lambda>c. \<not> (code c < 128 \<and> is_ascii_ws_byte (of_nat (code c)))) trimmed;
               hex_clean = filter (\<lambda>c. c \<noteq> CHR '':'') clean
           in if list_all is_hex hex_clean \<and> even (length hex_clean) \<and> hex_clean \<noteq> [] then Inr (hex_key hex_clean)
              else (case try_base64 decode (utf8_bytes clean) of
                      Some key \<Rightarrow> Inr key
                    | None \<Rightarrow>
                        (case read_file trimmed of
                           None \<Rightarrow> Inl KeyFormat
                         | Some (Inl _) \<Rightarrow> Inl KeyFileRead
                         | Some (Inr raw) \<Rightarrow> Inr raw)))"

definition keyfile_candidates :: "b64 \<Rightarrow> bytes \<Rightarrow> bytes list" where
  "keyfile_candidates decode keyfile =
     keyfile # (if utf8_valid keyfile
                then (case try_base64 decode (filter (\<lambda>b. \<not> is_ascii_ws_byte b) keyfile) of
                        Some decoded \<Rightarrow> [decoded] | None \<Rightarrow> [])
                else [])"

section \<open>Opening a slot\<close>

fun contains_text :: "bytes \<Rightarrow> bytes \<Rightarrow> bool" where
  "contains_text needle [] = (needle = [])"
| "contains_text needle (b # bs) = (take (length needle) (b # bs) = needle \<or> contains_text needle bs)"

definition xts_tweak :: "nat \<Rightarrow> bytes \<Rightarrow> bytes" where
  "xts_tweak sector mode =
     (if contains_text (utf8_bytes ''plain64'') mode then put_at 0 (to_le 8 (of_nat sector :: u64)) (replicate 16 0)
      else put_at 0 (to_le 4 (of_nat sector :: u32)) (replicate 16 0))"

definition xts_decrypt :: "crypto \<Rightarrow> bytes \<Rightarrow> bytes \<Rightarrow> bytes \<Rightarrow> nat \<Rightarrow> bytes \<Rightarrow> bytes option" where
  "xts_decrypt c km data_key tweak_key first_sector mode_lc =
     (if length data_key \<noteq> 32 \<or> length tweak_key \<noteq> 32 then None
      else Some (concat (map (\<lambda>(idx, chunk). c_xts_dec c data_key tweak_key (xts_tweak (first_sector + idx) mode_lc) chunk)
             (enumerate 0 (chunks 512 km)))))"

definition digest_matches :: "crypto \<Rightarrow> luks1_header \<Rightarrow> bytes \<Rightarrow> bool" where
  "digest_matches c h mk = (pbkdf2_derive c (h_hash_spec h) mk (h_mk_salt h) (h_mk_iter h) 20 = Some (h_mk_digest h))"

definition try_keyfile :: "crypto \<Rightarrow> luks1_header \<Rightarrow> key_slot \<Rightarrow> bytes \<Rightarrow> bytes \<Rightarrow> bytes option" where
  "try_keyfile c h slot km kf =
     (case pbkdf2_derive c (h_hash_spec h) kf (sl_salt slot) (sl_iterations slot) (unat (h_key_bytes h)) of
        None \<Rightarrow> None
      | Some sk \<Rightarrow>
          let mode_lc = lower_text (h_cipher_mode h);
              variants = concat (map (\<lambda>first_sector. [(first_sector, False), (first_sector, True)]) [0, unat (sl_offset slot)])
          in find_some (\<lambda>(first_sector, swap).
               let (data_key, tweak_key) = (if swap then (drop 32 sk, take 32 sk) else (take 32 sk, drop 32 sk))
               in case xts_decrypt c km data_key tweak_key first_sector mode_lc of
                    None \<Rightarrow> None
                  | Some material \<Rightarrow>
                      let mk = af_merge c material (unat (h_key_bytes h)) (unat (sl_stripes slot)) (h_hash_spec h)
                      in if digest_matches c h mk then Some mk else None) variants)"

definition open_slot :: "crypto \<Rightarrow> b64 \<Rightarrow> bytes \<Rightarrow> luks1_header \<Rightarrow> bytes \<Rightarrow> key_slot \<Rightarrow> bytes option" where
  "open_slot c decode f h keyfile slot =
     (let km_size = unat (h_key_bytes h) * unat (sl_stripes slot)
      in if sl_stripes slot \<noteq> LUKS1_STRIPES then None
         else
           let km_offset = unat (sl_offset slot) * LUKS_SECTOR
           in if length f < km_offset + km_size then None
              else find_some (try_keyfile c h slot (slice_of km_offset km_size f)) (keyfile_candidates decode keyfile))"

definition try_key_slots :: "crypto \<Rightarrow> b64 \<Rightarrow> bytes \<Rightarrow> luks1_header \<Rightarrow> bytes \<Rightarrow> luks_error + bytes" where
  "try_key_slots c decode f h keyfile =
     (if h_key_bytes h \<noteq> 32 \<and> h_key_bytes h \<noteq> 64 then Inl NoValidKeySlot
      else ok_or NoValidKeySlot (find_some (open_slot c decode f h keyfile) (filter sl_active (h_slots h))))"

section \<open>The payload\<close>

definition pad_block :: "bytes \<Rightarrow> bytes" where
  "pad_block b = b @ replicate ((16 - length b mod 16) mod 16) 0"

definition decrypt_payload_xts :: "crypto \<Rightarrow> bytes \<Rightarrow> bytes \<Rightarrow> bytes option" where
  "decrypt_payload_xts c master_key payload =
     (if length master_key \<noteq> 64 then None
      else Some (concat (map (\<lambda>(sector_num, sector).
             take (length sector)
               (c_xts_dec c (take 32 master_key) (drop 32 master_key) (sector_tweak sector_num) (pad_block sector)))
             (enumerate 0 (chunks 512 payload)))))"

definition essiv_iv :: "crypto \<Rightarrow> bytes \<Rightarrow> nat \<Rightarrow> bytes" where
  "essiv_iv c essiv_key sector = c_aes_block c essiv_key (sector_tweak sector)"

definition decrypt_payload_cbc :: "crypto \<Rightarrow> bytes \<Rightarrow> bytes \<Rightarrow> bytes \<Rightarrow> bytes" where
  "decrypt_payload_cbc c master_key mode payload =
     (let essiv_key = (if contains_text (utf8_bytes ''essiv'') mode then Some (c_sha256 c master_key) else None)
      in concat (map (\<lambda>(sector_num, sector).
           let block = pad_block sector;
               iv = (case essiv_key of Some ek \<Rightarrow> essiv_iv c ek sector_num | None \<Rightarrow> sector_tweak sector_num)
           in take (length sector) (if length master_key = 32 then c_cbc_dec c master_key iv block else block))
           (enumerate 0 (chunks 512 payload))))"

text \<open>The output file is created first. The result comes with what the file holds.\<close>

definition decrypt_payload :: "crypto \<Rightarrow> bytes \<Rightarrow> luks1_header \<Rightarrow> bytes \<Rightarrow> (luks_error + unit) \<times> bytes option" where
  "decrypt_payload c f h master_key =
     (let payload = drop (unat (h_payload_offset h) * LUKS_SECTOR) f; mode = lower_text (h_cipher_mode h)
      in if take 3 mode = utf8_bytes ''xts''
         then (case decrypt_payload_xts c master_key payload of
                 None \<Rightarrow> (Inl LuksIo, Some []) | Some out \<Rightarrow> (Inr (), Some out))
         else (Inr (), Some (decrypt_payload_cbc c master_key mode payload)))"

definition decrypt_upd_at ::
  "crypto \<Rightarrow> b64 \<Rightarrow> bytes \<Rightarrow> bytes \<Rightarrow> nat \<Rightarrow> bytes option \<Rightarrow> (luks_error + unit) \<times> bytes option" where
  "decrypt_upd_at c decode upd key base out =
     (let f = drop base upd
      in case read_luks1_header f of
           Inl e \<Rightarrow> (Inl e, out)
         | Inr h \<Rightarrow>
             if lower_text (h_cipher_name h) \<noteq> utf8_bytes ''aes''
             then (Inl (UnsupportedCipher (h_cipher_name h) (h_cipher_mode h)), out)
             else (case try_key_slots c decode f h key of
                     Inl e \<Rightarrow> (Inl e, out)
                   | Inr master_key \<Rightarrow> decrypt_payload c f h master_key))"

definition decrypt_upd ::
  "crypto \<Rightarrow> b64 \<Rightarrow> bytes \<Rightarrow> bytes \<Rightarrow> bytes option \<Rightarrow> (luks_error + unit) \<times> bytes option" where
  "decrypt_upd c decode upd key out =
     (case decrypt_upd_at c decode upd key 0 out of
        (Inr _, out) \<Rightarrow> (Inr (), out)
      | (Inl first_err, out) \<Rightarrow>
          (case decrypt_upd_at c decode upd key DECOY_HEADER_BYTES out of
             (Inr _, out) \<Rightarrow> (Inr (), out)
           | (Inl _, out) \<Rightarrow> (Inl first_err, out)))"

section \<open>Failures leave the output alone\<close>

lemma try_keyfile_length:
  assumes "crypto_ok c" and "try_keyfile c h slot km kf = Some mk"
  shows "length mk = 64"
proof -
  obtain sk where sk: "pbkdf2_derive c (h_hash_spec h) kf (sl_salt slot) (sl_iterations slot) (unat (h_key_bytes h)) = Some sk"
    using assms(2) by (auto simp: try_keyfile_def split: option.splits)
  obtain first_sector dk tk material where "{dk, tk} = {take 32 sk, drop 32 sk}"
    "xts_decrypt c km dk tk first_sector (lower_text (h_cipher_mode h)) = Some material"
    "mk = af_merge c material (unat (h_key_bytes h)) (unat (sl_stripes slot)) (h_hash_spec h)"
    using assms(2) sk
    by (auto simp: try_keyfile_def Let_def dest!: find_some_Some split: option.splits if_splits)
  moreover from this have "length (take 32 sk) = 32" "length (drop 32 sk) = 32"
    by (auto simp: xts_decrypt_def doubleton_eq_iff split: if_splits)
  ultimately show ?thesis using assms(1) pbkdf2_length [OF assms(1) sk] by simp
qed

lemma key_slots_length:
  assumes "crypto_ok c" and "try_key_slots c decode f h key = Inr mk"
  shows "length mk = 64"
  using assms(2) try_keyfile_length [OF assms(1)]
  by (auto simp: try_key_slots_def ok_or_def open_slot_def Let_def dest!: find_some_Some split: if_splits option.splits)

lemma decrypt_at_failure:
  "crypto_ok c \<Longrightarrow> decrypt_upd_at c decode upd key base out = (Inl e, out') \<Longrightarrow> out' = out"
  using key_slots_length
  by (auto simp: decrypt_upd_at_def decrypt_payload_def decrypt_payload_xts_def Let_def split: sum.splits if_splits)



section \<open>The payload decrypts\<close>

definition encrypt_payload :: "crypto \<Rightarrow> bytes \<Rightarrow> bytes \<Rightarrow> bytes" where
  "encrypt_payload c mk plain =
     concat (map (\<lambda>(i, sector). c_xts_enc c (take 32 mk) (drop 32 mk) (sector_tweak i) sector)
       (enumerate 0 (chunks 512 plain)))"

lemma chunk_mod:
  assumes "length xs mod 16 = 0" and "ch \<in> set (chunks 512 xs)"
  shows "length ch mod 16 = 0"
  using assms
proof (induction "512 :: nat" xs rule: chunks.induct)
  case (1 xs)
  show ?case
  proof (cases "xs = []")
    case False
    have d: "length (drop 512 xs) mod 16 = 0 \<and> length (take 512 xs) mod 16 = 0"
    proof (cases "512 \<le> length xs")
      case True
      then have "length xs = length (drop 512 xs) + 32 * 16" by simp
      then have "length (drop 512 xs) mod 16 = 0" using 1(2) by (metis mod_mult_self1)
      then show ?thesis using True by simp
    qed (use 1(2) in simp)
    then show ?thesis using 1 False by (auto simp: chunks_Cons)
  qed (use 1 in simp)
qed

lemma payload_round_trip:
  assumes "crypto_ok c" and "length mk = 64" and "length plain mod 16 = 0"
  shows "decrypt_payload_xts c mk (encrypt_payload c mk plain) = Some plain"
proof -
  let ?f = "\<lambda>i. c_xts_enc c (take 32 mk) (drop 32 mk) (sector_tweak i)"
  let ?g = "\<lambda>i ch. take (length ch) (c_xts_dec c (take 32 mk) (drop 32 mk) (sector_tweak i) (pad_block ch))"
  have "length (?f i ch) = length ch \<and> ?g i (?f i ch) = ch" if "ch \<in> set (chunks 512 plain)" for i ch
  proof -
    have f: "length (?f i ch) = length ch" "c_xts_dec c (take 32 mk) (drop 32 mk) (sector_tweak i) (?f i ch) = ch"
      using assms(1,2) chunk_blocks [OF assms(3) that] unfolding crypto_ok_def by simp_all
    then have "pad_block (?f i ch) = ?f i ch" using chunk_mod [OF assms(3) that] by (simp add: pad_block_def)
    then show ?thesis using f by simp
  qed
  from sectors_round_trip [of 512 plain ?f ?g 0, OF _ this] show ?thesis
    using assms(2) by (simp add: decrypt_payload_xts_def encrypt_payload_def)
qed

section \<open>A container with an added slot\<close>

lemma lower_text_idem: "lower_text (lower_text s) = lower_text s"
proof -
  have "lower_byte (lower_byte b) = lower_byte b" for b
  proof (cases "0x41 \<le> b \<and> b \<le> 0x5A")
    case True
    then have "0x5A < b + 0x20" unfolding word_le_nat_alt word_less_nat_alt by (simp add: unat_plus_if')
    then show ?thesis using True by (simp add: lower_byte_def not_le)
  qed (simp add: lower_byte_def)
  then show ?thesis by (simp add: lower_text_def)
qed

lemma hash_lower:
  assumes "lower_text h = lower_text h'"
  shows "pbkdf2_derive c h = pbkdf2_derive c h'" "af_merge c m kb st h = af_merge c m kb st h'"
proof -
  show "pbkdf2_derive c h = pbkdf2_derive c h'" using assms by (simp add: pbkdf2_derive_def fun_eq_iff)
  have "diffuse c b h = diffuse c b h'" for b using assms by (simp add: diffuse_def)
  then show "af_merge c m kb st h = af_merge c m kb st h'" by (simp add: af_merge_def af_mix_def)
qed

lemma keyslot_parse_fields:
  assumes "keyslot_parse img i kb ps = Inr s"
  shows "ks_active s = (be32 img (slot_entry i) = 0x00AC71F3)" "ks_iterations s = be32 img (slot_entry i + 4)"
    "ks_salt s = slice_of (slot_entry i + 8) 32 img" "km_start s = unat (be32 img (slot_entry i + 40)) * 512"
    "be32 img (slot_entry i + 44) = LUKS1_STRIPES"
  using assms
  by (auto simp: keyslot_parse_def Let_def bindR_eq_Inr sector_offset_def LUKS_SECTOR_def SLOT_ACTIVE_def SLOT_INACTIVE_def
      split: if_splits)

text \<open>The two readers of the header agree.\<close>

lemma header_of_layout:
  assumes l: "layout_parse img = Inr l"
  obtains h where "read_luks1_header img = Inr h" "lower_text (h_cipher_name h) = utf8_bytes ''aes''"
    "lower_text (h_cipher_mode h) = utf8_bytes ''xts-plain64''" "lower_text (h_hash_spec h) = lay_hash l"
    "unat (h_key_bytes h) = lay_key_bytes l" "h_key_bytes h = 32 \<or> h_key_bytes h = 64" "h_mk_digest h = lay_mk_digest l" "h_mk_salt h = lay_mk_salt l"
    "h_mk_iter h = lay_mk_iter l" "h_payload_offset h = be32 img 104" "length (h_slots h) = 8"
    "\<forall>k < 8. sl_active (h_slots h ! k) = ks_active (lay_slots l ! k) \<and>
       sl_iterations (h_slots h ! k) = ks_iterations (lay_slots l ! k) \<and> sl_salt (h_slots h ! k) = ks_salt (lay_slots l ! k) \<and>
       unat (sl_offset (h_slots h ! k)) * 512 = km_start (lay_slots l ! k) \<and> sl_stripes (h_slots h ! k) = LUKS1_STRIPES"
proof -
  obtain ps where p: "parse_identity img = Inr (lay_hash l)" "lay_key_bytes l = 32 \<and> be32 img 108 = 32 \<or> lay_key_bytes l = 64 \<and> be32 img 108 = 64"
    and slots: "\<And>k. k < 8 \<Longrightarrow> keyslot_parse img k (lay_key_bytes l) ps = Inr (lay_slots l ! k)"
    and d: "lay_mk_digest l = slice_of 112 20 img" "lay_mk_salt l = slice_of 132 32 img" "lay_mk_iter l = be32 img 164"
    using l unfolding layout_parse_iff by blast
  have len: "592 \<le> length img" using identity_facts [OF p(1)] by simp
  have sl: "slice_of i n (take 592 img) = slice_of i n img" if "i + n \<le> 592" for i n
    using that by (simp add: slice_of_def take_drop min_def)
  have b: "be32 (take 592 img) i = be32 img i" if "i + 4 \<le> 592" for i using sl [OF that] by (simp add: be32_def)
  have i: "slice_of 0 6 img = LUKS_MAGIC" "(from_be (slice_of 6 2 img) :: u16) = 1"
    "lower_text (cstr (slice_of 8 32 img)) = utf8_bytes ''aes''" "lower_text (cstr (slice_of 40 32 img)) = utf8_bytes ''xts-plain64''"
    "lower_text (cstr (slice_of 72 32 img)) = lay_hash l"
    using p(1) by (auto simp: parse_identity_def Let_def split: if_splits)
  define h where "h = \<lparr>h_cipher_name = cstr (slice_of 8 32 img), h_cipher_mode = cstr (slice_of 40 32 img),
     h_hash_spec = cstr (slice_of 72 32 img), h_payload_offset = be32 img 104, h_key_bytes = be32 img 108,
     h_mk_digest = slice_of 112 20 img, h_mk_salt = slice_of 132 32 img, h_mk_iter = be32 img 164,
     h_uuid = cstr (slice_of 168 40 img), h_slots = map (read_key_slot (take 592 img)) [0..<8]\<rparr>"
  have r: "read_luks1_header img = Inr h" using len i(1,2) by (simp add: read_luks1_header_def Let_def sl b h_def)
  have "sl_active (h_slots h ! k) = ks_active (lay_slots l ! k) \<and>
       sl_iterations (h_slots h ! k) = ks_iterations (lay_slots l ! k) \<and> sl_salt (h_slots h ! k) = ks_salt (lay_slots l ! k) \<and>
       unat (sl_offset (h_slots h ! k)) * 512 = km_start (lay_slots l ! k) \<and> sl_stripes (h_slots h ! k) = LUKS1_STRIPES"
    if "k < 8" for k
  proof -
    have e: "slot_entry k + 48 \<le> 592" "208 + k * 48 = slot_entry k" using that by (simp_all add: luks_consts)
    have "h_slots h ! k = \<lparr>sl_active = (be32 img (slot_entry k) = 0x00AC71F3), sl_iterations = be32 img (slot_entry k + 4),
       sl_salt = slice_of (slot_entry k + 8) 32 img, sl_offset = be32 img (slot_entry k + 40), sl_stripes = be32 img (slot_entry k + 44)\<rparr>"
      using that e(1) by (simp add: h_def read_key_slot_def Let_def e(2) sl b)
    then show ?thesis using keyslot_parse_fields [OF slots [OF that]] by simp
  qed
  then show thesis using p(2) i d by (intro that [OF r]) (auto simp: h_def)
qed

lemma xts_reader_same:
  assumes "xts_material c m sk False = Inr material" and "length sk = 64"
    and mode: "mode = utf8_bytes ''xts-plain64''"
  shows "xts_decrypt c m (take 32 sk) (drop 32 sk) 0 mode = Some material"
proof -
  have "contains_text (utf8_bytes ''plain64'') (utf8_bytes ''xts-plain64'')" by code_simp
  then have "xts_tweak i mode = sector_tweak i" for i by (simp add: xts_tweak_def sector_tweak_def mode)
  then show ?thesis using assms(1,2)
    by (auto simp: xts_decrypt_def xts_material_def xts_sectors_def Let_def LUKS_SECTOR_def split: if_splits)
qed

lemma first_slot_opens:
  assumes "crypto_ok c" and l: "layout_parse img = Inr l" and "lay_key_bytes l = 64"
    and "ks_active (lay_slots l ! 0)" and "slot_opens c l img p (lay_slots l ! 0) mk"
  obtains h where "read_luks1_header img = Inr h" "lower_text (h_cipher_name h) = utf8_bytes ''aes''"
    "lower_text (h_cipher_mode h) = utf8_bytes ''xts-plain64''" "h_payload_offset h = be32 img 104"
    "try_key_slots c decode img h p = Inr mk"
proof -
  obtain h where h: "read_luks1_header img = Inr h" "lower_text (h_cipher_name h) = utf8_bytes ''aes''"
    "lower_text (h_cipher_mode h) = utf8_bytes ''xts-plain64''" "lower_text (h_hash_spec h) = lay_hash l"
    "unat (h_key_bytes h) = lay_key_bytes l" "h_key_bytes h = 32 \<or> h_key_bytes h = 64" "h_mk_digest h = lay_mk_digest l"
    "h_mk_salt h = lay_mk_salt l" "h_mk_iter h = lay_mk_iter l" "h_payload_offset h = be32 img 104" "length (h_slots h) = 8"
    and hs: "\<forall>k < 8. sl_active (h_slots h ! k) = ks_active (lay_slots l ! k) \<and>
       sl_iterations (h_slots h ! k) = ks_iterations (lay_slots l ! k) \<and> sl_salt (h_slots h ! k) = ks_salt (lay_slots l ! k) \<and>
       unat (sl_offset (h_slots h ! k)) * 512 = km_start (lay_slots l ! k) \<and> sl_stripes (h_slots h ! k) = LUKS1_STRIPES"
    by (rule header_of_layout [OF l])
  let ?s = "lay_slots l ! 0"
  let ?t = "h_slots h ! 0"
  have t: "sl_active ?t" "sl_iterations ?t = ks_iterations ?s" "sl_salt ?t = ks_salt ?s"
    "unat (sl_offset ?t) * 512 = km_start ?s" "sl_stripes ?t = LUKS1_STRIPES" using hs [rule_format, of 0] assms(4) by simp_all
  obtain ps where "\<forall>k < 8. keyslot_parse img k (lay_key_bytes l) ps = Inr (lay_slots l ! k)"
    using l unfolding layout_parse_iff by blast
  then have "keyslot_parse img 0 (lay_key_bytes l) ps = Inr ?s" by simp
  note k = keyslot_parse_Inr [OF this]
  have hash: "lower_text (h_hash_spec h) = lower_text (lay_hash l)" using h(4) lower_text_idem [of "h_hash_spec h"] by simp
  obtain sk material where sk: "pbkdf2_derive c (lay_hash l) p (ks_salt ?s) (ks_iterations ?s) (lay_key_bytes l) = Some sk"
    and m: "xts_material c (slice_of (km_start ?s) (km_end ?s - km_start ?s) img) sk False = Inr material"
    and mk: "mk = af_merge c material (lay_key_bytes l) (ks_stripes ?s) (lay_hash l)" "mk_digest_ok c l mk"
    using assms(5) unfolding slot_opens_def by blast
  have sk64: "length sk = 64" using pbkdf2_length [OF assms(1) sk] assms(3) by simp
  have str: "unat LUKS1_STRIPES = 4000" by (simp add: LUKS1_STRIPES_def)
  have dig: "digest_matches c h mk" using mk(2) by (simp add: digest_matches_def mk_digest_ok_def h hash_lower(1) [OF hash])
  have mrg: "af_merge c material (unat (h_key_bytes h)) (unat (sl_stripes ?t)) (h_hash_spec h) = mk"
    using mk(1) k(5) by (simp add: h(5) t(5) str hash_lower(2) [OF hash])
  have "try_keyfile c h ?t (slice_of (km_start ?s) (km_end ?s - km_start ?s) img) p = Some mk"
    using sk xts_reader_same [OF m sk64 h(3)] dig mrg
    by (simp add: try_keyfile_def Let_def h(5) t(2,3) hash_lower(1) [OF hash])
  moreover have sz: "unat (h_key_bytes h) * unat (sl_stripes ?t) = km_end ?s - km_start ?s" using k(2) by (simp add: h(5) t(5) str)
  moreover have "km_start ?s + (km_end ?s - km_start ?s) \<le> length img" using k(2,3) by simp
  ultimately have "open_slot c decode img h p ?t = Some mk"
    using t(4,5) by (simp add: open_slot_def Let_def keyfile_candidates_def LUKS_SECTOR_def)
  moreover obtain rest where "h_slots h = ?t # rest" using h(11) by (cases "h_slots h") simp_all
  then have "filter sl_active (h_slots h) = ?t # filter sl_active rest" using t(1) by (metis filter.simps(2))
  ultimately have "try_key_slots c decode img h p = Inr mk" using h(6) by (simp add: try_key_slots_def ok_or_def)
  then show thesis using that h by blast
qed

text \<open>C5: a container to which a unit's key slot was added decrypts with that unit's passphrase to
  its plaintext: what \<open>add_keyslot\<close> writes and what \<open>decrypt_upd\<close> reads agree, slot, key material, digest
  and payload.\<close>

theorem rekeyed_decrypts:
  assumes "crypto_ok c" and "\<forall>k n. length (rnd k n) = n" and "add_keyslot c rnd vp up img = (Inr r, img')"
    and "layout_parse img = Inr l" and "lay_key_bytes l = 64" and "unlock c l img vp = Inr mk"
    and "drop (unat (be32 img 104) * 512) img = encrypt_payload c mk plain" and "length plain mod 16 = 0"
  shows "decrypt_upd c decode img' up out = (Inr (), Some plain)"
proof -
  have it: "SLOT_ITERATIONS \<noteq> 0" by (simp add: SLOT_ITERATIONS_def)
  obtain l0 ss mk0 where r: "layout_parse img = Inr l0" "unlock c l0 img vp = Inr mk0"
    "layout_parse img' = Inr (l0\<lparr>lay_slots := ss\<rparr>)" "drop (unat (be32 img 104) * 512) img' = drop (unat (be32 img 104) * 512) img"
    "ks_active (ss ! 0)" "slot_opens c l0 img' up (ss ! 0) mk0" "be32 img' 104 = be32 img 104"
    by (rule rekey_facts [where rnd = rnd, OF assms(1) assms(2) [rule_format] it assms(3) [unfolded add_keyslot_def]])
  have l: "l0 = l" "mk0 = mk" using r(1,2) assms(4,6) by simp_all
  obtain h where h: "read_luks1_header img' = Inr h" "lower_text (h_cipher_name h) = utf8_bytes ''aes''"
    "lower_text (h_cipher_mode h) = utf8_bytes ''xts-plain64''" "h_payload_offset h = be32 img' 104"
    "try_key_slots c decode img' h up = Inr mk"
    using first_slot_opens [OF assms(1) r(3), of up mk decode] assms(5) r(5,6) l by auto
  have "take 3 (utf8_bytes ''xts-plain64'') = utf8_bytes ''xts''" by code_simp
  moreover have "drop (unat (be32 img 104) * 512) img' = encrypt_payload c mk plain" using r(4) assms(7) by simp
  ultimately have "decrypt_payload c img' h mk = (Inr (), Some plain)"
    using payload_round_trip [OF assms(1) key_slots_length [OF assms(1) h(5)] assms(8)]
    by (simp add: decrypt_payload_def Let_def h(3,4) r(7) LUKS_SECTOR_def)
  then show ?thesis using h by (simp add: decrypt_upd_def decrypt_upd_at_def)
qed

theorem rekeyed_decrypts_witness:
  "\<exists>img'. add_keyslot zero_crypto zero_rnd [1] [2] example_cabinet = (Inr 0, img') \<and>
     decrypt_upd zero_crypto (\<lambda>_ _. None) img' [2] None = (Inr (), Some (replicate 16 7))"
proof -
  obtain mk where mk: "unlock zero_crypto example_layout example_cabinet [1] = Inr mk" using example_unlock by blast
  have rnd: "\<forall>k n. length (zero_rnd k n) = n" by (simp add: zero_rnd_def)
  obtain img' where a: "add_keyslot zero_crypto zero_rnd [1] [2] example_cabinet = (Inr 0, img')"
    unfolding add_keyslot_def
    using rekey_total [where rnd = zero_rnd, OF zero_crypto_ok rnd [rule_format] example_layout mk example_free example_key] by blast
  have "be32 example_cabinet 104 = 4008"
    using example_fields(1,7) by (simp add: be32_def slice_of_def example_cabinet_def)
  then have off: "unat (be32 example_cabinet 104) * 512 = 2052096" by simp
  have pay: "drop 2052096 example_cabinet = encrypt_payload zero_crypto mk (replicate 16 7)"
    using example_fields(1) by (simp add: example_cabinet_def encrypt_payload_def chunks_Cons zero_crypto_def)
  have kb: "lay_key_bytes example_layout = 64" by (simp add: example_layout_def)
  show ?thesis using a rekeyed_decrypts [OF zero_crypto_ok rnd a example_layout kb mk, unfolded off, OF pay] by simp
qed

end
