(* ===== verification/Cabinet.thy ===== *)
theory Cabinet
  imports Luks Settings
begin

text \<open>
  The passphrases of a cabinet, \<open>crates/cdj3k-emu-firmware/src/luks/rekey.rs\<close>: the one a unit
  computes from its model and SoC serial, and the factory one from the model and the seed file; and the step of
  the firmware wizard that keys the cabinet for a slot, \<open>key_cabinet\<close> of
  \<open>crates/cdj3k-emu-ui/src/app/firmware_wizard/provision.rs\<close>, without its log. SHA-512 is a
  field of \<open>crypto\<close>. The lemmas tie them to the identity a slot mints and saves.
\<close>

definition hex_encode :: "bytes \<Rightarrow> bytes" where
  "hex_encode bs = utf8_bytes (concat (map hex02 bs))"

definition cabinet_passphrase :: "crypto \<Rightarrow> string \<Rightarrow> string \<Rightarrow> rekey_error + bytes" where
  "cabinet_passphrase c env soc_serial =
     (if str_len soc_serial \<noteq> 16 \<or> \<not> list_all is_hexdigit soc_serial then Inl rekey_error.BadSerial
      else (case parse_radix 16 32 (map code (drop 14 soc_serial)) of
              None \<Rightarrow> Inl rekey_error.BadSerial
            | Some n \<Rightarrow>
                Inr (hex_encode (c_sha512 c (concat (replicate (n + 1) (utf8_bytes (env @ soc_serial))))))))"

definition vendor_passphrase :: "crypto \<Rightarrow> string \<Rightarrow> bytes \<Rightarrow> bytes" where
  "vendor_passphrase c env seed =
     hex_encode (c_sha512 c (utf8_bytes env @ hex_encode (c_sha512 c seed)))"

definition key_cabinet ::
  "crypto \<Rightarrow> (nat \<Rightarrow> nat \<Rightarrow> bytes) \<Rightarrow> bytes option \<Rightarrow> model \<Rightarrow> string \<Rightarrow> bytes \<Rightarrow> bytes" where
  "key_cabinet c draw seed m serial img =
     (case (map_option (vendor_passphrase c (model_env (spec m))) seed, cabinet_passphrase c (model_env (spec m)) serial) of
        (Some vendor, Inr unit_pass) \<Rightarrow> snd (add_keyslot c draw vendor unit_pass img)
      | _ \<Rightarrow> img)"

lemma hexdigit_value:
  assumes "is_hexdigit ch"
  shows "\<exists>d < 16. to_digit 16 (code ch) = Some d" "code ch \<noteq> 43" "code ch < 128"
  using assms unfolding is_hexdigit_def is_digit_def to_digit_def Let_def by auto

lemma str_len_ascii: "list_all is_hexdigit s \<Longrightarrow> str_len s = length s"
  using hexdigit_value(3) by (induction s) (auto simp: str_len_def)

lemma two_hex_digits:
  assumes "is_hexdigit a" "is_hexdigit b"
  shows "\<exists>n < 256. parse_radix 16 32 (map code [a, b]) = Some n"
proof -
  obtain x y where "x < 16" "to_digit 16 (code a) = Some x" "y < 16" "to_digit 16 (code b) = Some y"
    using hexdigit_value(1) assms by meson
  then show ?thesis using hexdigit_value(2) [OF assms(1)]
    by (simp add: parse_radix_def Let_def digits_value_def)
qed

lemma length_hex_encode: "length (hex_encode bs) = 2 * length bs"
proof -
  have "utf8_bytes s = map (\<lambda>ch. of_nat (code ch)) s" if "list_all is_hexdigit s" for s
    using that hexdigit_value(3) by (induction s) (auto simp: utf8_bytes_def utf8_char_def Let_def)
  moreover have "list_all is_hexdigit (concat (map hex02 bs))" using hex02_ok(2) by (auto simp: list_all_iff)
  moreover have "length (concat (map hex02 bs)) = 2 * length bs" using hex02_ok(5) by (induction bs) simp_all
  ultimately show ?thesis by (simp add: hex_encode_def)
qed

text \<open>Every SoC serial a slot may hold, and so every minted one, has a unit passphrase, of 128 hex digits
  when the hash has 64 bytes, and any other text is refused.\<close>

theorem serial_has_passphrase:
  assumes "\<And>b. length (c_sha512 c b) = 64"
  shows "(is_valid_soc_serial s \<longrightarrow> (\<exists>k. cabinet_passphrase c m s = Inr k \<and> length k = 128)) \<and>
    (cabinet_passphrase c m s = Inl rekey_error.BadSerial \<longleftrightarrow> \<not> (length s = 16 \<and> list_all is_hexdigit s))"
proof -
  have ok: "\<exists>k. cabinet_passphrase c m s = Inr k \<and> length k = 128" if s: "length s = 16" "list_all is_hexdigit s"
  proof -
    have "length (drop 14 s) = 2" using s(1) by simp
    then obtain a b where ab: "drop 14 s = [a, b]" by (metis length_0_conv length_Suc_conv numeral_2_eq_2)
    then have "a \<in> set s" "b \<in> set s" by (metis in_set_dropD list.set_intros)+
    then obtain n where "parse_radix 16 32 (map code (drop 14 s)) = Some n"
      using two_hex_digits [of a b] s(2) by (auto simp: ab list_all_iff)
    then show ?thesis using s assms by (simp add: cabinet_passphrase_def str_len_ascii length_hex_encode)
  qed
  have "length s = 16 \<and> list_all is_hexdigit s" if "is_valid_soc_serial s"
  proof -
    have "list_all is_hexdigit s" using that by (auto simp: is_valid_soc_serial_def is_hexdigit_def Let_def list_all_iff)
    then show ?thesis using that str_len_ascii by (simp add: is_valid_soc_serial_def)
  qed
  then show ?thesis using ok str_len_ascii [of s] by (auto simp: cabinet_passphrase_def)
qed



theorem serial_has_passphrase_witness:
  "\<exists>k. cabinet_passphrase zero_crypto ''CDJ3000X'' ''0011223344556677'' = Inr k \<and> length k = 128"
proof -
  have "is_valid_soc_serial ''0011223344556677''" by code_simp
  then show ?thesis using serial_has_passphrase [of zero_crypto] by (simp add: zero_crypto_def)
qed

end
