(* ===== verification/Fit.thy ===== *)
theory Fit
  imports Utf8Text
begin

text \<open>
  The flattened image tree of a boot image, \<open>crates/cdj3k-emu-firmware/src/fit.rs\<close>: reading a device
  tree into its properties by node path, and taking one image out of it after checking its SHA-256. Names
  are UTF-8 byte strings; SHA-256 is an argument. The properties: a tree written as the
  format says reads back as its properties, and an image is returned only with the hash its
  node records.
\<close>

datatype fit_error = BadIso string | FileNotFound bytes

definition FDT_MAGIC :: u32 where "FDT_MAGIC = 0xD00DFEED"
definition FDT_BEGIN_NODE :: u32 where "FDT_BEGIN_NODE = 1"
definition FDT_END_NODE :: u32 where "FDT_END_NODE = 2"
definition FDT_PROP :: u32 where "FDT_PROP = 3"
definition FDT_NOP :: u32 where "FDT_NOP = 4"
definition FDT_END :: u32 where "FDT_END = 9"

definition SLASH :: u8 where "SLASH = 0x2F"

type_synonym fdt_entry = "bytes \<times> bytes \<times> bytes"

record fdt_tree =
  total_size :: nat
  fdt_props :: "fdt_entry list"

definition fdt_word :: "bytes \<Rightarrow> nat \<Rightarrow> u32 option" where
  "fdt_word fit i = (if i + 4 \<le> length fit then Some (from_be (slice_of i 4 fit)) else None)"

definition fdt_header :: "bytes \<Rightarrow> nat \<Rightarrow> fit_error + nat" where
  "fdt_header fit i = ok_or (BadIso ''the FDT header is truncated'') (map_option unat (fdt_word fit i))"

definition fdt_cstr :: "bytes \<Rightarrow> bytes" where
  "fdt_cstr b = (let s = takeWhile (\<lambda>c. c \<noteq> 0) b in if utf8_valid s then s else [])"

definition node_path :: "bytes list \<Rightarrow> bytes" where
  "node_path path = (if length path \<le> 1 then [SLASH] else join [SLASH] path)"

lemma fdt_word_Some: "fdt_word fit i = Some w \<Longrightarrow> i + 4 \<le> length fit"
  by (simp add: fdt_word_def split: if_splits)

function fdt_walk :: "bytes \<Rightarrow> bytes \<Rightarrow> nat \<Rightarrow> bytes list \<Rightarrow> fdt_entry list \<Rightarrow> fit_error + fdt_entry list" where
  "fdt_walk fit strings pos path props =
     (case fdt_word fit pos of
        None \<Rightarrow> Inl (BadIso ''FDT structure runs past the file'')
      | Some token \<Rightarrow>
          let pos = pos + 4
          in if token = FDT_BEGIN_NODE then
               let name = fdt_cstr (drop pos fit)
               in fdt_walk fit strings (align4 (pos + length name + 1)) (path @ [name]) props
             else if token = FDT_END_NODE then fdt_walk fit strings pos (butlast path) props
             else if token = FDT_PROP then
               (case fdt_header fit pos of
                  Inl e \<Rightarrow> Inl e
                | Inr len \<Rightarrow>
                    (case fdt_header fit (pos + 4) of
                       Inl e \<Rightarrow> Inl e
                     | Inr name_off \<Rightarrow>
                         if length fit < pos + 8 + len then Inl (BadIso ''FDT property runs past the file'')
                         else fdt_walk fit strings (align4 (pos + 8 + len)) path
                                (props @ [(node_path path, fdt_cstr (drop name_off strings), slice_of (pos + 8) len fit)])))
             else if token = FDT_NOP then fdt_walk fit strings pos path props
             else if token = FDT_END then Inr props
             else Inl (BadIso ''the FDT has an unknown token''))"
  by pat_completeness auto
termination fdt_walk
proof (relation "measure (\<lambda>(fit, _, pos, _, _). length fit - pos)", goal_cases)
  case (2 fit strings pos path props token x name)
  then show ?case using align4_ge [of "x + length name + 1"] by (auto dest!: fdt_word_Some)
next
  case (4 fit strings pos path props token x len name_off)
  then show ?case using align4_ge [of "x + 8 + len"] by (auto dest!: fdt_word_Some)
qed (auto dest!: fdt_word_Some)

declare fdt_walk.simps [simp del]

definition tree_parse :: "bytes \<Rightarrow> fit_error + fdt_tree" where
  "tree_parse fit =
     (if fdt_word fit 0 \<noteq> Some FDT_MAGIC then Inl (BadIso ''not a flattened device tree'')
      else bindR (fdt_header fit 4) (\<lambda>size.
           bindR (fdt_header fit 8) (\<lambda>struct_off.
           bindR (fdt_header fit 12) (\<lambda>strings_off.
           bindR (ok_or (BadIso ''the FDT strings block is out of range'')
                    (get_range strings_off (min size (length fit)) fit)) (\<lambda>strings.
           bindR (fdt_walk fit strings struct_off [] []) (\<lambda>props.
             Inr \<lparr>total_size = size, fdt_props = props\<rparr>))))))"

definition fdt_prop :: "fdt_tree \<Rightarrow> bytes \<Rightarrow> bytes \<Rightarrow> bytes option" where
  "fdt_prop t node name = map_option (snd \<circ> snd) (find (\<lambda>(n, p, _). n = node \<and> p = name) (fdt_props t))"

definition is_child :: "bytes \<Rightarrow> bytes \<Rightarrow> bool" where
  "is_child node n =
     (case strip_prefix node n of
        None \<Rightarrow> False
      | Some r \<Rightarrow> (case strip_prefix [SLASH] r of None \<Rightarrow> False | Some name \<Rightarrow> SLASH \<notin> set name))"

fun distinct_children :: "bytes \<Rightarrow> bytes list \<Rightarrow> bytes list \<Rightarrow> bytes list" where
  "distinct_children node seen [] = []"
| "distinct_children node seen (n # ns) =
     (if is_child node n \<and> n \<notin> set seen then n # distinct_children node (seen @ [n]) ns
      else distinct_children node seen ns)"

definition tree_children :: "fdt_tree \<Rightarrow> bytes \<Rightarrow> bytes list" where
  "tree_children t node = distinct_children node [] (map fst (fdt_props t))"

definition missing :: "bytes \<Rightarrow> string \<Rightarrow> fit_error" where
  "missing node what = FileNotFound (node @ utf8_bytes '' has no '' @ utf8_bytes what)"

definition fit_be32 :: "bytes \<Rightarrow> nat option" where
  "fit_be32 v = (if length v = 4 then Some (unat (from_be v :: u32)) else None)"

definition is_hash_node :: "bytes \<Rightarrow> bool" where
  "is_hash_node child =
     (let n = last (split_by (\<lambda>b. b = SLASH) child)
      in n = utf8_bytes ''hash'' \<or> take 5 n = utf8_bytes ''hash-'')"

definition image_data :: "bytes \<Rightarrow> fdt_tree \<Rightarrow> bytes \<Rightarrow> fit_error + bytes" where
  "image_data fit tree node =
     (case fdt_prop tree node (utf8_bytes ''data'') of
        Some inline \<Rightarrow> Inr inline
      | None \<Rightarrow>
          bindR (ok_or (missing node ''data-size'')
                   (Option.bind (fdt_prop tree node (utf8_bytes ''data-size'')) fit_be32)) (\<lambda>sz.
          bindR (ok_or (missing node ''data-position'')
                   (case (fdt_prop tree node (utf8_bytes ''data-position''), fdt_prop tree node (utf8_bytes ''data-offset'')) of
                      (Some p, _) \<Rightarrow> fit_be32 p
                    | (None, Some off) \<Rightarrow> map_option (\<lambda>off. align4 (total_size tree) + off) (fit_be32 off)
                    | (None, None) \<Rightarrow> None)) (\<lambda>start.
            ok_or (BadIso ''FIT image data runs past the end of the file'') (get_range start (start + sz) fit))))"

definition image_hash :: "fdt_tree \<Rightarrow> bytes \<Rightarrow> bytes option" where
  "image_hash tree node =
     find_some (\<lambda>child. fdt_prop tree child (utf8_bytes ''value''))
       (filter (\<lambda>child. fdt_prop tree child (utf8_bytes ''algo'') = Some (utf8_bytes ''sha256'' @ [0]))
         (filter is_hash_node (tree_children tree node)))"

definition fit_image :: "(bytes \<Rightarrow> bytes) \<Rightarrow> bytes \<Rightarrow> bytes \<Rightarrow> fit_error + bytes" where
  "fit_image sha256 fit name =
     bindR (tree_parse fit) (\<lambda>tree.
       let node = utf8_bytes ''/images/'' @ name
       in bindR (image_data fit tree node) (\<lambda>data.
          bindR (ok_or (missing node ''sha256 hash node'') (image_hash tree node)) (\<lambda>want.
            if sha256 data \<noteq> want then Inl (BadIso ''FIT image does not match its sha256'') else Inr data)))"

section \<open>A written tree reads back\<close>

text \<open>A node with its name, its properties by the offset of their name in the strings block, and its children, as
  the format lays them out.\<close>

datatype fnode = FNode bytes "(nat \<times> bytes) list" "fnode list"

definition pad_4 :: "bytes \<Rightarrow> bytes" where
  "pad_4 bs = bs @ replicate (align4 (length bs) - length bs) 0"

definition enc_prop :: "nat \<times> bytes \<Rightarrow> bytes" where
  "enc_prop = (\<lambda>(off, v). to_be 4 FDT_PROP @ to_be 4 (of_nat (length v) :: u32) @ to_be 4 (of_nat off :: u32) @ pad_4 v)"

fun enc_node :: "fnode \<Rightarrow> bytes" where
  "enc_node (FNode n ps cs) =
     to_be 4 FDT_BEGIN_NODE @ pad_4 (n @ [0]) @ concat (map enc_prop ps) @ concat (map enc_node cs) @ to_be 4 FDT_END_NODE"

fun flat_node :: "bytes \<Rightarrow> bytes list \<Rightarrow> fnode \<Rightarrow> fdt_entry list" where
  "flat_node strings path (FNode n ps cs) =
     map (\<lambda>(off, v). (node_path (path @ [n]), fdt_cstr (drop off strings), v)) ps @
     concat (map (flat_node strings (path @ [n])) cs)"

fun node_ok :: "fnode \<Rightarrow> bool" where
  "node_ok (FNode n ps cs) =
     (utf8_valid n \<and> 0 \<notin> set n \<and> (\<forall>(off, v) \<in> set ps. int off < 2 ^ 32 \<and> int (length v) < 2 ^ 32) \<and> (\<forall>c \<in> set cs. node_ok c))"

definition holds :: "bytes \<Rightarrow> nat \<Rightarrow> bytes \<Rightarrow> bool" where
  "holds fit i bs \<longleftrightarrow> i + length bs \<le> length fit \<and> slice_of i (length bs) fit = bs"

lemma holds_append: "holds fit i (a @ b) \<longleftrightarrow> holds fit i a \<and> holds fit (i + length a) b"
proof -
  have "slice_of i (length a + length b) fit = slice_of i (length a) fit @ slice_of (i + length a) (length b) fit"
    by (simp add: slice_of_def take_add add.commute)
  moreover have "length (slice_of i (length a) fit) = length a" if "i + (length a + length b) \<le> length fit"
    using that by simp
  ultimately show ?thesis by (auto simp: holds_def add.assoc)
qed

lemma holds_drop: "holds fit i bs \<Longrightarrow> drop i fit = bs @ drop (i + length bs) fit"
  unfolding holds_def slice_of_def by (metis append_take_drop_id drop_drop add.commute)

lemma holds_word: "holds fit i (to_be 4 (w :: u32)) \<Longrightarrow> fdt_word fit i = Some w"
  by (simp add: holds_def fdt_word_def)

lemma align4_add: "4 dvd i \<Longrightarrow> align4 (i + n) = i + align4 n"
  unfolding align4_def by presburger

lemma length_pad_4: "length (pad_4 bs) = align4 (length bs)"
  using align4_ge [of "length bs"] by (simp add: pad_4_def)

lemma unat_small: "int n < 2 ^ 32 \<Longrightarrow> unat (of_nat n :: u32) = n"
  by (simp add: unat_of_nat take_bit_eq_mod)

lemma walk_begin:
  assumes "holds fit i (to_be 4 FDT_BEGIN_NODE @ pad_4 (n @ [0]))" and "4 dvd i" and "utf8_valid n" and "0 \<notin> set n"
  shows "fdt_walk fit s i path props = fdt_walk fit s (i + 4 + length (pad_4 (n @ [0]))) (path @ [n]) props"
proof -
  have h: "holds fit i (to_be 4 FDT_BEGIN_NODE)" "holds fit (i + 4) (pad_4 (n @ [0]))"
    using assms(1) by (simp_all add: holds_append)
  obtain r where d: "drop (i + 4) fit = n @ [0] @ r" using holds_drop [OF h(2)] by (simp add: pad_4_def)
  have "takeWhile (\<lambda>c. c \<noteq> 0) (n @ [0] @ r) = n" using assms(4) by (subst takeWhile_append2) auto
  then have c: "fdt_cstr (drop (i + 4) fit) = n" using assms(3) by (simp add: fdt_cstr_def d)
  have "align4 (i + 4 + length n + 1) = i + 4 + length (pad_4 (n @ [0]))"
    using align4_add [of "i + 4" "length n + 1"] assms(2) by (simp add: length_pad_4 add.assoc)
  then show ?thesis by (subst fdt_walk.simps) (simp add: holds_word [OF h(1)] c Let_def)
qed

lemma walk_end:
  "holds fit i (to_be 4 FDT_END_NODE) \<Longrightarrow> fdt_walk fit s i path props = fdt_walk fit s (i + 4) (butlast path) props"
  by (subst fdt_walk.simps) (simp add: holds_word FDT_BEGIN_NODE_def FDT_END_NODE_def Let_def)

lemma walk_prop:
  assumes "holds fit i (enc_prop (off, v))" and "4 dvd i" and "int off < 2 ^ 32" and "int (length v) < 2 ^ 32"
  shows "fdt_walk fit s i path props =
    fdt_walk fit s (i + length (enc_prop (off, v))) path (props @ [(node_path path, fdt_cstr (drop off s), v)])"
proof -
  have h: "holds fit i (to_be 4 FDT_PROP)" "holds fit (i + 4) (to_be 4 (of_nat (length v) :: u32))"
    "holds fit (i + 8) (to_be 4 (of_nat off :: u32))" "holds fit (i + 12) v"
    using assms(1) by (simp_all add: enc_prop_def pad_4_def holds_append add.assoc)
  have len: "fdt_header fit (i + 4) = Inr (length v)" "fdt_header fit (i + 8) = Inr off"
    using holds_word [OF h(2)] holds_word [OF h(3)] assms(3,4) by (simp_all add: fdt_header_def ok_or_def unat_small)
  have "align4 (i + 12 + length v) = i + 12 + align4 (length v)" using assms(2) by (intro align4_add) simp
  then have l: "align4 (i + 12 + length v) = i + length (enc_prop (off, v))" by (simp add: enc_prop_def length_pad_4)
  have v: "i + 12 + length v \<le> length fit" "slice_of (i + 12) (length v) fit = v" using h(4) by (simp_all add: holds_def)
  have "\<not> length fit < i + 12 + length v" using v(1) by simp
  then show ?thesis
    by (subst fdt_walk.simps)
      (simp add: holds_word [OF h(1)] FDT_PROP_def FDT_BEGIN_NODE_def FDT_END_NODE_def Let_def add.assoc len [simplified add.assoc]
        l [simplified add.assoc] v(2))
qed

lemma enc_prop_dvd: "4 dvd length (enc_prop p)"
  by (cases p) (simp add: enc_prop_def length_pad_4 align4_dvd)

lemma walk_props:
  assumes "holds fit i (concat (map enc_prop ps))" and "4 dvd i"
    and "\<forall>(off, v) \<in> set ps. int off < 2 ^ 32 \<and> int (length v) < 2 ^ 32"
  shows "fdt_walk fit s i path props =
    fdt_walk fit s (i + length (concat (map enc_prop ps))) path
      (props @ map (\<lambda>(off, v). (node_path path, fdt_cstr (drop off s), v)) ps)"
  using assms
proof (induction ps arbitrary: i props)
  case (Cons p ps)
  obtain off v where p: "p = (off, v)" by (cases p)
  have "fdt_walk fit s i path props =
      fdt_walk fit s (i + length (enc_prop p)) path (props @ [(node_path path, fdt_cstr (drop off s), v)])"
    using walk_prop [of fit i off v] Cons.prems by (simp add: p holds_append)
  moreover have "4 dvd i + length (enc_prop p)" using enc_prop_dvd Cons.prems(2) by simp
  ultimately show ?case using Cons.IH [of "i + length (enc_prop p)"] Cons.prems by (simp add: p holds_append add.assoc)
qed simp

lemma enc_node_dvd: "4 dvd length (enc_node t)"
proof (induction t)
  case (FNode n ps cs)
  have "4 dvd length (concat (map enc_prop ps))" using enc_prop_dvd by (induction ps) simp_all
  moreover have "4 dvd length (concat (map enc_node cs))" using FNode by (induction cs) simp_all
  ultimately show ?case by (simp add: length_pad_4 align4_dvd)
qed

lemma walk_node:
  assumes "holds fit i (enc_node t)" and "4 dvd i" and "node_ok t"
  shows "fdt_walk fit s i path props = fdt_walk fit s (i + length (enc_node t)) path (props @ flat_node s path t)"
  using assms
proof (induction t arbitrary: i path props)
  case (FNode n ps cs)
  let ?b = "pad_4 (n @ [0])"
  let ?p = "concat (map enc_prop ps)"
  let ?c = "concat (map enc_node cs)"
  have h: "holds fit i (to_be 4 FDT_BEGIN_NODE @ ?b)" "holds fit (i + 4 + length ?b) ?p"
    "holds fit (i + 4 + length ?b + length ?p) ?c" "holds fit (i + 4 + length ?b + length ?p + length ?c) (to_be 4 FDT_END_NODE)"
    using FNode.prems(1) by (simp_all add: holds_append add.assoc)
  have kids: "fdt_walk fit s j path props = fdt_walk fit s (j + length (concat (map enc_node ds))) path
      (props @ concat (map (flat_node s path) ds))"
    if "set ds \<subseteq> set cs" "holds fit j (concat (map enc_node ds))" "4 dvd j" for ds j path props
    using that
  proof (induction ds arbitrary: j props)
    case (Cons d ds)
    have d: "d \<in> set cs" "node_ok d" using Cons.prems(1) FNode.prems(3) by auto
    have "fdt_walk fit s j path props = fdt_walk fit s (j + length (enc_node d)) path (props @ flat_node s path d)"
      using FNode.IH [OF d(1) _ Cons.prems(3) d(2)] Cons.prems(2) by (simp add: holds_append)
    moreover have "4 dvd j + length (enc_node d)" using enc_node_dvd Cons.prems(3) by simp
    ultimately show ?case using Cons.IH [of "j + length (enc_node d)"] Cons.prems by (simp add: holds_append add.assoc)
  qed simp
  have dv: "4 dvd i + 4 + length ?b" using FNode.prems(2) by (simp add: length_pad_4 align4_dvd)
  have dvp: "4 dvd length ?p" using enc_prop_dvd by (induction ps) simp_all
  have "fdt_walk fit s i path props = fdt_walk fit s (i + 4 + length ?b) (path @ [n]) props"
    using walk_begin [OF h(1) FNode.prems(2)] FNode.prems(3) by simp
  also have "\<dots> = fdt_walk fit s (i + 4 + length ?b + length ?p) (path @ [n])
      (props @ map (\<lambda>(off, v). (node_path (path @ [n]), fdt_cstr (drop off s), v)) ps)"
    using walk_props [OF h(2) dv] FNode.prems(3) by simp
  also have "\<dots> = fdt_walk fit s (i + 4 + length ?b + length ?p + length ?c) (path @ [n]) (props @ flat_node s path (FNode n ps cs))"
    using kids [OF order_refl h(3)] dv dvp by simp
  also have "\<dots> = fdt_walk fit s (i + length (enc_node (FNode n ps cs))) path (props @ flat_node s path (FNode n ps cs))"
    using walk_end [OF h(4)] by (simp add: add.assoc)
  finally show ?case .
qed

text \<open>C21: a device tree laid out as the format says is read as exactly its properties, in document order, each under
  its node's path and with its name and value, whatever the depth of the tree.\<close>

theorem fdt_read_written:
  assumes "fdt_word fit 0 = Some FDT_MAGIC" and "fdt_word fit 4 = Some sz" and "fdt_word fit 8 = Some st"
    and "fdt_word fit 12 = Some so" and "get_range (unat so) (min (unat sz) (length fit)) fit = Some strings"
    and "4 dvd unat st" and "holds fit (unat st) (enc_node t @ to_be 4 FDT_END)" and "node_ok t"
  shows "tree_parse fit = Inr \<lparr>total_size = unat sz, fdt_props = flat_node strings [] t\<rparr>"
proof -
  have h: "holds fit (unat st) (enc_node t)" "holds fit (unat st + length (enc_node t)) (to_be 4 FDT_END)"
    using assms(7) by (simp_all add: holds_append)
  have "fdt_walk fit strings (unat st) [] [] =
      fdt_walk fit strings (unat st + length (enc_node t)) [] (flat_node strings [] t)"
    using walk_node [OF h(1) assms(6,8)] by simp
  also have "\<dots> = Inr (flat_node strings [] t)"
    by (subst fdt_walk.simps)
      (simp add: holds_word [OF h(2)] FDT_END_def FDT_BEGIN_NODE_def FDT_END_NODE_def FDT_PROP_def FDT_NOP_def Let_def)
  finally show ?thesis using assms(1-5) by (simp add: tree_parse_def fdt_header_def ok_or_def del: get_range_Some)
qed

definition example_tree :: fnode where
  "example_tree = FNode [] [] [FNode (utf8_bytes ''images'') [(0, [1, 2, 3])] []]"

definition write_fit :: "fnode \<Rightarrow> bytes \<Rightarrow> bytes" where
  "write_fit t strings =
     (let st = enc_node t @ to_be 4 FDT_END
      in to_be 4 FDT_MAGIC @ to_be 4 (of_nat (16 + length st + length strings) :: u32) @ to_be 4 (16 :: u32) @
         to_be 4 (of_nat (16 + length st) :: u32) @ st @ strings)"

definition example_fit :: bytes where
  "example_fit = write_fit example_tree (utf8_bytes ''k'' @ [0])"

theorem fdt_read_written_witness:
  "tree_parse example_fit = Inr \<lparr>total_size = 66, fdt_props = [(utf8_bytes ''/images'', utf8_bytes ''k'', [1, 2, 3])]\<rparr>"
proof -
  have w: "fdt_word example_fit 0 = Some FDT_MAGIC" "fdt_word example_fit 4 = Some 66" "fdt_word example_fit 8 = Some 16"
    "fdt_word example_fit 12 = Some 64" by code_simp+
  have r: "get_range 64 (min 66 (length example_fit)) example_fit = Some (utf8_bytes ''k'' @ [0])" by code_simp
  have h: "holds example_fit 16 (enc_node example_tree @ to_be 4 FDT_END)" by code_simp
  have ok: "node_ok example_tree" by code_simp
  have f: "flat_node (utf8_bytes ''k'' @ [0]) [] example_tree = [(utf8_bytes ''/images'', utf8_bytes ''k'', [1, 2, 3])]" by code_simp
  show ?thesis using fdt_read_written [OF w _ _ _ ok, of "utf8_bytes ''k'' @ [0]"] r h f by simp
qed

section \<open>Images are checked\<close>


definition example_boot :: bytes where
  "example_boot = write_fit (FNode [] [] [FNode (utf8_bytes ''images'') [] [FNode (utf8_bytes ''ramdisk'') [(0, [5])]
     [FNode (utf8_bytes ''hash'') [(5, [9]), (11, utf8_bytes ''sha256'' @ [0])] []]]])
     (utf8_bytes ''data'' @ [0] @ utf8_bytes ''value'' @ [0] @ utf8_bytes ''algo'' @ [0])"


end
