(* ===== verification/WindowsDisk.thy ===== *)
theory WindowsDisk
  imports Utf8 RustText
begin

text \<open>
  The Windows disk adapter, \<open>crates/cdj3k-emu-runtime/src/disk/windows_parse.rs\<close>: descriptors and
  extents, which disks are offered, names of drives, volumes and accounts, and the PowerShell the elevated steps
  run. Texts are lists of Unicode code points. The properties: base64 decodes to what was encoded, the disk
  numbers of a volume are read once each, a quoted value is one PowerShell literal with that value when it has
  no typographic quote, and the checks on drive, volume and account names rule such quotes out.
\<close>

type_synonym codepoints = "nat list"

abbreviation asc :: "string \<Rightarrow> codepoints" where "asc \<equiv> map code"

definition BUS_USB :: u32 where "BUS_USB = 7"
definition BUS_SD :: u32 where "BUS_SD = 12"
definition BUS_MMC :: u32 where "BUS_MMC = 13"

record disk_descriptor =
  bus_type :: u32
  removable :: bool
  vendor :: codepoints
  product_name :: codepoints

section \<open>Descriptors\<close>

definition u32_at :: "bytes \<Rightarrow> nat \<Rightarrow> u32 option" where
  "u32_at buf off = map_option from_le (get_range off (off + 4) buf)"

definition i64_at :: "bytes \<Rightarrow> nat \<Rightarrow> 64 word option" where
  "i64_at buf off = map_option from_le (get_range off (off + 8) buf)"

definition cstr_at :: "bytes \<Rightarrow> u32 \<Rightarrow> codepoints" where
  "cstr_at buf off =
     (if off = 0 \<or> length buf < unat off then []
      else trim_by is_ws_cp (the (utf8_chars (utf8_lossy (takeWhile (\<lambda>b. b \<noteq> 0) (drop (unat off) buf))))))"

definition parse_descriptor :: "bytes \<Rightarrow> disk_descriptor option" where
  "parse_descriptor buf =
     Option.bind (u32_at buf 4) (\<lambda>sz.
       if unat sz < 36 \<or> length buf < unat sz then None
       else
         let buf = take (unat sz) buf
         in Option.bind (u32_at buf 12) (\<lambda>v.
            Option.bind (u32_at buf 16) (\<lambda>p.
            Option.bind (u32_at buf 28) (\<lambda>bus.
              Some \<lparr>bus_type = bus, removable = (buf ! 10 \<noteq> 0), vendor = cstr_at buf v, product_name = cstr_at buf p\<rparr>))))"

definition geometry_disk_size :: "bytes \<Rightarrow> u64 option" where
  "geometry_disk_size buf =
     Option.bind (i64_at buf 24) (\<lambda>n. if sint n < 0 then None else Some n)"

text \<open>The loop over \<open>0..count\<close>, which stops at the first extent outside the buffer.\<close>

fun extent_disks :: "bytes \<Rightarrow> nat \<Rightarrow> nat \<Rightarrow> u32 list \<Rightarrow> u32 list" where
  "extent_disks buf i 0 disks = disks"
| "extent_disks buf i (Suc left) disks =
     (case u32_at buf (8 + i * 24) of
        None \<Rightarrow> disks
      | Some n \<Rightarrow> extent_disks buf (Suc i) left (if n \<in> set disks then disks else disks @ [n]))"

definition parse_disk_extents :: "bytes \<Rightarrow> u32 list" where
  "parse_disk_extents buf =
     (let count = (case u32_at buf 0 of None \<Rightarrow> 0 | Some n \<Rightarrow> unat n) in extent_disks buf 0 count [])"

definition is_eligible :: "u32 \<Rightarrow> u64 \<Rightarrow> bool \<Rightarrow> bool" where
  "is_eligible bus size_bytes is_system = (bus \<in> {BUS_USB, BUS_SD, BUS_MMC} \<and> 0 < size_bytes \<and> \<not> is_system)"

section \<open>Names\<close>

definition drive_name :: "u32 \<Rightarrow> codepoints" where
  "drive_name n = asc (''PhysicalDrive'' @ show_nat (unat n))"

definition drive_path :: "u32 \<Rightarrow> codepoints" where
  "drive_path n = [92, 92] @ asc ''.'' @ [92] @ asc ''PhysicalDrive'' @ asc (show_nat (unat n))"

definition cp_digit :: "nat \<Rightarrow> bool" where "cp_digit c = (48 \<le> c \<and> c \<le> 57)"

definition cp_hex :: "nat \<Rightarrow> bool" where
  "cp_hex c = (cp_digit c \<or> (97 \<le> c \<and> c \<le> 102) \<or> (65 \<le> c \<and> c \<le> 70))"

definition drive_number :: "codepoints \<Rightarrow> nat option" where
  "drive_number name =
     (case strip_prefix (asc ''PhysicalDrive'') name of
        None \<Rightarrow> None
      | Some digits \<Rightarrow>
          if digits = [] \<or> 4 < length digits \<or> \<not> list_all cp_digit digits then None else parse_radix 10 32 digits)"

definition strip_suffix_char :: "nat \<Rightarrow> codepoints \<Rightarrow> codepoints option" where
  "strip_suffix_char c s = (if s \<noteq> [] \<and> last s = c then Some (butlast s) else None)"

definition is_volume_path :: "codepoints \<Rightarrow> bool" where
  "is_volume_path p =
     (case Option.bind (strip_prefix ([92, 92, 63, 92] @ asc ''Volume{'') p) (strip_suffix_char 125) of
        None \<Rightarrow> False
      | Some guid \<Rightarrow>
          let groups = split_by (\<lambda>c. c = 45) guid
          in length groups = 5 \<and>
             list_all (\<lambda>(g, n). length g = n \<and> list_all cp_hex g) (zip groups [8, 4, 4, 4, 12]))"

definition is_valid_sid :: "codepoints \<Rightarrow> bool" where
  "is_valid_sid s =
     (case strip_prefix (asc ''S-1-'') s of
        None \<Rightarrow> False
      | Some tail \<Rightarrow> tail \<noteq> [] \<and> list_all (\<lambda>p. p \<noteq> [] \<and> list_all cp_digit p) (split_by (\<lambda>c. c = 45) tail))"

definition display_name :: "codepoints \<Rightarrow> disk_descriptor \<Rightarrow> u32 \<Rightarrow> codepoints" where
  "display_name volume_label d n =
     (let drive = vendor d @ [32] @ product_name d
      in case find (\<lambda>s. s \<noteq> []) [trim_by is_ws_cp volume_label, trim_by is_ws_cp drive] of
           Some s \<Rightarrow> s
         | None \<Rightarrow> drive_name n)"

definition busy_message :: "codepoints \<Rightarrow> codepoints list \<Rightarrow> codepoints" where
  "busy_message mount holders =
     (let who = (if holders = [] then asc ''another program'' else join (asc '', '') holders)
      in mount @ asc '' is in use by '' @ who @ asc ''. Close it there, then choose the disk again.'')"

definition is_vhdx :: "bytes \<Rightarrow> bool" where
  "is_vhdx header = (take 8 header = [0x76, 0x68, 0x64, 0x78, 0x66, 0x69, 0x6C, 0x65])"

section \<open>PowerShell\<close>

definition ALPHABET :: codepoints where
  "ALPHABET = asc ''ABCDEFGHIJKLMNOPQRSTUVWXYZabcdefghijklmnopqrstuvwxyz0123456789+/''"

definition base64_word :: "bytes \<Rightarrow> u32" where
  "base64_word chunk = fold (\<lambda>(i, b) acc. acc OR push_bit (16 - 8 * i) (ucast b)) (enumerate 0 chunk) 0"

definition base64_chunk :: "bytes \<Rightarrow> codepoints" where
  "base64_chunk chunk =
     map (\<lambda>i. if i \<le> length chunk then ALPHABET ! unat (drop_bit (18 - 6 * i) (base64_word chunk) AND 63) else 61) [0..<4]"

fun base64 :: "bytes \<Rightarrow> codepoints" where
  "base64 [] = []"
| "base64 [a] = base64_chunk [a]"
| "base64 [a, b] = base64_chunk [a, b]"
| "base64 (a # b # c # bs) = base64_chunk [a, b, c] @ base64 bs"

definition utf16_units :: "nat \<Rightarrow> u16 list" where
  "utf16_units c =
     (if c < 0x10000 then [of_nat c]
      else [of_nat (0xD800 + (c - 0x10000) div 0x400), of_nat (0xDC00 + (c - 0x10000) mod 0x400)])"

definition powershell_command :: "codepoints \<Rightarrow> codepoints" where
  "powershell_command script =
     asc ''powershell.exe -NoProfile -NonInteractive -ExecutionPolicy Bypass -EncodedCommand '' @
     base64 (concat (map (to_le 2) (concat (map utf16_units script))))"

definition QUOTE :: nat where "QUOTE = 39"

definition ps_quote :: "codepoints \<Rightarrow> codepoints" where
  "ps_quote s = [QUOTE] @ concat (map (\<lambda>c. if c = QUOTE then [QUOTE, QUOTE] else [c]) s) @ [QUOTE]"

definition grant_script :: "codepoints \<Rightarrow> codepoints \<Rightarrow> codepoints list \<Rightarrow> codepoints \<Rightarrow> codepoints" where
  "grant_script sid disk volumes err_file =
     asc ''$ErrorActionPreference='' @ [QUOTE] @ asc ''Stop'' @ [QUOTE] @ asc '';'' @
     asc ''$sid=New-Object Security.Principal.SecurityIdentifier('' @ ps_quote sid @ asc '');'' @
     asc ''$rights=[Security.AccessControl.FileSystemRights]'' @ ps_quote (asc ''Read,Write,Synchronize'') @ asc '';'' @
     asc ''$open=[Security.AccessControl.FileSystemRights]'' @ ps_quote (asc ''ReadPermissions,ChangePermissions'') @ asc '';'' @
     asc ''function Grant($p){'' @
     asc ''$f=New-Object IO.FileStream($p,'' @ ps_quote (asc ''Open'') @ asc '',$open,'' @ ps_quote (asc ''ReadWrite'') @
     asc '',8,'' @ ps_quote (asc ''None'') @ asc '');'' @
     asc ''try{$a=$f.GetAccessControl();'' @
     asc ''$a.AddAccessRule((New-Object Security.AccessControl.FileSystemAccessRule($sid,$rights,'' @
     ps_quote (asc ''Allow'') @ asc '')));'' @
     asc ''$f.SetAccessControl($a)}finally{$f.Dispose()}};'' @
     asc ''try{Grant '' @ ps_quote disk @ asc '';'' @
     asc ''foreach($v in @('' @ join (asc '','') (map ps_quote volumes) @ asc '')){try{Grant $v}catch{}}}'' @
     asc ''catch{[IO.File]::WriteAllText('' @ ps_quote err_file @ asc '',$_.Exception.Message);exit 1}''"

definition format_script :: "codepoints \<Rightarrow> codepoints \<Rightarrow> codepoints" where
  "format_script img err_file =
     asc ''$ErrorActionPreference='' @ [QUOTE] @ asc ''Stop'' @ [QUOTE] @ asc '';$p='' @ ps_quote img @ asc '';$m=$null;'' @
     asc ''try{'' @
     asc ''$m=Mount-DiskImage -ImagePath $p -StorageType VHDX -NoDriveLetter -PassThru;'' @
     asc ''$d=$m|Get-Disk;'' @
     asc ''$d|Initialize-Disk -PartitionStyle MBR;'' @
     asc ''$d|New-Partition -UseMaximumSize -Offset 1048576 -MbrType IFS|'' @
     asc ''Format-Volume -FileSystem exFAT -NewFileSystemLabel REKORDBOX -Confirm:$false|Out-Null}'' @
     asc ''catch{[IO.File]::WriteAllText('' @ ps_quote err_file @ asc '',$_.Exception.Message);exit 1}'' @
     asc ''finally{if($m){Dismount-DiskImage -ImagePath $p|Out-Null}}''"

section \<open>Literals\<close>

text \<open>How PowerShell reads a single-quoted literal: four typographic quotes count as the quote, a doubled
  quote stands for one, and any other quote ends the literal. The result is the value and what follows.\<close>

definition ps_quote_char :: "nat \<Rightarrow> bool" where
  "ps_quote_char c = (c \<in> {39, 0x2018, 0x2019, 0x201A, 0x201B})"

fun ps_body :: "codepoints \<Rightarrow> (codepoints \<times> codepoints) option" where
  "ps_body [] = None"
| "ps_body [c] = (if ps_quote_char c then Some ([], []) else None)"
| "ps_body (c # d # cs) =
     (if ps_quote_char c then
        if ps_quote_char d then map_option (\<lambda>(v, r). (d # v, r)) (ps_body cs) else Some ([], d # cs)
      else map_option (\<lambda>(v, r). (c # v, r)) (ps_body (d # cs)))"

definition ps_literal :: "codepoints \<Rightarrow> (codepoints \<times> codepoints) option" where
  "ps_literal s = (case s of c # cs \<Rightarrow> if ps_quote_char c then ps_body cs else None | [] \<Rightarrow> None)"

definition plain_quotes :: "codepoints \<Rightarrow> bool" where
  "plain_quotes s = list_all (\<lambda>c. ps_quote_char c \<longrightarrow> c = QUOTE) s"

lemma ps_quote_literal:
  assumes "plain_quotes s" and "rest = [] \<or> \<not> ps_quote_char (hd rest)"
  shows "ps_literal (ps_quote s @ rest) = Some (s, rest)"
proof -
  have q: "ps_quote_char QUOTE" by (simp add: ps_quote_char_def QUOTE_def)
  have "ps_body (concat (map (\<lambda>c. if c = QUOTE then [QUOTE, QUOTE] else [c]) s) @ QUOTE # rest) = Some (s, rest)"
    using assms(1)
  proof (induction s)
    case Nil
    then show ?case using assms(2) q by (cases rest) auto
  next
    case (Cons c s)
    let ?r = "concat (map (\<lambda>c. if c = QUOTE then [QUOTE, QUOTE] else [c]) s) @ QUOTE # rest"
    obtain d ds where d: "?r = d # ds" by (cases ?r) auto
    have "ps_body ?r = Some (s, rest)" using Cons by (simp add: plain_quotes_def)
    then show ?case using Cons.prems q d by (auto simp: plain_quotes_def)
  qed
  then show ?thesis using q by (simp add: ps_literal_def ps_quote_def)
qed

lemma members_split_by: "c \<in> set s \<Longrightarrow> P c \<or> (\<exists>p \<in> set (split_by P s). c \<in> set p)"
proof (induction s)
  case (Cons a s)
  then show ?case by (cases "split_by P s") auto
qed simp

definition no_quote :: "codepoints \<Rightarrow> bool" where
  "no_quote s = list_all (\<lambda>c. \<not> ps_quote_char c) s"

lemma no_quote_simps [simp]: "no_quote []" "no_quote (c # s) = (\<not> ps_quote_char c \<and> no_quote s)"
  "no_quote (s @ t) = (no_quote s \<and> no_quote t)"
  by (simp_all add: no_quote_def)

lemma cp_hex_no_quote: "list_all cp_hex s \<Longrightarrow> no_quote s"
  by (induction s) (auto simp: cp_hex_def cp_digit_def ps_quote_char_def)

lemma cp_digit_hex: "list_all cp_digit s \<Longrightarrow> list_all cp_hex s"
  by (induction s) (auto simp: cp_hex_def)

lemma no_quote_groups:
  assumes "\<And>p. p \<in> set (split_by (\<lambda>c. c = 45) s) \<Longrightarrow> list_all cp_hex p"
  shows "no_quote s"
proof -
  have "\<not> ps_quote_char c" if cs: "c \<in> set s" for c
  proof (cases "c = 45")
    case False
    then obtain p where "p \<in> set (split_by (\<lambda>c. c = 45) s)" "c \<in> set p"
      using members_split_by [OF cs, of "\<lambda>c. c = 45"] by blast
    then show ?thesis using cp_hex_no_quote [OF assms] by (auto simp: no_quote_def list_all_iff)
  qed (simp add: ps_quote_char_def)
  then show ?thesis by (simp add: no_quote_def list_all_iff)
qed

lemma sid_no_quote:
  assumes "is_valid_sid s"
  shows "no_quote s"
proof -
  obtain tail where s: "s = asc ''S-1-'' @ tail" and p: "list_all (\<lambda>p. p \<noteq> [] \<and> list_all cp_digit p) (split_by (\<lambda>c. c = 45) tail)"
    using assms by (auto simp: is_valid_sid_def strip_prefix_Some split: option.splits)
  have "no_quote tail" using p cp_digit_hex by (intro no_quote_groups) (metis (no_types, lifting) list_all_iff)
  then show ?thesis by (simp add: s ps_quote_char_def)
qed

lemma volume_no_quote:
  assumes "is_volume_path s"
  shows "no_quote s"
proof -
  obtain r where s: "s = ([92, 92, 63, 92] @ asc ''Volume{'') @ r" and r: "r \<noteq> []" "last r = 125"
    and g: "length (split_by (\<lambda>c. c = 45) (butlast r)) = 5"
      "list_all (\<lambda>(g, n). length g = n \<and> list_all cp_hex g) (zip (split_by (\<lambda>c. c = 45) (butlast r)) [8, 4, 4, 4, 12])"
    using assms unfolding is_volume_path_def strip_suffix_char_def Let_def
    by (auto simp: strip_prefix_Some simp del: append.simps split: option.splits bind_splits if_splits)
  have "list_all cp_hex p" if ps: "p \<in> set (split_by (\<lambda>c. c = 45) (butlast r))" for p
  proof -
    obtain i where "i < 5" "split_by (\<lambda>c. c = 45) (butlast r) ! i = p" using ps g(1) unfolding in_set_conv_nth by auto
    then show ?thesis using g unfolding list_all_length by auto
  qed
  then have "no_quote (butlast r)" by (rule no_quote_groups)
  then have "no_quote (butlast r @ [125])" by (simp add: ps_quote_char_def)
  moreover have "butlast r @ [125] = r" using r by (metis append_butlast_last_id)
  ultimately show ?thesis by (simp add: s ps_quote_char_def)
qed

lemma show_nat_cp: "list_all cp_digit (asc (show_nat n))"
  using show_nat_all_digits [of _ n] by (auto simp: list_all_iff cp_digit_def is_digit_def Let_def)

lemma drive_no_quote: "no_quote (drive_path n)"
  using cp_hex_no_quote [OF cp_digit_hex [OF show_nat_cp [of "unat n"]]] by (simp add: drive_path_def ps_quote_char_def)



text \<open>A path with a typographic quote ends its literal early: \<open>ps_quote\<close> doubles the ASCII quote only.\<close>

lemma typographic_quote_ends:
  "ps_literal (ps_quote [67, 0x2019, 59, 99]) = Some ([67], [59, 99, 39])"
  by (simp add: ps_literal_def ps_quote_def QUOTE_def ps_quote_char_def)

section \<open>Base64\<close>

definition cp_value :: "nat \<Rightarrow> nat" where
  "cp_value c = (if 65 \<le> c \<and> c \<le> 90 then c - 65 else if 97 \<le> c \<and> c \<le> 122 then c - 71
     else if 48 \<le> c \<and> c \<le> 57 then c + 4 else if c = 43 then 62 else 63)"

text \<open>Four characters hold 24 bits, of which one or two padding characters take away 8 or 16.\<close>

fun base64_decode :: "codepoints \<Rightarrow> bytes" where
  "base64_decode (p # q # r # s # cs) =
     (let n = ((cp_value p * 64 + cp_value q) * 64 + cp_value r) * 64 + cp_value s;
          b = [of_nat (n div 65536), of_nat (n div 256), of_nat n]
      in (if r = 61 then take 1 b else if s = 61 then take 2 b else b) @ base64_decode cs)"
| "base64_decode _ = []"

lemma alphabet_value:
  assumes "i < 64"
  shows "cp_value (ALPHABET ! i) = i" "ALPHABET ! i \<noteq> 61"
proof -
  have "list_all (\<lambda>i. cp_value (ALPHABET ! i) = i \<and> ALPHABET ! i \<noteq> 61) [0..<64]" by code_simp
  then show "cp_value (ALPHABET ! i) = i" "ALPHABET ! i \<noteq> 61" using assms by (simp_all add: list_all_iff)
qed

lemma word_3: "unat (base64_word [a, b, c]) = unat a * 65536 + unat b * 256 + unat c"
proof -
  let ?a = "ucast a :: u32" and ?b = "ucast b :: u32" and ?c = "ucast c :: u32"
  have w: "base64_word [a, b, c] = (push_bit 16 ?a OR push_bit 8 ?b) OR ?c" by (simp add: base64_word_def)
  have 1: "push_bit 16 ?a AND push_bit 8 ?b = 0" by (rule bit_eqI) (auto simp: bit_simps dest!: bit_imp_le_length)
  have 2: "(push_bit 16 ?a OR push_bit 8 ?b) AND ?c = 0" by (rule bit_eqI) (auto simp: bit_simps dest!: bit_imp_le_length)
  have "base64_word [a, b, c] = push_bit 16 ?a + push_bit 8 ?b + ?c"
    using w disjunctive_add_eq_or [OF 1] disjunctive_add_eq_or [OF 2] by simp
  also have "\<dots> = of_nat (unat a * 65536 + unat b * 256 + unat c)" by (simp add: push_bit_eq_mult)
  finally have *: "base64_word [a, b, c] = of_nat (unat a * 65536 + unat b * 256 + unat c)" .
  have "unat a * 65536 + unat b * 256 + unat c < 2 ^ 32"
    using unsigned_less [of a, where ?'a = nat] unsigned_less [of b, where ?'a = nat] unsigned_less [of c, where ?'a = nat] by simp
  then show ?thesis by (simp only: * unat_of_nat take_bit_eq_mod) simp
qed

lemma word_less: "base64_word [a] = base64_word [a, 0, 0]" "base64_word [a, b] = base64_word [a, b, 0]"
  by (simp_all add: base64_word_def)

lemma sextet: "unat (drop_bit k w AND 63) = unat w div 2 ^ k mod 64" for w :: u32
proof -
  have "drop_bit k w AND 63 = take_bit 6 (drop_bit k w)" by (simp add: take_bit_eq_mask mask_eq_exp_minus_1)
  moreover have "unat (take_bit 6 (drop_bit k w)) = take_bit 6 (drop_bit k (unat w))"
    by (simp only: unsigned_take_bit_eq unat_drop_bit_eq)
  ultimately show ?thesis by (simp only: take_bit_eq_mod drop_bit_eq_div) simp
qed

lemma decode_chunk:
  fixes a b c :: u8
  assumes n: "n = unat a * 65536 + unat b * 256 + unat c"
  shows "((n div 2 ^ 18 mod 64 * 64 + n div 2 ^ 12 mod 64) * 64 + n div 2 ^ 6 mod 64) * 64 + n mod 64 = n"
    "of_nat (n div 65536) = a" "(of_nat (n div 256) :: u8) = b" "(of_nat n :: u8) = c"
proof -
  have l: "unat a < 256" "unat b < 256" "unat c < 256"
    using unsigned_less [of a, where ?'a = nat] unsigned_less [of b, where ?'a = nat] unsigned_less [of c, where ?'a = nat] by simp_all
  then have "n < 2 ^ 24" unfolding n by simp
  then have "n div 2 ^ 18 mod 64 = n div 2 ^ 18" by simp
  moreover have "n div 2 ^ 12 = n div 2 ^ 6 div 64" "n div 2 ^ 18 = n div 2 ^ 6 div 64 div 64" by (simp_all add: div_mult2_eq [symmetric])
  moreover have "n div 2 ^ 6 = n div 64" by simp
  ultimately show "((n div 2 ^ 18 mod 64 * 64 + n div 2 ^ 12 mod 64) * 64 + n div 2 ^ 6 mod 64) * 64 + n mod 64 = n"
    by (simp only: div_mult_mod_eq)
  have "n div 65536 = unat a" using l unfolding n by simp
  then show "of_nat (n div 65536) = a" by simp
  have z: "(256 :: u8) = 0" "(65536 :: u8) = 0" by simp_all
  have "n div 256 = unat a * 256 + unat b" using l unfolding n by simp
  then show "(of_nat (n div 256) :: u8) = b" by (simp add: z)
  show "(of_nat n :: u8) = c" unfolding n by (simp add: z)
qed

lemma decode_four:
  assumes "m = ((x mod 64 * 64 + y mod 64) * 64 + z mod 64) * 64 + u mod 64"
  shows "base64_decode (ALPHABET ! (x mod 64) # ALPHABET ! (y mod 64) # ALPHABET ! (z mod 64) # ALPHABET ! (u mod 64) # cs) =
      [of_nat (m div 65536), of_nat (m div 256), of_nat m] @ base64_decode cs"
    "u mod 64 = 63 \<Longrightarrow> base64_decode [ALPHABET ! (x mod 64), ALPHABET ! (y mod 64), ALPHABET ! (z mod 64), 61] =
      [of_nat (m div 65536), of_nat (m div 256)]"
    "z mod 64 = 63 \<Longrightarrow> u mod 64 = 63 \<Longrightarrow> base64_decode [ALPHABET ! (x mod 64), ALPHABET ! (y mod 64), 61, 61] =
      [of_nat (m div 65536)]"
proof -
  have v: "cp_value (ALPHABET ! (n mod 64)) = n mod 64" "ALPHABET ! (n mod 64) \<noteq> 61" for n by (simp_all add: alphabet_value)
  have p: "cp_value 61 = 63" by (simp add: cp_value_def)
  show "base64_decode (ALPHABET ! (x mod 64) # ALPHABET ! (y mod 64) # ALPHABET ! (z mod 64) # ALPHABET ! (u mod 64) # cs) =
      [of_nat (m div 65536), of_nat (m div 256), of_nat m] @ base64_decode cs"
    by (simp only: base64_decode.simps Let_def v assms if_False)
  show "base64_decode [ALPHABET ! (x mod 64), ALPHABET ! (y mod 64), ALPHABET ! (z mod 64), 61] =
      [of_nat (m div 65536), of_nat (m div 256)]" if "u mod 64 = 63"
    using that unfolding assms by (simp only: base64_decode.simps Let_def v p if_False if_True) (simp add: numeral_2_eq_2)
  show "base64_decode [ALPHABET ! (x mod 64), ALPHABET ! (y mod 64), 61, 61] = [of_nat (m div 65536)]"
    if "z mod 64 = 63" "u mod 64 = 63"
    using that unfolding assms by (simp only: base64_decode.simps Let_def v p if_False if_True) simp
qed

lemma base64_chunk_sextets:
  assumes "n = unat (base64_word bs)"
  shows "length bs = 3 \<Longrightarrow> base64_chunk bs = map (\<lambda>k. ALPHABET ! (n div 2 ^ k mod 64)) [18, 12, 6, 0]"
    "length bs = 2 \<Longrightarrow> base64_chunk bs = map (\<lambda>k. ALPHABET ! (n div 2 ^ k mod 64)) [18, 12, 6] @ [61]"
    "length bs = 1 \<Longrightarrow> base64_chunk bs = map (\<lambda>k. ALPHABET ! (n div 2 ^ k mod 64)) [18, 12] @ [61, 61]"
  unfolding base64_chunk_def sextet assms [symmetric] by (simp_all add: upt_rec)

lemma div_steps: "q div 2 ^ 6 = q div 64" "q div 2 ^ 12 = q div 64 div 64" "q div 2 ^ 18 = q div 64 div 64 div 64" for q :: nat
  by (simp_all add: div_mult2_eq [symmetric])

lemma base64_chunk_3: "base64_decode (base64_chunk [a, b, c] @ cs) = [a, b, c] @ base64_decode cs"
proof -
  let ?n = "unat a * 65536 + unat b * 256 + unat c"
  have "base64_chunk [a, b, c] = map (\<lambda>k. ALPHABET ! (?n div 2 ^ k mod 64)) [18, 12, 6, 0]"
    using base64_chunk_sextets(1) [of ?n "[a, b, c]"] by (simp only: word_3) simp
  then show ?thesis
    using decode_four(1) [OF decode_chunk(1) [OF refl, of a b c, symmetric]] decode_chunk(2-4) [OF refl, of a b c] by simp
qed

lemma base64_chunk_2: "base64_decode (base64_chunk [a, b]) = [a, b]"
proof -
  let ?m = "unat a * 65536 + unat b * 256 + unat (63 :: u8)"
  have "(unat a * 65536 + unat b * 256) div 64 = ?m div 64" by simp
  then have c: "base64_chunk [a, b] = [ALPHABET ! (?m div 2 ^ 18 mod 64), ALPHABET ! (?m div 2 ^ 12 mod 64), ALPHABET ! (?m div 2 ^ 6 mod 64), 61]"
    using base64_chunk_sextets(2) [of "unat a * 65536 + unat b * 256" "[a, b]"] word_3 [of a b 0]
    by (simp only: word_less list.map div_steps) simp
  have u: "unat (63 :: u8) = 63" by simp
  have "?m mod 64 = 63" unfolding u by presburger
  then show ?thesis unfolding c
    by (simp only: decode_four(2) [OF decode_chunk(1) [OF refl, of a b 63, symmetric]] decode_chunk(2-4) [OF refl, of a b 63])
qed

lemma low_bits_1:
  "x * 65536 div 64 div 64 = (x * 65536 + 4095) div 64 div 64" "(x * 65536 + 4095) mod 64 = 63"
  "(x * 65536 + 4095) div 64 mod 64 = 63" for x :: nat
proof -
  have q: "(64 * y + 63) div 64 = y" "(64 * y + 63) mod 64 = 63" "64 * y div 64 = y" for y :: nat by simp_all
  have e: "x * 65536 = 64 * (64 * (x * 16))" "x * 65536 + 4095 = 64 * (64 * (x * 16) + 63) + 63" by simp_all
  show "x * 65536 div 64 div 64 = (x * 65536 + 4095) div 64 div 64" "(x * 65536 + 4095) mod 64 = 63"
    "(x * 65536 + 4095) div 64 mod 64 = 63"
    unfolding e(2) q unfolding e(1) q by (rule refl)+
qed

lemma base64_chunk_1: "base64_decode (base64_chunk [a]) = [a]"
proof -
  let ?l = "unat a * 65536 + unat (15 :: u8) * 256 + unat (255 :: u8)"
  have l: "?l = unat a * 65536 + 4095" by simp
  have "unat (base64_word [a]) = unat a * 65536" using word_3 [of a 0 0] by (simp add: word_less)
  then have c: "base64_chunk [a] = [ALPHABET ! (?l div 2 ^ 18 mod 64), ALPHABET ! (?l div 2 ^ 12 mod 64), 61, 61]"
    using base64_chunk_sextets(3) [of "unat a * 65536" "[a]"]
    unfolding l div_steps list.map append.simps low_bits_1(1) by (simp only: list.size One_nat_def add_0)
  have m: "?l mod 64 = 63" "?l div 2 ^ 6 mod 64 = 63" unfolding l div_steps using low_bits_1 by blast+
  show ?thesis unfolding c decode_four(3) [OF decode_chunk(1) [OF refl, of a 15 255, symmetric], OF m(2,1)] decode_chunk(2) [OF refl] ..
qed

text \<open>The base64 text of an encoded command decodes to exactly its bytes.\<close>

theorem base64_round_trip: "base64_decode (base64 bs) = bs"
  by (induction bs rule: base64.induct) (simp_all only: base64.simps base64_chunk_1 base64_chunk_2 base64_chunk_3 base64_decode.simps append.simps)

section \<open>Disks and drives\<close>

lemma u32_at_mono: "u32_at buf i = None \<Longrightarrow> i \<le> j \<Longrightarrow> u32_at buf j = None"
  by (auto simp: u32_at_def get_range_def split: if_splits)

lemma extent_disks_facts:
  "distinct disks \<Longrightarrow> distinct (extent_disks buf i n disks) \<and>
     set (extent_disks buf i n disks) = set disks \<union> {d. \<exists>k < n. u32_at buf (8 + (i + k) * 24) = Some d}"
proof (induction n arbitrary: i disks)
  case (Suc n)
  show ?case
  proof (cases "u32_at buf (8 + i * 24)")
    case None
    then have "u32_at buf (8 + (i + k) * 24) = None" for k using u32_at_mono [OF None] by (simp add: add_mult_distrib)
    then show ?thesis using Suc None by simp
  next
    case (Some d)
    let ?ds = "if d \<in> set disks then disks else disks @ [d]"
    have "distinct ?ds" using Suc.prems by auto
    note IH = Suc.IH [OF this, of "Suc i"]
    have "{x. \<exists>k < Suc n. u32_at buf (8 + (i + k) * 24) = Some x} =
        insert d {x. \<exists>k < n. u32_at buf (8 + (Suc i + k) * 24) = Some x}"
      using Some by (auto simp: less_Suc_eq_0_disj)
    then show ?thesis using IH Some by auto
  qed
qed simp

text \<open>The disks of a volume are read once each, and they are exactly the disk numbers of the extents that lie in the
  buffer, whatever count the buffer claims.\<close>

theorem extents_exact:
  "distinct (parse_disk_extents buf) \<and>
   set (parse_disk_extents buf) =
     {d. \<exists>n k. u32_at buf 0 = Some n \<and> k < unat n \<and> u32_at buf (8 + k * 24) = Some d}"
  using extent_disks_facts [of "[]" buf 0] by (auto simp: parse_disk_extents_def split: option.splits)

text \<open>A drive's name gives back its number for every number of up to four digits, and only such names are
  accepted.\<close>

theorem drive_round_trip:
  "(length (show_nat (unat n)) \<le> 4 \<longrightarrow> drive_number (drive_name n) = Some (unat n)) \<and>
   (drive_number s = Some k \<longrightarrow> (\<exists>ds. s = asc ''PhysicalDrive'' @ ds \<and> ds \<noteq> [] \<and> length ds \<le> 4 \<and> list_all cp_digit ds))"
proof -
  have "show_nat (unat n) \<noteq> []" using show_nat_hd [of "unat n"] by auto
  moreover have "parse_radix 10 32 (asc (show_nat (unat n))) = Some (unat n)"
    using parse_uint_show [of "unat n" 32] unsigned_less [of n, where ?'a = nat] by (simp add: parse_uint_def)
  moreover have "strip_prefix (asc ''PhysicalDrive'') (drive_name n) = Some (asc (show_nat (unat n)))"
    unfolding strip_prefix_Some drive_name_def by simp
  ultimately have "length (show_nat (unat n)) \<le> 4 \<longrightarrow> drive_number (drive_name n) = Some (unat n)"
    using show_nat_cp [of "unat n"] by (simp add: drive_number_def)
  moreover have "drive_number s = Some k \<longrightarrow>
      (\<exists>ds. s = asc ''PhysicalDrive'' @ ds \<and> ds \<noteq> [] \<and> length ds \<le> 4 \<and> list_all cp_digit ds)"
    unfolding drive_number_def by (auto simp: strip_prefix_Some simp del: append.simps list.map split: option.splits if_splits)
  ultimately show ?thesis by blast
qed

theorem drive_round_trip_witness: "drive_number (drive_name 12) = Some 12"
  using drive_round_trip [of 12] by (simp add: show_nat.simps)

end
