(* ===== verification/ModsReport.thy ===== *)
theory ModsReport
  imports ModManifest
begin

text \<open>
  The guest's report on a boot's mods, \<open>crates/cdj3k-emu-runtime/src/mods_report.rs\<close>: the lines the
  guest sends, the outcomes and the lines that could not be read, and the text the report is kept as. The
  property: whatever lines arrive, the report made of them is written to lines that read back as the
  same report.
\<close>

datatype script = Exit int | Timeout | Missing

record mod_outcome =
  mo_name :: string
  mo_script :: script
  mo_libs :: nat

record unread =
  un_name :: string
  un_line :: string

datatype mods_report = Unknown | Off | Pending | Done "mod_outcome list" "unread list"

record partial =
  pa_outcomes :: "mod_outcome list"
  pa_unread :: "unread list"

definition REPORT_MAX :: nat where "REPORT_MAX = 256"
definition LINE_MAX :: nat where "LINE_MAX = 1024"

definition report_name :: "string \<Rightarrow> bool" where
  "report_name name =
     (let stem = hd (split_by dot name)
      in str_len name \<le> 48 \<and>
         (case name of [] \<Rightarrow> False | c # _ \<Rightarrow> is_lower c \<or> is_digit c) \<and>
         list_all (\<lambda>c. is_lower c \<or> is_digit c \<or> c \<in> set ''._-'') name \<and>
         \<not> (name \<noteq> [] \<and> last name = CHR ''.'') \<and> stem \<notin> set DEVICES)"

definition script_parse :: "string \<Rightarrow> script option" where
  "script_parse s =
     (if s = ''timeout'' then Some Timeout else if s = ''none'' then Some Missing
      else map_option Exit (parse_sint 32 s))"

definition outcome_parse :: "string \<Rightarrow> mod_outcome option" where
  "outcome_parse rest =
     (case split_whitespace rest of
        [name, k, script, l, libs] \<Rightarrow>
          if k \<noteq> ''script'' \<or> l \<noteq> ''libs'' then None
          else if \<not> report_name name then None
          else (case script_parse script of
                  None \<Rightarrow> None
                | Some sc \<Rightarrow>
                    map_option (\<lambda>n. \<lparr>mo_name = name, mo_script = sc, mo_libs = n\<rparr>) (parse_uint 32 libs))
      | _ \<Rightarrow> None)"

definition show_int :: "int \<Rightarrow> string" where
  "show_int i = (if i < 0 then CHR ''-'' # show_nat (nat (- i)) else show_nat (nat i))"

definition script_show :: "script \<Rightarrow> string" where
  "script_show s = (case s of Exit rc \<Rightarrow> show_int rc | Timeout \<Rightarrow> ''timeout'' | Missing \<Rightarrow> ''none'')"

definition outcome_line :: "mod_outcome \<Rightarrow> string" where
  "outcome_line oc =
     ''mod '' @ mo_name oc @ '' script '' @ script_show (mo_script oc) @ '' libs '' @ show_nat (mo_libs oc)"

definition outcome_failed :: "mod_outcome \<Rightarrow> bool" where
  "outcome_failed oc = (mo_script oc \<noteq> Exit 0)"

text \<open>\<open>push\<close>: the partial report after the line, and whether it was taken.\<close>

definition partial_push :: "string \<Rightarrow> partial \<Rightarrow> partial \<times> bool" where
  "partial_push rest p =
     (if REPORT_MAX \<le> length (pa_outcomes p) + length (pa_unread p) \<or> LINE_MAX < str_len rest then (p, False)
      else (case outcome_parse rest of
              Some oc \<Rightarrow> (p\<lparr>pa_outcomes := pa_outcomes p @ [oc]\<rparr>, True)
            | None \<Rightarrow>
                (case split_whitespace rest of
                   [] \<Rightarrow> (p, False)
                 | name # _ \<Rightarrow>
                     if report_name name
                     then (p\<lparr>pa_unread := pa_unread p @ [\<lparr>un_name = name, un_line = trim rest\<rparr>]\<rparr>, True)
                     else (p, False))))"

definition report_lines :: "mods_report \<Rightarrow> string list" where
  "report_lines r =
     (case r of
        Unknown \<Rightarrow> []
      | Off \<Rightarrow> [''mods off'']
      | Pending \<Rightarrow> [''mods pending'']
      | Done os us \<Rightarrow> [''mods begin''] @ map outcome_line os @ map (\<lambda>u. ''mod '' @ un_line u) us @ [''mods end''])"

definition no_partial :: partial where "no_partial = \<lparr>pa_outcomes = [], pa_unread = []\<rparr>"

definition report_step :: "string \<Rightarrow> mods_report \<times> partial option \<Rightarrow> mods_report \<times> partial option" where
  "report_step line = (\<lambda>(report, part).
     let l = trim line
     in if l = ''mods off'' then (Off, part)
        else if l = ''mods pending'' then (Pending, part)
        else if l = ''mods begin'' then (report, Some no_partial)
        else if l = ''mods end'' then
          (case part of Some p \<Rightarrow> (Done (pa_outcomes p) (pa_unread p), None) | None \<Rightarrow> (report, part))
        else (case (strip_prefix ''mod '' l, part) of
                (Some rest, Some p) \<Rightarrow> (report, Some (fst (partial_push rest p)))
              | _ \<Rightarrow> (report, part)))"

definition from_lines :: "string list \<Rightarrow> mods_report" where
  "from_lines ls = fst (fold report_step ls (Unknown, None))"

lemma report_name_agrees: "report_name = valid_name"
  by (auto simp: report_name_def valid_name_def Let_def fun_eq_iff)

section \<open>Words\<close>

lemma split_ws_lead: "is_ws c \<Longrightarrow> split_whitespace (c # s) = split_whitespace s"
  by (simp add: split_whitespace_def)

lemma split_ws_trail: "is_ws c \<Longrightarrow> split_whitespace (s @ [c]) = split_whitespace s"
  using split_by_at [of is_ws c s "[]"] by (simp add: split_whitespace_def)

lemma split_ws_trim: "split_whitespace (trim s) = split_whitespace s"
proof -
  have s: "split_whitespace (dropWhile is_ws s) = split_whitespace s" for s
    by (induction s) (simp_all add: split_ws_lead)
  have e: "split_whitespace (trim_end_by is_ws s) = split_whitespace s" for s
    by (induction s rule: rev_induct) (simp_all add: trim_end_by_snoc split_ws_trail, simp add: trim_end_by_def)
  show ?thesis by (simp add: trim_def trim_by_def e trim_start_by_def s)
qed

lemma split_ws_word:
  "w \<noteq> [] \<Longrightarrow> \<forall>c \<in> set w. \<not> is_ws c \<Longrightarrow> split_whitespace (w @ CHR '' '' # s) = w # split_whitespace s"
  using split_by_append [of w is_ws "CHR '' ''" s] by (simp add: split_whitespace_def is_ws_def)

lemma split_ws_last: "w \<noteq> [] \<Longrightarrow> \<forall>c \<in> set w. \<not> is_ws c \<Longrightarrow> split_whitespace w = [w]"
  by (simp add: split_whitespace_def split_by_no_match)

section \<open>Reports read back\<close>

lemma digits_no_ws: "c \<in> set (show_nat n) \<Longrightarrow> \<not> is_ws c"
  using show_nat_all_digits [of c n] by (auto simp: is_digit_def is_ws_def Let_def)

lemma show_nat_nonempty: "show_nat n \<noteq> []"
  using show_nat_hd [of n] by auto

lemma script_show_word: "script_show s \<noteq> []" "c \<in> set (script_show s) \<Longrightarrow> \<not> is_ws c"
  using show_nat_nonempty digits_no_ws
  by (auto simp: script_show_def show_int_def is_ws_def Let_def split: script.splits if_splits)

lemma name_word: "report_name n \<Longrightarrow> n \<noteq> []" "report_name n \<Longrightarrow> c \<in> set n \<Longrightarrow> \<not> is_ws c"
  by (auto simp: report_name_def Let_def list_all_iff is_lower_def is_digit_def is_ws_def split: list.splits)

text \<open>The values a parsed script has, and that they are printed so that they parse.\<close>

definition script_ok :: "script \<Rightarrow> bool" where
  "script_ok s = (case s of Exit rc \<Rightarrow> - (2 ^ 31) \<le> rc \<and> rc < 2 ^ 31 | _ \<Rightarrow> True)"

lemma parse_sint_range: "parse_sint 32 s = Some i \<Longrightarrow> - (2 ^ 31) \<le> i \<and> i < 2 ^ 31"
  by (auto simp: parse_sint_def Let_def split: list.splits option.splits if_splits)

lemma parse_sint_show:
  assumes "- (2 ^ 31) \<le> i" "i < 2 ^ 31"
  shows "parse_sint 32 (show_int i) = Some i"
proof (cases "i < 0")
  case True
  obtain vs where "mapM_opt (to_digit 10) (map code (show_nat (nat (- i)))) = Some vs" "digits_value 10 vs = nat (- i)"
    using show_nat_digits by blast
  then show ?thesis using True assms show_nat_nonempty [of "nat (- i)"] by (simp add: parse_sint_def show_int_def Let_def)
next
  case False
  obtain vs where v: "mapM_opt (to_digit 10) (map code (show_nat (nat i))) = Some vs" "digits_value 10 vs = nat i"
    using show_nat_digits by blast
  obtain d ds where d: "show_nat (nat i) = d # ds" "is_digit d" using show_nat_hd by blast
  then show ?thesis using v False assms is_digit_not_sign [OF d(2)] by (simp add: parse_sint_def show_int_def Let_def)
qed

lemma script_parse_ok: "script_parse s = Some sc \<Longrightarrow> script_ok sc"
  using parse_sint_range by (auto simp: script_parse_def script_ok_def split: if_splits)

lemma script_round_trip:
  assumes "script_ok sc"
  shows "script_parse (script_show sc) = Some sc"
proof (cases sc)
  case (Exit rc)
  obtain d ds where d: "show_int rc = d # ds" "is_digit d \<or> d = CHR ''-''"
    using show_nat_hd [of "nat rc"] by (cases "rc < 0") (auto simp: show_int_def)
  then have "show_int rc \<noteq> ''timeout''" "show_int rc \<noteq> ''none''" by (auto simp: is_digit_def)
  then show ?thesis using parse_sint_show assms by (simp add: Exit script_show_def script_parse_def script_ok_def)
qed (simp_all add: script_show_def script_parse_def)

definition outcome_ok :: "mod_outcome \<Rightarrow> bool" where
  "outcome_ok oc = (report_name (mo_name oc) \<and> script_ok (mo_script oc) \<and> mo_libs oc < 2 ^ 32)"

lemma outcome_parse_ok: "outcome_parse s = Some oc \<Longrightarrow> outcome_ok oc"
  using script_parse_ok
  by (auto simp: outcome_parse_def outcome_ok_def parse_uint_def dest!: parse_radix_bound
      split: list.splits if_splits option.splits)

definition outcome_rest :: "mod_outcome \<Rightarrow> string" where
  "outcome_rest oc = mo_name oc @ '' script '' @ script_show (mo_script oc) @ '' libs '' @ show_nat (mo_libs oc)"

lemma outcome_line_rest: "outcome_line oc = ''mod '' @ outcome_rest oc"
  by (simp add: outcome_line_def outcome_rest_def)

lemma outcome_round_trip:
  assumes "outcome_ok oc"
  shows "outcome_parse (outcome_rest oc) = Some oc"
proof -
  have n: "report_name (mo_name oc)" "mo_libs oc < 2 ^ 32" "script_ok (mo_script oc)" using assms by (simp_all add: outcome_ok_def)
  have w: "\<forall>c \<in> set (mo_name oc). \<not> is_ws c" "\<forall>c \<in> set (script_show (mo_script oc)). \<not> is_ws c"
    "\<forall>c \<in> set (show_nat (mo_libs oc)). \<not> is_ws c" "\<forall>c \<in> set ''script''. \<not> is_ws c" "\<forall>c \<in> set ''libs''. \<not> is_ws c"
    using name_word(2) [OF n(1)] script_show_word(2) digits_no_ws by (blast, blast, blast, simp_all add: is_ws_def)
  have "outcome_rest oc = mo_name oc @ CHR '' '' # ''script'' @ CHR '' '' #
      script_show (mo_script oc) @ CHR '' '' # ''libs'' @ CHR '' '' # show_nat (mo_libs oc)"
    by (simp add: outcome_rest_def)
  then have "split_whitespace (outcome_rest oc) =
      [mo_name oc, ''script'', script_show (mo_script oc), ''libs'', show_nat (mo_libs oc)]"
    by (simp only: split_ws_word [OF name_word(1) [OF n(1)] w(1)] split_ws_word [OF _ w(4)]
        split_ws_word [OF script_show_word(1) w(2)] split_ws_word [OF _ w(5)] split_ws_last [OF show_nat_nonempty w(3)]
        list.distinct not_False_eq_True)
  then show ?thesis using n script_round_trip by (simp add: outcome_parse_def)
qed

section \<open>Reports the lines of a guest make\<close>

definition unread_ok :: "unread \<Rightarrow> bool" where
  "unread_ok u =
     (report_name (un_name u) \<and> outcome_parse (un_line u) = None \<and> trim (un_line u) = un_line u \<and>
      split_whitespace (un_line u) \<noteq> [] \<and> hd (split_whitespace (un_line u)) = un_name u \<and>
      str_len (un_line u) \<le> LINE_MAX)"

definition lists_ok :: "mod_outcome list \<Rightarrow> unread list \<Rightarrow> bool" where
  "lists_ok os us = (list_all outcome_ok os \<and> list_all unread_ok us \<and> length os + length us \<le> REPORT_MAX)"

definition report_ok :: "mods_report \<Rightarrow> bool" where
  "report_ok r = (case r of Done os us \<Rightarrow> lists_ok os us | _ \<Rightarrow> True)"

definition part_ok :: "partial option \<Rightarrow> bool" where
  "part_ok q = (case q of None \<Rightarrow> True | Some p \<Rightarrow> lists_ok (pa_outcomes p) (pa_unread p))"

lemma report_len_append: "str_len (a @ b) = str_len a + str_len b"
  by (simp add: str_len_def)

lemma str_len_trim: "str_len (trim s) \<le> str_len s"
proof -
  have d: "str_len (dropWhile P t) \<le> str_len t" for P t
    by (induction t) (auto simp: str_len_def)
  have r: "str_len (rev t) = str_len t" for t by (simp add: str_len_def rev_map [symmetric])
  have "str_len (trim_end_by is_ws t) \<le> str_len t" for t
    using d [of is_ws "rev t"] r by (simp add: trim_end_by_def)
  then show ?thesis using d [of is_ws s] unfolding trim_def trim_by_def trim_start_by_def by (meson le_trans)
qed

lemma outcome_parse_trim: "outcome_parse (trim s) = outcome_parse s"
  by (simp add: outcome_parse_def split_ws_trim)

lemma partial_push_ok:
  assumes "lists_ok (pa_outcomes p) (pa_unread p)" "partial_push rest p = (q, b)"
  shows "lists_ok (pa_outcomes q) (pa_unread q)"
proof (cases "outcome_parse rest")
  case (Some oc)
  then show ?thesis using assms outcome_parse_ok [OF Some] by (auto simp: partial_push_def lists_ok_def split: if_splits)
next
  case None
  then have "outcome_parse (trim rest) = None" by (simp add: outcome_parse_trim)
  then show ?thesis using None assms str_len_trim [of rest]
    by (auto simp: partial_push_def lists_ok_def unread_ok_def split_ws_trim split: if_splits list.splits)
qed

lemma report_step_ok:
  assumes "report_ok r" "part_ok q" "report_step line (r, q) = (r', q')"
  shows "report_ok r' \<and> part_ok q'"
proof -
  have "part_ok (Some (fst (partial_push rest p)))" if "q = Some p" for rest p
    using partial_push_ok [of p rest] assms(2) that by (cases "partial_push rest p") (auto simp: part_ok_def)
  moreover have "part_ok (Some no_partial)" by (simp add: part_ok_def no_partial_def lists_ok_def)
  moreover have "report_ok (Done (pa_outcomes p) (pa_unread p))" if "q = Some p" for p
    using assms(2) that by (simp add: part_ok_def report_ok_def)
  ultimately show ?thesis using assms
    by (auto simp: report_step_def Let_def report_ok_def [of Off] report_ok_def [of Pending] part_ok_def [of None]
        split: if_splits option.splits)
qed

lemma from_lines_ok: "report_ok (from_lines ls)"
proof -
  have "report_ok (fst (fold report_step ls s)) \<and> part_ok (snd (fold report_step ls s))"
    if "report_ok (fst s)" "part_ok (snd s)" for s
    using that
  proof (induction ls arbitrary: s)
    case (Cons l ls)
    obtain r q where "report_step l s = (r, q)" by fastforce
    moreover have "report_ok r \<and> part_ok q"
      using report_step_ok [of "fst s" "snd s" l r q] Cons.prems calculation by simp
    ultimately show ?case using Cons.IH by simp
  qed simp
  then show ?thesis by (simp add: from_lines_def report_ok_def part_ok_def)
qed

section \<open>A report's lines, read\<close>

lemma show_nat_length: "n < 10 ^ k \<Longrightarrow> 0 < k \<Longrightarrow> length (show_nat n) \<le> k"
proof (induction k arbitrary: n)
  case (Suc k)
  then show ?case
  proof (cases "n < 10")
    case False
    then have "0 < k" using Suc.prems by (cases k) auto
    moreover have "n div 10 < 10 ^ k" using Suc.prems by (simp add: less_mult_imp_div_less mult.commute)
    ultimately show ?thesis using Suc.IH False by (simp add: show_nat.simps [of n])
  qed (simp add: show_nat.simps [of n])
qed simp

lemma str_len_le: "str_len s \<le> 2 * length s"
  by (induction s) (auto simp: str_len_def)

lemma outcome_rest_short:
  assumes "outcome_ok oc"
  shows "str_len (outcome_rest oc) \<le> LINE_MAX"
proof -
  have "length (show_nat (mo_libs oc)) \<le> 10" using assms by (intro show_nat_length) (auto simp: outcome_ok_def)
  moreover have "length (show_nat n) \<le> 10" "length (show_nat n) \<le> 11" if "n \<le> 2 ^ 31" for n
    using that show_nat_length [of n 10] by auto
  then have "length (script_show (mo_script oc)) \<le> 11"
    using assms by (auto simp: outcome_ok_def script_ok_def script_show_def show_int_def split: script.splits)
  moreover have "str_len (mo_name oc) \<le> 48" using assms by (simp add: outcome_ok_def report_name_def Let_def)
  ultimately show ?thesis
    using str_len_le [of "'' script '' @ script_show (mo_script oc) @ '' libs '' @ show_nat (mo_libs oc)"]
    by (simp add: outcome_rest_def report_len_append [of "mo_name oc"] LINE_MAX_def)
qed

lemma outcome_rest_trim:
  assumes "outcome_ok oc"
  shows "trim (outcome_rest oc) = outcome_rest oc" "outcome_rest oc \<noteq> []"
proof -
  have n: "mo_name oc \<noteq> []" "\<not> is_ws (hd (mo_name oc))"
    using assms name_word [of "mo_name oc"] by (auto simp: outcome_ok_def)
  moreover have "\<not> is_ws (last (show_nat (mo_libs oc)))" using digits_no_ws [OF last_in_set [OF show_nat_nonempty]] .
  ultimately show "trim (outcome_rest oc) = outcome_rest oc"
    unfolding trim_def by (intro trim_by_id) (simp add: outcome_rest_def show_nat_nonempty)
  show "outcome_rest oc \<noteq> []" by (simp add: outcome_rest_def)
qed

text \<open>A line of a report between its first and its last one.\<close>

lemma report_step_mod:
  assumes "trim rest = rest" "rest \<noteq> []"
  shows "report_step (''mod '' @ rest) (r, Some p) = (r, Some (fst (partial_push rest p)))"
proof -
  have "\<not> is_ws (last rest)" using trim_by_ends [of is_ws rest] assms by (simp add: trim_def)
  then have "trim (''mod '' @ rest) = ''mod '' @ rest"
    unfolding trim_def using assms(2) by (intro trim_by_id) (simp add: is_ws_def)
  moreover have "strip_prefix ''mod '' (''mod '' @ rest) = Some rest" by (rule strip_prefix_append)
  ultimately show ?thesis by (simp add: report_step_def Let_def)
qed

lemma push_outcome:
  assumes "outcome_ok oc" "length (pa_outcomes p) + length (pa_unread p) < REPORT_MAX"
  shows "fst (partial_push (outcome_rest oc) p) = p\<lparr>pa_outcomes := pa_outcomes p @ [oc]\<rparr>"
  using assms outcome_round_trip outcome_rest_short [OF assms(1)] by (simp add: partial_push_def)

lemma push_unread:
  assumes "unread_ok u" "length (pa_outcomes p) + length (pa_unread p) < REPORT_MAX"
  shows "fst (partial_push (un_line u) p) = p\<lparr>pa_unread := pa_unread p @ [u]\<rparr>"
  using assms by (auto simp: partial_push_def unread_ok_def split: list.splits)

lemma fold_outcomes:
  assumes "list_all outcome_ok os" "length (pa_outcomes p) + length (pa_unread p) + length os \<le> REPORT_MAX"
  shows "fold report_step (map outcome_line os) (r, Some p) = (r, Some (p\<lparr>pa_outcomes := pa_outcomes p @ os\<rparr>))"
  using assms
proof (induction os arbitrary: p)
  case (Cons oc os)
  then have "report_step (outcome_line oc) (r, Some p) = (r, Some (p\<lparr>pa_outcomes := pa_outcomes p @ [oc]\<rparr>))"
    by (simp add: outcome_line_rest report_step_mod [OF outcome_rest_trim, simplified] push_outcome)
  then show ?case using Cons by simp
qed simp

lemma fold_unread:
  assumes "list_all unread_ok us" "length (pa_outcomes p) + length (pa_unread p) + length us \<le> REPORT_MAX"
  shows "fold report_step (map (\<lambda>u. ''mod '' @ un_line u) us) (r, Some p) =
    (r, Some (p\<lparr>pa_unread := pa_unread p @ us\<rparr>))"
  using assms
proof (induction us arbitrary: p)
  case (Cons u us)
  then have "un_line u \<noteq> []" by (auto simp: unread_ok_def split_whitespace_def)
  with Cons.prems have "report_step (''mod '' @ un_line u) (r, Some p) = (r, Some (p\<lparr>pa_unread := pa_unread p @ [u]\<rparr>))"
    by (subst report_step_mod) (auto simp: push_unread unread_ok_def)
  then show ?case using Cons by simp
qed simp

lemma report_words: "report_step ''mods begin'' (r, q) = (r, Some no_partial)"
  "report_step ''mods end'' (r, Some p) = (Done (pa_outcomes p) (pa_unread p), None)"
  "report_step ''mods off'' (r, q) = (Off, q)" "report_step ''mods pending'' (r, q) = (Pending, q)"
  by (simp_all add: report_step_def trim_def trim_by_def trim_start_by_def trim_end_by_def is_ws_def)

lemma report_read_back:
  assumes "report_ok r"
  shows "from_lines (report_lines r) = r"
proof (cases r)
  case (Done os us)
  then have "list_all outcome_ok os" "list_all unread_ok us" "length os + length us \<le> REPORT_MAX"
    using assms by (simp_all add: report_ok_def lists_ok_def)
  then show ?thesis using fold_outcomes [of os no_partial] fold_unread [of us "no_partial\<lparr>pa_outcomes := os\<rparr>"]
    by (simp add: Done from_lines_def report_lines_def report_words no_partial_def)
qed (simp_all add: from_lines_def report_lines_def report_words)

text \<open>C25: Whatever lines a guest sends, the report read from them is written as lines that read back to the same
  report: no outcome, no line that could not be read and no name is lost or changed by keeping it.\<close>

theorem report_round_trip: "from_lines (report_lines (from_lines ls)) = from_lines ls"
  by (rule report_read_back [OF from_lines_ok])

end
